(* ===== verification/Prelude.thy ===== *)
theory Prelude
  imports Main "HOL-Library.Word" "HOL-Library.Monad_Syntax"
begin

text \<open>
  Shared vocabulary of the development: the machine integers of the C code, the page
  arithmetic macros, the error codes, the convention for calls that do not return, and
  the generic lemmas on options, lists and words that the component theories use.

  A C function that can crash the kernel (a NULL or dangling pointer is dereferenced) or
  loop forever is an option-valued function: \<^term>\<open>None\<close> says that the call never
  returns to its caller. C return codes are ordinary values (\<^typ>\<open>int\<close>).
\<close>

unbundle bit_operations_syntax

named_theorems heap_simps \<open>rewrite rules for pointer-level list operations\<close>
named_theorems page_simps \<open>rewrite rules for the table of snapshotted pages\<close>
named_theorems flag_simps \<open>rewrite rules for flag words\<close>
named_theorems inv_intros \<open>introduction rules for component invariants\<close>

section \<open>Machine integers and pages\<close>

type_synonym u64 = "64 word"
type_synonym u32 = "32 word"
type_synonym page = "8 word list"

definition PAGE_SHIFT :: nat where "PAGE_SHIFT = 12"
definition PAGE_SIZE :: u64 where "PAGE_SIZE = 4096"
definition PAGE_MASK :: u64 where "PAGE_MASK = NOT (4096 - 1)"
definition PAGE_ALIGN :: "u64 \<Rightarrow> u64" where
  "PAGE_ALIGN x = (x + (4096 - 1)) AND NOT (4096 - 1)"
definition ULONG_MAX :: u64 where "ULONG_MAX = - 1"

definition offset_in_page :: "u64 \<Rightarrow> u64" where
  "offset_in_page x = x AND 4095"

definition page_aligned :: "u64 \<Rightarrow> bool" where
  "page_aligned x \<longleftrightarrow> offset_in_page x = 0"

text \<open>Conversion of a C \<open>long long\<close> to \<open>int\<close>: the low 32 bits, read as signed.\<close>

definition to_int32 :: "int \<Rightarrow> int" where
  "to_int32 x = signed_take_bit 31 x"

definition ENOENT :: int where "ENOENT = 2"
definition ENOMEM :: int where "ENOMEM = 12"
definition EINVAL :: int where "EINVAL = 22"

lemmas errno_defs = ENOENT_def ENOMEM_def EINVAL_def

section \<open>Calling a callback until it answers non-zero\<close>

text \<open>
  Several kernel iterators hand their elements to a callback one by one and stop at the
  first non-zero answer, which they return.
\<close>

fun run_calls :: "('c \<Rightarrow> 's \<Rightarrow> (int \<times> 's) option) \<Rightarrow> 'c list \<Rightarrow> 's \<Rightarrow> (int \<times> 's) option" where
  "run_calls f [] s = Some (0, s)"
| "run_calls f (c # cs) s =
     do { (r, s') \<leftarrow> f c s; if r \<noteq> 0 then Some (r, s') else run_calls f cs s' }"

lemma run_calls_append:
  "run_calls f (xs @ ys) s =
     do { (r, s') \<leftarrow> run_calls f xs s; if r \<noteq> 0 then Some (r, s') else run_calls f ys s' }"
  by (induction xs arbitrary: s) (auto split: prod.splits Option.bind_splits)

lemma run_calls_invariant:
  assumes step: "\<And>c s r s'. c \<in> set cs \<Longrightarrow> P s \<Longrightarrow> f c s = Some (r, s') \<Longrightarrow> P s'"
    and "P s" and "run_calls f cs s = Some (r, s')"
  shows "P s'"
  using assms
proof (induction cs arbitrary: s)
  case Nil
  then show ?case by simp
next
  case (Cons c cs)
  from Cons.prems(3) obtain r1 s1 where c: "f c s = Some (r1, s1)"
    and rest: "(if r1 \<noteq> 0 then Some (r1, s1) else run_calls f cs s1) = Some (r, s')"
    by (auto split: Option.bind_splits)
  have s1: "P s1" using Cons.prems(1) [of c s r1 s1] Cons.prems(2) c by simp
  show ?case
  proof (cases "r1 = 0")
    case True
    with rest have "run_calls f cs s1 = Some (r, s')" by simp
    with Cons.IH [OF _ s1] Cons.prems(1) show ?thesis by auto
  next
    case False
    with rest s1 show ?thesis by simp
  qed
qed

section \<open>Lists\<close>

lemma find_None_set: "find P xs = None \<longleftrightarrow> (\<forall>x\<in>set xs. \<not> P x)"
  by (induction xs) auto

lemma find_SomeD: "find P xs = Some x \<Longrightarrow> P x \<and> x \<in> set xs"
  by (induction xs) (auto split: if_splits)

lemma find_unique:
  assumes "x \<in> set xs" and "P x" and "\<And>y. y \<in> set xs \<Longrightarrow> P y \<Longrightarrow> y = x"
  shows "find P xs = Some x"
proof (cases "find P xs")
  case None
  with assms(1,2) show ?thesis by (simp add: find_None_set)
next
  case (Some y)
  from find_SomeD [OF this] have "y = x" by (blast intro: assms(3))
  with Some show ?thesis by simp
qed

lemma set_remove1_distinct [simp]: "distinct xs \<Longrightarrow> x \<in> set (remove1 y xs) \<longleftrightarrow> x \<noteq> y \<and> x \<in> set xs"
  by auto

lemma remove1_hd [simp]: "remove1 x (x # xs) = xs"
  by simp

section \<open>Words\<close>

lemma word_or_mask_nonzero: "(a OR b) AND b = (b :: 'a::len word)"
  by (simp add: bit_eq_iff bit_and_iff bit_or_iff)

lemma page_base_aligned: "page_aligned (x AND PAGE_MASK)"
proof -
  have "(x AND NOT 4095) AND 4095 = 0"
    by (simp add: and.assoc)
  then show ?thesis by (simp add: page_aligned_def offset_in_page_def PAGE_MASK_def)
qed

lemma page_mask_of_aligned: "page_aligned x \<Longrightarrow> x AND PAGE_MASK = x"
proof -
  assume "page_aligned x"
  then have z: "x AND 4095 = 0" by (simp add: page_aligned_def offset_in_page_def)
  have "x = (x AND NOT 4095) OR (x AND 4095)"
    by (simp flip: bit.conj_disj_distrib)
  with z show ?thesis by (simp add: PAGE_MASK_def)
qed

lemma page_aligned_iff: "page_aligned x \<longleftrightarrow> 4096 dvd unat x"
proof -
  have "x AND 4095 = take_bit 12 x"
    by (simp add: take_bit_eq_mask mask_eq_exp_minus_1)
  then have "x AND 4095 = 0 \<longleftrightarrow> take_bit 12 (unat x) = 0"
    by (metis take_bit_of_0 unsigned_0 unsigned_take_bit_eq unat_0_iff)
  then show ?thesis
    by (simp add: page_aligned_def offset_in_page_def take_bit_eq_mod dvd_eq_mod_eq_0)
qed

lemma aligned_next_le:
  assumes "page_aligned a" and "page_aligned b" and "a < b"
  shows "a + 4096 \<le> b" and "a < a + 4096"
proof -
  from assms obtain i j where i: "unat a = 4096 * i" and j: "unat b = 4096 * j"
    by (auto simp: page_aligned_iff elim!: dvdE)
  have "i < j" using assms(3) i j by (simp add: word_less_nat_alt)
  then have le: "unat a + 4096 \<le> unat b" using i j by simp
  moreover have "unat b < 2 ^ 64" using unsigned_less [of b] by simp
  ultimately have "unat (a + 4096) = unat a + 4096"
    by (simp add: unat_word_ariths)
  with le show "a + 4096 \<le> b" and "a < a + 4096"
    by (simp_all add: word_le_nat_alt word_less_nat_alt)
qed

end
