(* ===== verification/Kernel.thy ===== *)
theory Kernel
  imports Prelude
begin

text \<open>
  The kernel as the module sees it. The data structures whose fields the module reads and
  writes (\<open>pte_t\<close>, \<open>struct vm_area_struct\<close>, \<open>struct mm_struct\<close>) are records; physical
  pages are frames. The kernel functions the module calls are not part of the
  repository: they are the fields of the record \<open>kernel\<close>, which every operation takes as
  an argument. What the module relies on is stated by the predicates at the end
  (\<open>wp_page_law\<close>, \<open>copy_to_user_law\<close>, and so on); theorems name the ones they need.
\<close>

section \<open>Page table entries and address spaces\<close>

record pte =
  pte_present :: bool
  pte_rw :: bool
  pte_pfn :: nat

definition pte_none :: "pte \<Rightarrow> bool" where
  "pte_none p \<longleftrightarrow> p = \<lparr>pte_present = False, pte_rw = False, pte_pfn = 0\<rparr>"

definition empty_pte :: pte where
  "empty_pte = \<lparr>pte_present = False, pte_rw = False, pte_pfn = 0\<rparr>"

definition pte_mkwrite :: "pte \<Rightarrow> pte" where
  "pte_mkwrite p = p\<lparr>pte_rw := True\<rparr>"

definition pte_wrprotect :: "pte \<Rightarrow> pte" where
  "pte_wrprotect p = p\<lparr>pte_rw := False\<rparr>"

lemma pte_none_empty [simp]: "pte_none empty_pte"
  by (simp add: pte_none_def empty_pte_def)

lemma pte_none_not_present [dest]: "pte_none p \<Longrightarrow> \<not> pte_present p"
  by (auto simp: pte_none_def)

lemma pte_wrprotect_simps [simp]:
  "pte_present (pte_wrprotect p) = pte_present p"
  "pte_rw (pte_wrprotect p) = False"
  "pte_pfn (pte_wrprotect p) = pte_pfn p"
  by (simp_all add: pte_wrprotect_def)

lemma pte_mkwrite_simps [simp]:
  "pte_present (pte_mkwrite p) = pte_present p"
  "pte_rw (pte_mkwrite p) = True"
  "pte_pfn (pte_mkwrite p) = pte_pfn p"
  by (simp_all add: pte_mkwrite_def)

text \<open>The upper levels of the page table: what the entry that covers an address holds.\<close>

datatype table_entry = Entry_none | Entry_bad | Entry_table

record vm_area =
  vma_id :: nat \<comment> \<open>identity of the \<open>vm_area_struct\<close> object\<close>
  vm_start :: u64
  vm_end :: u64
  vm_flags :: u64
  vma_is_anonymous :: bool

definition VM_READ :: u64 where "VM_READ = 1"
definition VM_WRITE :: u64 where "VM_WRITE = 2"
definition VM_EXEC :: u64 where "VM_EXEC = 4"
definition VM_SHARED :: u64 where "VM_SHARED = 8"
definition PROT_READ :: u64 where "PROT_READ = 1"
definition PROT_WRITE :: u64 where "PROT_WRITE = 2"
definition PROT_EXEC :: u64 where "PROT_EXEC = 4"
definition MAP_PRIVATE :: u64 where "MAP_PRIVATE = 2"
definition MAP_FIXED_NOREPLACE :: u64 where "MAP_FIXED_NOREPLACE = 1048576"

lemmas vm_flag_defs = VM_READ_def VM_WRITE_def VM_EXEC_def VM_SHARED_def
lemmas prot_defs = PROT_READ_def PROT_WRITE_def PROT_EXEC_def

type_synonym task = nat
type_synonym mm_id = nat

text \<open>
  Pointers to \<open>task_struct\<close> are numbers and 0 is NULL. \<open>mm_mmap\<close> is the list of areas
  from \<open>mm->mmap\<close> along \<open>vm_next\<close>. \<open>ptes\<close> holds the last level of the page table, one
  entry per page base address.
\<close>

record mm_struct =
  mm_mmap :: "vm_area list"
  mm_brk :: u64
  start_stack :: u64
  mm_owner :: task
  pgds :: "u64 \<Rightarrow> table_entry"
  p4ds :: "u64 \<Rightarrow> table_entry"
  puds :: "u64 \<Rightarrow> table_entry"
  pmds :: "u64 \<Rightarrow> table_entry"
  ptes :: "u64 \<Rightarrow> pte"

text \<open>
  \<open>frame_anon\<close> tells the frames of anonymous memory (\<open>PageAnon\<close>) from those of files and
  the shared zero page. \<open>frame_top\<close> bounds the physical frames in use: it is the state of
  the page allocator.
\<close>

record mem =
  mms :: "mm_id \<Rightarrow> mm_struct"
  frames :: "nat \<Rightarrow> page"
  frame_anon :: "nat \<Rightarrow> bool"
  frame_top :: nat

abbreviation pte_of :: "mem \<Rightarrow> mm_id \<Rightarrow> u64 \<Rightarrow> pte" where
  "pte_of M m a \<equiv> ptes (mms M m) a"

definition upd_mm :: "mm_id \<Rightarrow> (mm_struct \<Rightarrow> mm_struct) \<Rightarrow> mem \<Rightarrow> mem" where
  "upd_mm m f M = M\<lparr>mms := (mms M)(m := f (mms M m))\<rparr>"

definition set_pte :: "mm_id \<Rightarrow> u64 \<Rightarrow> pte \<Rightarrow> mem \<Rightarrow> mem" where
  "set_pte m a p = upd_mm m (\<lambda>mm. mm\<lparr>ptes := (ptes mm)(a := p)\<rparr>)"

definition ptep_set_wrprotect :: "mm_id \<Rightarrow> u64 \<Rightarrow> mem \<Rightarrow> mem" where
  "ptep_set_wrprotect m a M = set_pte m a (pte_wrprotect (pte_of M m a)) M"

definition content :: "mem \<Rightarrow> mm_id \<Rightarrow> u64 \<Rightarrow> page" where
  "content M m a = frames M (pte_pfn (pte_of M m a))"

definition anon_page :: "mem \<Rightarrow> mm_id \<Rightarrow> u64 \<Rightarrow> bool" where
  "anon_page M m a \<longleftrightarrow> frame_anon M (pte_pfn (pte_of M m a))"

section \<open>Page walks\<close>

datatype page_walk_action = ACTION_SUBTREE | ACTION_CONTINUE | ACTION_AGAIN

text \<open>
  One call the page walker makes into its \<open>mm_walk_ops\<close>, with the arguments \<open>addr\<close> and
  \<open>next\<close>. A \<open>pte_t *\<close> argument is the slot of the address.
\<close>

datatype walk_call =
    Pgd_entry (walk_addr: u64) (walk_next: u64)
  | P4d_entry (walk_addr: u64) (walk_next: u64)
  | Pud_entry (walk_addr: u64) (walk_next: u64)
  | Pmd_entry (walk_addr: u64) (walk_next: u64)
  | Pte_entry (walk_addr: u64) (walk_next: u64)

type_synonym walk_history = "(walk_call \<times> page_walk_action) list"

text \<open>
  A walk is driven by the kernel: from the calls made so far and the actions they asked for,
  the walker picks the next call, or ends the walk. It stops at the first callback that
  returns non-zero.
\<close>

partial_function (option) walk_loop ::
  "(walk_history \<Rightarrow> walk_call option) \<Rightarrow> (walk_call \<Rightarrow> 's \<Rightarrow> (int \<times> page_walk_action \<times> 's) option)
   \<Rightarrow> walk_history \<Rightarrow> 's \<Rightarrow> (int \<times> 's) option" where
  "walk_loop walker ops hist s =
     (case walker hist of
        None \<Rightarrow> Some (0, s)
      | Some c \<Rightarrow>
          do { (r, act, s') \<leftarrow> ops c s;
               if r \<noteq> 0 then Some (r, s')
               else walk_loop walker ops (hist @ [(c, act)]) s' })"

section \<open>The functions the module calls\<close>

text \<open>The argument of the ioctls on ranges, from \<open>include/afl_snapshot.h\<close>.\<close>

record afl_snapshot_vmrange_args =
  args_start :: u64
  args_end :: u64

record kernel =
  kmalloc_ok :: "nat \<Rightarrow> bool" \<comment> \<open>does the n-th allocation succeed?\<close>
  kmalloc_garbage :: "nat \<Rightarrow> u64" \<comment> \<open>what uninitialised fields of its object hold\<close>
  hash_min :: "u64 \<Rightarrow> nat" \<comment> \<open>bucket of a key, for 2 ^ 8 buckets\<close>
  nr_cpu_ids :: nat
  find_vma :: "mm_struct \<Rightarrow> u64 \<Rightarrow> vm_area option"
  do_munmap :: "mm_id \<Rightarrow> u64 \<Rightarrow> u64 \<Rightarrow> mem \<Rightarrow> int \<times> mem"
  vm_mmap_anon :: "mm_id \<Rightarrow> u64 \<Rightarrow> u64 \<Rightarrow> u64 \<Rightarrow> u64 \<Rightarrow> mem \<Rightarrow> u64 \<times> mem"
  vm_brk :: "mm_id \<Rightarrow> u64 \<Rightarrow> u64 \<Rightarrow> mem \<Rightarrow> int \<times> mem"
  copy_to_user :: "mm_id \<Rightarrow> u64 \<Rightarrow> page \<Rightarrow> mem \<Rightarrow> nat \<times> mem"
  copy_from_user :: "mm_id \<Rightarrow> u64 \<Rightarrow> mem \<Rightarrow> afl_snapshot_vmrange_args option"
  zap_page_range :: "mm_id \<Rightarrow> u64 \<Rightarrow> u64 \<Rightarrow> mem \<Rightarrow> mem"
  do_wp_page :: "mm_id \<Rightarrow> u64 \<Rightarrow> mem \<Rightarrow> mem"
  wp_copies :: "mm_id \<Rightarrow> u64 \<Rightarrow> mem \<Rightarrow> bool" \<comment> \<open>will \<open>do_wp_page\<close> copy the page?\<close>
  do_read_fault :: "mm_id \<Rightarrow> u64 \<Rightarrow> mem \<Rightarrow> mem"
  backing :: "mm_id \<Rightarrow> u64 \<Rightarrow> page" \<comment> \<open>what a page shows before its first write\<close>
  do_anonymous_page :: "mm_id \<Rightarrow> u64 \<Rightarrow> mem \<Rightarrow> mem"
  vma_walker :: "mem \<Rightarrow> mm_id \<Rightarrow> vm_area \<Rightarrow> walk_history \<Rightarrow> walk_call option"
  range_walk :: "mem \<Rightarrow> mm_id \<Rightarrow> u64 \<Rightarrow> u64 \<Rightarrow> int \<times> u64 list"

text \<open>
  \<open>vm_mmap_anon\<close> is \<open>vm_mmap\<close> with a NULL file and offset 0. \<open>do_munmap\<close> is
  \<open>vm_munmap\<close> without the module's own hook on \<open>__do_munmap\<close>. \<open>range_walk\<close> lists the
  slots for which \<open>walk_page_range\<close> calls \<open>pte_entry\<close>, and its return code when that
  callback always returns 0.
\<close>

text \<open>Every allocation takes the next number; the object's address is that number.\<close>

record alloc_state =
  alloc_next :: nat

definition kmalloc ::
  "'k kernel_scheme \<Rightarrow> 's alloc_state_scheme \<Rightarrow> nat option \<times> 's alloc_state_scheme" where
  "kmalloc K s =
     (if kmalloc_ok K (alloc_next s) then Some (alloc_next s) else None,
      s\<lparr>alloc_next := Suc (alloc_next s)\<rparr>)"

definition no_oom :: "'k kernel_scheme \<Rightarrow> bool" where
  "no_oom K \<longleftrightarrow> (\<forall>n. kmalloc_ok K n)"

lemma kmalloc_no_oom [simp]:
  "no_oom K \<Longrightarrow> kmalloc K s = (Some (alloc_next s), s\<lparr>alloc_next := Suc (alloc_next s)\<rparr>)"
  by (simp add: kmalloc_def no_oom_def)

section \<open>Documented behaviour of the memory functions\<close>

text \<open>A page is exclusive when no other page, in any address space, maps its frame.\<close>

definition exclusive :: "mem \<Rightarrow> mm_id \<Rightarrow> u64 \<Rightarrow> bool" where
  "exclusive M m a \<longleftrightarrow>
     (\<forall>m' b. pte_present (pte_of M m' b) \<longrightarrow> pte_pfn (pte_of M m' b) = pte_pfn (pte_of M m a)
        \<longrightarrow> m' = m \<and> b = a)"

text \<open>
  The kernel's own discipline for private mappings: entries sit at page boundaries, frames
  in use lie below \<open>frame_top\<close>, a writable page is anonymous and exclusive, and a present
  entry hangs off complete upper levels.
\<close>

definition mem_wf :: "mem \<Rightarrow> bool" where
  "mem_wf M \<longleftrightarrow>
     (\<forall>m a. pte_present (pte_of M m a) \<longrightarrow> page_aligned a) \<and>
     (\<forall>m a. pte_present (pte_of M m a) \<longrightarrow> pte_pfn (pte_of M m a) < frame_top M) \<and>
     (\<forall>m a. pte_present (pte_of M m a) \<longrightarrow> pte_rw (pte_of M m a) \<longrightarrow>
        exclusive M m a \<and> anon_page M m a) \<and>
     (\<forall>m a. pte_present (pte_of M m a) \<longrightarrow>
        pgds (mms M m) a = Entry_table \<and> p4ds (mms M m) a = Entry_table \<and>
        puds (mms M m) a = Entry_table \<and> pmds (mms M m) a = Entry_table)"

text \<open>\<open>only_page m a M M'\<close>: the step from \<open>M\<close> to \<open>M'\<close> changes no other page than \<open>a\<close> of
  \<open>m\<close>, and none of the areas.\<close>

definition only_page :: "mm_id \<Rightarrow> u64 \<Rightarrow> mem \<Rightarrow> mem \<Rightarrow> bool" where
  "only_page m a M M' \<longleftrightarrow>
     (\<forall>m' b. (m', b) \<noteq> (m, a) \<longrightarrow> pte_of M' m' b = pte_of M m' b) \<and>
     (\<forall>m' b. (m', b) \<noteq> (m, a) \<longrightarrow> pte_present (pte_of M m' b) \<longrightarrow>
        content M' m' b = content M m' b \<and> anon_page M' m' b = anon_page M m' b) \<and>
     (\<forall>m'. mm_mmap (mms M' m') = mm_mmap (mms M m') \<and> mm_brk (mms M' m') = mm_brk (mms M m') \<and>
        mm_owner (mms M' m') = mm_owner (mms M m') \<and>
        start_stack (mms M' m') = start_stack (mms M m'))"

definition zero_page :: page where
  "zero_page = replicate 4096 0"

text \<open>The original write-fault handler makes the page writable and keeps its bytes. It copies
  every page that is not anonymous.\<close>

definition wp_page_law :: "'k kernel_scheme \<Rightarrow> bool" where
  "wp_page_law K \<longleftrightarrow>
     (\<forall>m a M. mem_wf M \<longrightarrow> pte_present (pte_of M m a) \<longrightarrow>
        (let M' = do_wp_page K m a M in
           mem_wf M' \<and> only_page m a M M' \<and>
           pte_present (pte_of M' m a) \<and> pte_rw (pte_of M' m a) \<and>
           content M' m a = content M m a) \<and>
        (\<not> anon_page M m a \<longrightarrow> wp_copies K m a M))"

text \<open>A write to an anonymous page without entry gets a fresh zeroed page.\<close>

definition anon_page_law :: "'k kernel_scheme \<Rightarrow> bool" where
  "anon_page_law K \<longleftrightarrow>
     (\<forall>m a M. mem_wf M \<longrightarrow> page_aligned a \<longrightarrow> \<not> pte_present (pte_of M m a) \<longrightarrow>
        (let M' = do_anonymous_page K m a M in
           mem_wf M' \<and> only_page m a M M' \<and>
           pte_present (pte_of M' m a) \<and> pte_rw (pte_of M' m a) \<and>
           content M' m a = zero_page))"

text \<open>A read maps, read-only, a page that is not anonymous and shows what backs the mapping.\<close>

definition read_fault_law :: "'k kernel_scheme \<Rightarrow> bool" where
  "read_fault_law K \<longleftrightarrow>
     (\<forall>m a M. mem_wf M \<longrightarrow> page_aligned a \<longrightarrow> \<not> pte_present (pte_of M m a) \<longrightarrow>
        (let M' = do_read_fault K m a M in
           mem_wf M' \<and> only_page m a M M' \<and>
           pte_present (pte_of M' m a) \<and> \<not> pte_rw (pte_of M' m a) \<and>
           \<not> anon_page M' m a \<and> content M' m a = backing K m a))"

text \<open>\<open>copy_to_user\<close> of a whole page returns 0 when it has written all of it, through a
  writable mapping.\<close>

definition copy_to_user_law :: "'k kernel_scheme \<Rightarrow> bool" where
  "copy_to_user_law K \<longleftrightarrow>
     (\<forall>m a p M. mem_wf M \<longrightarrow> page_aligned a \<longrightarrow>
        (let (r, M') = copy_to_user K m a p M in
           mem_wf M' \<and> only_page m a M M' \<and>
           (r = 0 \<longrightarrow> pte_present (pte_of M' m a) \<and> pte_rw (pte_of M' m a) \<and>
              content M' m a = p)))"

text \<open>The copy succeeds wherever a writable area covers the page.\<close>

definition area_writable :: "mem \<Rightarrow> mm_id \<Rightarrow> u64 \<Rightarrow> bool" where
  "area_writable M m a \<longleftrightarrow>
     list_ex (\<lambda>v. vm_start v \<le> a \<and> a < vm_end v \<and> vm_flags v AND VM_WRITE \<noteq> 0) (mm_mmap (mms M m))"

definition copy_mapped_law :: "'k kernel_scheme \<Rightarrow> bool" where
  "copy_mapped_law K \<longleftrightarrow>
     (\<forall>m a p M. mem_wf M \<longrightarrow> area_writable M m a \<longrightarrow> fst (copy_to_user K m a p M) = 0)"

text \<open>\<open>zap_page_range\<close> over one page removes its entry.\<close>

definition zap_law :: "'k kernel_scheme \<Rightarrow> bool" where
  "zap_law K \<longleftrightarrow>
     (\<forall>m a M. mem_wf M \<longrightarrow> page_aligned a \<longrightarrow>
        (let M' = zap_page_range K m a PAGE_SIZE M in
           mem_wf M' \<and> only_page m a M M' \<and> pte_none (pte_of M' m a)))"

text \<open>
  A successful \<open>munmap\<close> leaves no entry inside the range and changes no page outside; a
  failed one changes no page at all, and a start that is not page-aligned is refused with
  \<open>EINVAL\<close>. The page walk over a range visits every entry in it.
\<close>

definition munmap_pages_law :: "'k kernel_scheme \<Rightarrow> bool" where
  "munmap_pages_law K \<longleftrightarrow>
     (\<forall>m st len M. mem_wf M \<longrightarrow>
        (let (r, M') = do_munmap K m st len M in
           mem_wf M' \<and> (\<forall>m'. mm_owner (mms M' m') = mm_owner (mms M m')) \<and>
           (\<forall>m' b. (m', b) \<notin> {m} \<times> {st ..< st + len} \<or> r \<noteq> 0 \<longrightarrow>
              pte_of M' m' b = pte_of M m' b \<and>
              (pte_present (pte_of M m' b) \<longrightarrow>
                 content M' m' b = content M m' b \<and> anon_page M' m' b = anon_page M m' b)) \<and>
           (r = 0 \<longrightarrow> (\<forall>b \<in> {st ..< st + len}. pte_none (pte_of M' m b)))))"

definition munmap_einval_law :: "'k kernel_scheme \<Rightarrow> bool" where
  "munmap_einval_law K \<longleftrightarrow>
     (\<forall>m st len M. \<not> page_aligned st \<longrightarrow> do_munmap K m st len M = (- EINVAL, M))"

definition range_walk_law :: "'k kernel_scheme \<Rightarrow> bool" where
  "range_walk_law K \<longleftrightarrow>
     (\<forall>M m st en b. mem_wf M \<longrightarrow> page_aligned st \<longrightarrow> pte_present (pte_of M m b) \<longrightarrow> b \<in> {st ..< en} \<longrightarrow>
        b \<in> set (snd (range_walk K M m st en)))"

lemmas kernel_laws =
  wp_page_law_def read_fault_law_def anon_page_law_def copy_to_user_law_def zap_law_def munmap_pages_law_def

section \<open>Lemmas\<close>

lemma upd_mm_simps [simp]:
  "mms (upd_mm m f M) m' = (if m' = m then f (mms M m) else mms M m')"
  "frames (upd_mm m f M) = frames M"
  "frame_anon (upd_mm m f M) = frame_anon M"
  "frame_top (upd_mm m f M) = frame_top M"
  by (simp_all add: upd_mm_def)

lemma set_pte_simps [simp]:
  "pte_of (set_pte m a p M) m' b = (if m' = m \<and> b = a then p else pte_of M m' b)"
  "frames (set_pte m a p M) = frames M"
  "frame_anon (set_pte m a p M) = frame_anon M"
  "frame_top (set_pte m a p M) = frame_top M"
  "mm_mmap (mms (set_pte m a p M) m') = mm_mmap (mms M m')"
  "mm_brk (mms (set_pte m a p M) m') = mm_brk (mms M m')"
  "mm_owner (mms (set_pte m a p M) m') = mm_owner (mms M m')"
  "start_stack (mms (set_pte m a p M) m') = start_stack (mms M m')"
  "pgds (mms (set_pte m a p M) m') = pgds (mms M m')"
  "p4ds (mms (set_pte m a p M) m') = p4ds (mms M m')"
  "puds (mms (set_pte m a p M) m') = puds (mms M m')"
  "pmds (mms (set_pte m a p M) m') = pmds (mms M m')"
  by (simp_all add: set_pte_def)

lemma exclusive_same_pfns:
  assumes "\<And>m' b. pte_present (pte_of M' m' b) = pte_present (pte_of M m' b)"
    and "\<And>m' b. pte_pfn (pte_of M' m' b) = pte_pfn (pte_of M m' b)"
  shows "exclusive M' m a = exclusive M m a"
  by (simp add: exclusive_def assms)

lemma exclusive_set_pte_flag:
  assumes "pte_present p = pte_present (pte_of M m a)" and "pte_pfn p = pte_pfn (pte_of M m a)"
  shows "exclusive (set_pte m a p M) m' b = exclusive M m' b"
  by (rule exclusive_same_pfns) (simp_all add: assms)

lemma content_set_pte_flag:
  "pte_pfn p = pte_pfn (pte_of M m a) \<Longrightarrow> content (set_pte m a p M) m' b = content M m' b"
  "pte_pfn p = pte_pfn (pte_of M m a) \<Longrightarrow> anon_page (set_pte m a p M) m' b = anon_page M m' b"
  by (simp_all add: content_def anon_page_def)

lemma mem_wf_aligned: "mem_wf M \<Longrightarrow> pte_present (pte_of M m a) \<Longrightarrow> page_aligned a"
  by (simp add: mem_wf_def)

lemma mem_wf_tables:
  "mem_wf M \<Longrightarrow> pte_present (pte_of M m a) \<Longrightarrow>
   pgds (mms M m) a = Entry_table \<and> p4ds (mms M m) a = Entry_table \<and>
   puds (mms M m) a = Entry_table \<and> pmds (mms M m) a = Entry_table"
  by (simp add: mem_wf_def)

lemma mem_wf_frame: "mem_wf M \<Longrightarrow> pte_present (pte_of M m a) \<Longrightarrow> pte_pfn (pte_of M m a) < frame_top M"
  by (simp add: mem_wf_def)

lemma mem_wf_exclusive:
  "mem_wf M \<Longrightarrow> pte_present (pte_of M m a) \<Longrightarrow> pte_rw (pte_of M m a) \<Longrightarrow> exclusive M m a"
  "mem_wf M \<Longrightarrow> pte_present (pte_of M m a) \<Longrightarrow> pte_rw (pte_of M m a) \<Longrightarrow> anon_page M m a"
  by (simp_all add: mem_wf_def)

lemma mem_wf_set_pte_flag:
  assumes "mem_wf M" and "pte_present p = pte_present (pte_of M m a)"
    and "pte_pfn p = pte_pfn (pte_of M m a)"
    and "pte_rw p \<Longrightarrow> pte_present p \<Longrightarrow> exclusive M m a \<and> anon_page M m a"
  shows "mem_wf (set_pte m a p M)"
  using assms by (auto simp: mem_wf_def exclusive_set_pte_flag content_set_pte_flag)

lemma wrprotect_simps [simp]:
  "pte_of (ptep_set_wrprotect m a M) m' b =
     (if m' = m \<and> b = a then pte_wrprotect (pte_of M m a) else pte_of M m' b)"
  "content (ptep_set_wrprotect m a M) m' b = content M m' b"
  "exclusive (ptep_set_wrprotect m a M) m' b = exclusive M m' b"
  "frames (ptep_set_wrprotect m a M) = frames M"
  "anon_page (ptep_set_wrprotect m a M) m' b = anon_page M m' b"
  "mm_mmap (mms (ptep_set_wrprotect m a M) m') = mm_mmap (mms M m')"
  "mm_brk (mms (ptep_set_wrprotect m a M) m') = mm_brk (mms M m')"
  "mm_owner (mms (ptep_set_wrprotect m a M) m') = mm_owner (mms M m')"
  by (simp_all add: ptep_set_wrprotect_def exclusive_set_pte_flag content_set_pte_flag)

lemma mem_wf_wrprotect [simp]: "mem_wf M \<Longrightarrow> mem_wf (ptep_set_wrprotect m a M)"
  unfolding ptep_set_wrprotect_def by (rule mem_wf_set_pte_flag) simp_all

lemma only_page_pte: "only_page m a M M' \<Longrightarrow> (m', b) \<noteq> (m, a) \<Longrightarrow> pte_of M' m' b = pte_of M m' b"
  by (auto simp: only_page_def)

lemma only_page_content:
  "only_page m a M M' \<Longrightarrow> (m', b) \<noteq> (m, a) \<Longrightarrow> pte_present (pte_of M m' b) \<Longrightarrow>
   content M' m' b = content M m' b"
  "only_page m a M M' \<Longrightarrow> (m', b) \<noteq> (m, a) \<Longrightarrow> pte_present (pte_of M m' b) \<Longrightarrow>
   anon_page M' m' b = anon_page M m' b"
  unfolding only_page_def by blast+

lemma only_page_areas:
  "only_page m a M M' \<Longrightarrow> mm_mmap (mms M' m') = mm_mmap (mms M m')"
  "only_page m a M M' \<Longrightarrow> mm_brk (mms M' m') = mm_brk (mms M m')"
  "only_page m a M M' \<Longrightarrow> mm_owner (mms M' m') = mm_owner (mms M m')"
  by (simp_all add: only_page_def)

lemma only_page_refl [simp]: "only_page m a M M"
  by (simp add: only_page_def)

lemma only_page_wrprotect: "only_page m a M (ptep_set_wrprotect m a M)"
  by (auto simp: only_page_def ptep_set_wrprotect_def content_set_pte_flag)

text \<open>An exclusive anonymous page stays exclusive when another page gets an exclusive frame, one
  that is not anonymous, or none.\<close>

lemma exclusive_only_page:
  assumes "only_page m a M M'" and "exclusive M m' b" and "(m', b) \<noteq> (m, a)"
    and "pte_present (pte_of M' m a) \<Longrightarrow> exclusive M' m a \<or> \<not> anon_page M' m a"
    and "pte_present (pte_of M m' b)" and "anon_page M m' b"
  shows "exclusive M' m' b"
  unfolding exclusive_def
proof (intro allI impI)
  fix n c
  assume p: "pte_present (pte_of M' n c)"
    and q: "pte_pfn (pte_of M' n c) = pte_pfn (pte_of M' m' b)"
  have b: "pte_of M' m' b = pte_of M m' b"
    using assms(1,3) by (rule only_page_pte)
  show "n = m' \<and> c = b"
  proof (cases "(n, c) = (m, a)")
    case True
    have same: "pte_pfn (pte_of M' m' b) = pte_pfn (pte_of M' m a)"
      using True q by simp
    have "anon_page M' m' b"
      using only_page_content(2) [OF assms(1,3,5)] assms(6) by simp
    with same have "anon_page M' m a" by (simp add: anon_page_def)
    with True p have "exclusive M' m a" by (auto dest: assms(4))
    moreover have "pte_present (pte_of M' m' b)" using b assms(5) by simp
    moreover note same
    ultimately have "m' = m \<and> b = a" unfolding exclusive_def by blast
    with assms(3) show ?thesis by simp
  next
    case False
    then have "pte_of M' n c = pte_of M n c"
      using assms(1) by (intro only_page_pte)
    with p q b assms(2) show ?thesis by (simp add: exclusive_def)
  qed
qed

lemma munmap_pages_lawD:
  assumes "munmap_pages_law K" and "mem_wf M" and "do_munmap K m st len M = (r, M')"
  shows "mem_wf M'" and "mm_owner (mms M' m') = mm_owner (mms M m')"
    and "(m', b) \<notin> {m} \<times> {st ..< st + len} \<or> r \<noteq> 0 \<Longrightarrow> pte_of M' m' b = pte_of M m' b"
    and "(m', b) \<notin> {m} \<times> {st ..< st + len} \<or> r \<noteq> 0 \<Longrightarrow> pte_present (pte_of M m' b) \<Longrightarrow>
           content M' m' b = content M m' b \<and> anon_page M' m' b = anon_page M m' b"
    and "r = 0 \<Longrightarrow> b \<in> {st ..< st + len} \<Longrightarrow> pte_none (pte_of M' m b)"
  using assms(1) [unfolded munmap_pages_law_def, rule_format, OF assms(2), of m st len]
  unfolding assms(3) Let_def prod.case by blast+

text \<open>One step of a walk, for rewriting a walk call by call.\<close>

lemma walk_loop_end: "walker hist = None \<Longrightarrow> walk_loop walker ops hist s = Some (0, s)"
  by (simp add: walk_loop.simps)

lemma walk_loop_step:
  "walker hist = Some c \<Longrightarrow> walk_loop walker ops hist s =
     do { (r, act, s') \<leftarrow> ops c s;
          if r \<noteq> 0 then Some (r, s') else walk_loop walker ops (hist @ [(c, act)]) s' }"
  by (subst walk_loop.simps) simp

end
