(* ===== verification/Kernel_List.thy ===== *)
theory Kernel_List
  imports Prelude
begin

text \<open>
  The intrusive, circular, doubly linked lists of the kernel (\<open>struct list_head\<close> and the
  inline functions of \<open>linux/list.h\<close>) at pointer level, and their abstraction to HOL
  lists. Most lists of the module are used the way \<open>list.h\<close> documents, and the later
  theories represent them by HOL lists; the lemmas \<open>dlist_list_add\<close>,
  \<open>dlist_list_add_tail\<close> and \<open>dlist_list_del\<close> say why that is right. The lists of
  \<open>struct vmrange\<close> are not used that way (the two arguments of \<open>list_add\<close> are
  exchanged), so they keep their pointers in the model.
\<close>

section \<open>Pointers and the inline functions of list.h\<close>

record 'n list_heap =
  next_of :: "'n \<Rightarrow> 'n"
  prev_of :: "'n \<Rightarrow> 'n"

definition INIT_LIST_HEAD :: "'n \<Rightarrow> 'n list_heap \<Rightarrow> 'n list_heap" where
  "INIT_LIST_HEAD l h = h\<lparr>next_of := (next_of h)(l := l), prev_of := (prev_of h)(l := l)\<rparr>"

text \<open>\<open>__list_add(new, prev, next)\<close>: the four writes in the order of \<open>list.h\<close>.\<close>

definition list_link :: "'n \<Rightarrow> 'n \<Rightarrow> 'n \<Rightarrow> 'n list_heap \<Rightarrow> 'n list_heap" where
  "list_link new prev nxt h =
    (let h1 = h\<lparr>prev_of := (prev_of h)(nxt := new)\<rparr>;
         h2 = h1\<lparr>next_of := (next_of h1)(new := nxt)\<rparr>;
         h3 = h2\<lparr>prev_of := (prev_of h2)(new := prev)\<rparr>
     in h3\<lparr>next_of := (next_of h3)(prev := new)\<rparr>)"

definition list_add :: "'n \<Rightarrow> 'n \<Rightarrow> 'n list_heap \<Rightarrow> 'n list_heap" where
  "list_add new head h = list_link new head (next_of h head) h"

definition list_add_tail :: "'n \<Rightarrow> 'n \<Rightarrow> 'n list_heap \<Rightarrow> 'n list_heap" where
  "list_add_tail new head h = list_link new (prev_of h head) head h"

text \<open>\<open>list_del\<close>, with the two poison pointers it leaves in the removed entry.\<close>

definition list_del :: "'n \<Rightarrow> 'n \<Rightarrow> 'n \<Rightarrow> 'n list_heap \<Rightarrow> 'n list_heap" where
  "list_del poison1 poison2 entry h =
    (let p = prev_of h entry; n = next_of h entry;
         h1 = h\<lparr>prev_of := (prev_of h)(n := p)\<rparr>;
         h2 = h1\<lparr>next_of := (next_of h1)(p := n)\<rparr>
     in h2\<lparr>next_of := (next_of h2)(entry := poison1), prev_of := (prev_of h2)(entry := poison2)\<rparr>)"

text \<open>
  \<open>list_for_each_entry\<close> with an early return at the first entry that satisfies a test,
  and the plain traversal. The test reads the object around the entry and is \<^term>\<open>None\<close> when
  that has been freed. A corrupt list may have no end; then the result is \<^term>\<open>None\<close>, too.
\<close>

partial_function (option) list_find_from ::
  "'n list_heap \<Rightarrow> 'n \<Rightarrow> ('n \<Rightarrow> bool option) \<Rightarrow> 'n \<Rightarrow> 'n option option" where
  "list_find_from h head P pos =
     (if pos = head then Some None
      else do { hit \<leftarrow> P pos;
                if hit then Some (Some pos) else list_find_from h head P (next_of h pos) })"

definition list_find :: "'n list_heap \<Rightarrow> 'n \<Rightarrow> ('n \<Rightarrow> bool option) \<Rightarrow> 'n option option" where
  "list_find h head P = list_find_from h head P (next_of h head)"

partial_function (option) list_entries_from ::
  "'n list_heap \<Rightarrow> 'n \<Rightarrow> 'n \<Rightarrow> 'n list option" where
  "list_entries_from h head pos =
     (if pos = head then Some []
      else do { xs \<leftarrow> list_entries_from h head (next_of h pos); Some (pos # xs) })"

definition list_entries :: "'n list_heap \<Rightarrow> 'n \<Rightarrow> 'n list option" where
  "list_entries h head = list_entries_from h head (next_of h head)"

section \<open>Abstraction\<close>

text \<open>\<open>chain h a xs b\<close>: following \<open>next\<close> from \<open>a\<close> visits \<open>xs\<close> and then reaches \<open>b\<close>,
  and every \<open>prev\<close> points back.\<close>

fun chain :: "'n list_heap \<Rightarrow> 'n \<Rightarrow> 'n list \<Rightarrow> 'n \<Rightarrow> bool" where
  "chain h a [] b \<longleftrightarrow> next_of h a = b \<and> prev_of h b = a"
| "chain h a (x # xs) b \<longleftrightarrow> next_of h a = x \<and> prev_of h x = a \<and> chain h x xs b"

definition dlist :: "'n list_heap \<Rightarrow> 'n \<Rightarrow> 'n list \<Rightarrow> bool" where
  "dlist h head xs \<longleftrightarrow> chain h head xs head \<and> distinct (head # xs)"

lemma chain_append:
  "chain h a (xs @ y # ys) b \<longleftrightarrow> chain h a xs y \<and> chain h y ys b"
  by (induction xs arbitrary: a) auto

lemma chain_snoc: "chain h a (xs @ [y]) b \<longleftrightarrow> chain h a xs y \<and> next_of h y = b \<and> prev_of h b = y"
  by (simp add: chain_append)

lemma chain_next_frame:
  "z \<notin> set (a # xs) \<Longrightarrow> chain (h\<lparr>next_of := (next_of h)(z := v)\<rparr>) a xs b = chain h a xs b"
  by (induction xs arbitrary: a) auto

lemma chain_prev_frame:
  "z \<notin> set (xs @ [b]) \<Longrightarrow> chain (h\<lparr>prev_of := (prev_of h)(z := v)\<rparr>) a xs b = chain h a xs b"
  by (induction xs arbitrary: a) auto

lemma chain_cong:
  "(\<And>z. z \<in> set (a # xs) \<Longrightarrow> next_of h' z = next_of h z) \<Longrightarrow>
   (\<And>z. z \<in> set (xs @ [b]) \<Longrightarrow> prev_of h' z = prev_of h z) \<Longrightarrow>
   chain h' a xs b = chain h a xs b"
  by (induction xs arbitrary: a) auto

lemma dlist_init [heap_simps]: "dlist (INIT_LIST_HEAD l h) l []"
  by (simp add: dlist_def INIT_LIST_HEAD_def)

lemma dlist_init_frame:
  "dlist h head xs \<Longrightarrow> l \<notin> set (head # xs) \<Longrightarrow> dlist (INIT_LIST_HEAD l h) head xs"
proof -
  assume d: "dlist h head xs" and l: "l \<notin> set (head # xs)"
  have "chain (INIT_LIST_HEAD l h) head xs head = chain h head xs head"
    using l by (intro chain_cong) (auto simp: INIT_LIST_HEAD_def)
  with d show ?thesis by (simp add: dlist_def)
qed

lemma list_entries_from_chain:
  "chain h a xs head \<Longrightarrow> head \<notin> set xs \<Longrightarrow> list_entries_from h head (next_of h a) = Some xs"
proof (induction xs arbitrary: a)
  case Nil
  then show ?case by (simp add: list_entries_from.simps)
next
  case (Cons x xs)
  from Cons.prems have "list_entries_from h head (next_of h x) = Some xs"
    by (intro Cons.IH) auto
  with Cons.prems show ?case by (subst list_entries_from.simps) auto
qed

lemma list_entries_dlist [heap_simps]: "dlist h head xs \<Longrightarrow> list_entries h head = Some xs"
  by (simp add: list_entries_def dlist_def list_entries_from_chain)

lemma list_find_from_chain:
  "chain h a xs head \<Longrightarrow> head \<notin> set xs \<Longrightarrow> (\<And>x. x \<in> set xs \<Longrightarrow> P x = Some (Q x)) \<Longrightarrow>
   list_find_from h head P (next_of h a) = Some (find Q xs)"
proof (induction xs arbitrary: a)
  case Nil
  then show ?case by (simp add: list_find_from.simps)
next
  case (Cons x xs)
  show ?case
  proof (cases "Q x")
    case True
    with Cons.prems show ?thesis by (subst list_find_from.simps) auto
  next
    case False
    from Cons.prems have "list_find_from h head P (next_of h x) = Some (find Q xs)"
      by (intro Cons.IH) auto
    with Cons.prems False show ?thesis by (subst list_find_from.simps) auto
  qed
qed

lemma list_find_dlist [heap_simps]:
  "dlist h head xs \<Longrightarrow> (\<And>x. x \<in> set xs \<Longrightarrow> P x = Some (Q x)) \<Longrightarrow> list_find h head P = Some (find Q xs)"
  by (simp add: list_find_def dlist_def list_find_from_chain)

section \<open>The documented use of the functions\<close>

text \<open>Inserting a fresh node after the head puts it first; before the head, last.\<close>

lemma list_link_chain:
  assumes "chain h a xs p" and "chain h p [] n" and "chain h n ys b"
    and "distinct (a # xs @ p # n # ys @ [b])" and "new \<notin> set (a # xs @ p # n # ys @ [b])"
  shows "chain (list_link new p n h) a (xs @ p # new # n # ys) b"
proof -
  let ?h = "list_link new p n h"
  have "chain ?h a xs p = chain h a xs p"
    using assms(4,5) by (intro chain_cong) (auto simp: list_link_def Let_def)
  moreover have "chain ?h n ys b = chain h n ys b"
    using assms(4,5) by (intro chain_cong) (auto simp: list_link_def Let_def)
  moreover have "chain ?h p [new] n"
    using assms(4,5) by (auto simp: list_link_def Let_def)
  ultimately show ?thesis
    using assms(1,3) by (simp add: chain_append)
qed

lemma dlist_list_add:
  assumes "dlist h head xs" and "new \<notin> set (head # xs)"
  shows "dlist (list_add new head h) head (new # xs)"
proof (cases xs)
  case Nil
  with assms show ?thesis
    by (auto simp: dlist_def list_add_def list_link_def Let_def)
next
  case (Cons x ys)
  let ?h = "list_add new head h"
  have "chain ?h x ys head = chain h x ys head"
    using assms Cons by (intro chain_cong) (auto simp: list_add_def list_link_def Let_def dlist_def)
  with assms Cons show ?thesis
    by (auto simp: dlist_def list_add_def list_link_def Let_def)
qed

lemma dlist_list_add_tail:
  assumes "dlist h head xs" and "new \<notin> set (head # xs)"
  shows "dlist (list_add_tail new head h) head (xs @ [new])"
proof (cases xs rule: rev_cases)
  case Nil
  with assms show ?thesis
    by (auto simp: dlist_def list_add_tail_def list_link_def Let_def)
next
  case (snoc ys y)
  let ?h = "list_add_tail new head h"
  have p: "prev_of h head = y"
    using assms(1) snoc by (simp add: dlist_def chain_snoc)
  have "chain ?h head ys y = chain h head ys y"
    using assms snoc p
    by (intro chain_cong) (auto simp: list_add_tail_def list_link_def Let_def dlist_def)
  with assms snoc p show ?thesis
    by (auto simp: dlist_def chain_append list_add_tail_def list_link_def Let_def)
qed

lemma dlist_list_del:
  assumes "dlist h head (xs @ y # ys)"
  shows "dlist (list_del q1 q2 y h) head (xs @ ys)"
proof -
  let ?h = "list_del q1 q2 y h"
  have c: "chain h head xs y" "chain h y ys head"
    and d: "distinct (head # xs @ y # ys)"
    using assms by (auto simp: dlist_def chain_append)
  define p where "p = last (head # xs)"
  define n where "n = hd (ys @ [head])"
  have p: "prev_of h y = p"
    using c(1) by (cases xs rule: rev_cases) (auto simp: p_def chain_snoc)
  have n: "next_of h y = n"
    using c(2) by (cases ys) (auto simp: n_def)
  have pxs: "p \<in> set (head # xs)"
    unfolding p_def by (rule last_in_set) simp
  have nys: "n \<in> set (ys @ [head])"
    unfolding n_def by (rule hd_in_set) simp
  have left: "chain ?h head xs n"
  proof (cases xs rule: rev_cases)
    case Nil
    then show ?thesis using d p n nys by (auto simp: p_def list_del_def Let_def)
  next
    case (snoc zs z)
    have "chain ?h head zs z = chain h head zs z"
      using d snoc p n nys by (intro chain_cong) (auto simp: p_def list_del_def Let_def)
    then show ?thesis
      using c(1) d snoc p n nys by (auto simp: p_def chain_snoc list_del_def Let_def)
  qed
  show ?thesis
  proof (cases ys)
    case Nil
    with left d show ?thesis by (simp add: n_def dlist_def)
  next
    case (Cons z zs)
    have "chain ?h z zs head = chain h z zs head"
      using d Cons p n pxs by (intro chain_cong) (auto simp: n_def list_del_def Let_def)
    with left c(2) d Cons show ?thesis by (simp add: n_def dlist_def chain_append)
  qed
qed

section \<open>The exchanged arguments\<close>

text \<open>
  \<open>list_add(head, new)\<close> for a freshly initialised \<open>new\<close> links the list head behind the
  new node: afterwards the list consists of the new node alone, whatever it held before.
\<close>

lemma dlist_list_add_exchanged:
  assumes "new \<noteq> head"
  shows "dlist (list_add head new (INIT_LIST_HEAD new h)) head [new]"
  using assms by (auto simp: dlist_def list_add_def list_link_def INIT_LIST_HEAD_def Let_def)

lemma list_add_exchanged_frame:
  assumes "dlist h head' xs" and "new \<notin> set (head' # xs)" and "head \<notin> set (head' # xs)"
  shows "dlist (list_add head new (INIT_LIST_HEAD new h)) head' xs"
proof -
  have "chain (list_add head new (INIT_LIST_HEAD new h)) head' xs head' = chain h head' xs head'"
    using assms(2,3)
    by (intro chain_cong) (auto simp: list_add_def list_link_def INIT_LIST_HEAD_def Let_def)
  with assms(1) show ?thesis by (simp add: dlist_def)
qed

end
