(* ===== verification/Snapshot_Types.thy ===== *)
theory Snapshot_Types
  imports Kernel Kernel_List
begin

text \<open>
  The data of \<open>src/snapshot.h\<close> and \<open>src/task_data.h\<close>: snapshotted areas, snapshotted
  pages, the snapshot itself and the per-task record, with the inline functions that read
  and set their flag words.

  Correspondence. A \<open>struct snapshot_page *\<close> is represented by the page's base address,
  which is its key in the hash table. \<open>dirty_pages\<close>, \<open>all_vmas\<close> and
  \<open>snapshotted_vmas\<close> are HOL lists of what the intrusive lists link. \<open>page_data\<close> is
  \<^term>\<open>None\<close> for NULL and holds the bytes of the buffer otherwise. The hash table is its
  array of buckets.
\<close>

section \<open>Snapshotted areas and pages\<close>

record snapshot_vma =
  sv_id :: nat \<comment> \<open>address of the object\<close>
  sv_start :: u64
  sv_end :: u64
  is_anonymous_private :: bool
  sv_prot :: u64

record snapshot_page =
  page_base :: u64
  page_prot :: u64
  page_data :: "page option"
  has_been_copied :: bool
  has_had_pte :: bool
  dirty :: bool
  in_dirty_list :: bool

definition SNAPSHOT_PRIVATE :: u64 where "SNAPSHOT_PRIVATE = 1"
definition SNAPSHOT_COW :: u64 where "SNAPSHOT_COW = 2"
definition SNAPSHOT_NONE_PTE :: u64 where "SNAPSHOT_NONE_PTE = 16"

definition is_snapshot_page_none_pte :: "snapshot_page \<Rightarrow> bool" where
  "is_snapshot_page_none_pte sp \<longleftrightarrow> page_prot sp AND SNAPSHOT_NONE_PTE \<noteq> 0"

definition is_snapshot_page_cow :: "snapshot_page \<Rightarrow> bool" where
  "is_snapshot_page_cow sp \<longleftrightarrow> page_prot sp AND SNAPSHOT_COW \<noteq> 0"

definition is_snapshot_page_private :: "snapshot_page \<Rightarrow> bool" where
  "is_snapshot_page_private sp \<longleftrightarrow> page_prot sp AND SNAPSHOT_PRIVATE \<noteq> 0"

definition set_snapshot_page_none_pte :: "snapshot_page \<Rightarrow> snapshot_page" where
  "set_snapshot_page_none_pte sp = sp\<lparr>page_prot := page_prot sp OR SNAPSHOT_NONE_PTE\<rparr>"

definition set_snapshot_page_private :: "snapshot_page \<Rightarrow> snapshot_page" where
  "set_snapshot_page_private sp = sp\<lparr>page_prot := page_prot sp OR SNAPSHOT_PRIVATE\<rparr>"

definition set_snapshot_page_cow :: "snapshot_page \<Rightarrow> snapshot_page" where
  "set_snapshot_page_cow sp = sp\<lparr>page_prot := page_prot sp OR SNAPSHOT_COW\<rparr>"

lemmas page_flag_defs =
  SNAPSHOT_PRIVATE_def SNAPSHOT_COW_def SNAPSHOT_NONE_PTE_def
  is_snapshot_page_none_pte_def is_snapshot_page_cow_def is_snapshot_page_private_def
  set_snapshot_page_none_pte_def set_snapshot_page_private_def set_snapshot_page_cow_def

section \<open>The snapshot and the task data\<close>

record open_files_snapshot =
  sf_files :: "nat option"
  sf_offsets :: "int list option"

record pt_regs =
  ip :: u64
  gprs :: "u64 list"

definition SNAPSHOT_HASHTABLE_SZ :: nat where "SNAPSHOT_HASHTABLE_SZ = 8"

record snapshot =
  status :: u32
  oldbrk :: u64
  all_vmas :: "snapshot_vma list"
  snapshotted_vmas :: "snapshot_vma list"
  ss_regs :: pt_regs
  ss_files :: open_files_snapshot
  ss_pages :: "nat \<Rightarrow> snapshot_page list"
  dirty_pages :: "u64 list"

definition SNAPSHOT_NONE :: u32 where "SNAPSHOT_NONE = 0"
definition SNAPSHOT_MADE :: u32 where "SNAPSHOT_MADE = 1"
definition SNAPSHOT_HAD :: u32 where "SNAPSHOT_HAD = 2"

text \<open>The configuration bits of \<open>include/afl_snapshot.h\<close>.\<close>

definition AFL_SNAPSHOT_MMAP :: u32 where "AFL_SNAPSHOT_MMAP = 1"
definition AFL_SNAPSHOT_BLOCK :: u32 where "AFL_SNAPSHOT_BLOCK = 2"
definition AFL_SNAPSHOT_FDS :: u32 where "AFL_SNAPSHOT_FDS = 4"
definition AFL_SNAPSHOT_REGS :: u32 where "AFL_SNAPSHOT_REGS = 8"
definition AFL_SNAPSHOT_EXIT :: u32 where "AFL_SNAPSHOT_EXIT = 16"
definition AFL_SNAPSHOT_NOCOW :: u32 where "AFL_SNAPSHOT_NOCOW = 32"
definition AFL_SNAPSHOT_NOSTACK :: u32 where "AFL_SNAPSHOT_NOSTACK = 64"

lemmas config_defs =
  AFL_SNAPSHOT_MMAP_def AFL_SNAPSHOT_BLOCK_def AFL_SNAPSHOT_FDS_def AFL_SNAPSHOT_REGS_def
  AFL_SNAPSHOT_EXIT_def AFL_SNAPSHOT_NOCOW_def AFL_SNAPSHOT_NOSTACK_def

definition config_has :: "u32 \<Rightarrow> u32 \<Rightarrow> bool" where
  "config_has c flag \<longleftrightarrow> c AND flag \<noteq> 0"

record vmrange =
  vr_start :: u64
  vr_end :: u64

text \<open>
  The list heads \<open>allowlist\<close> and \<open>blocklist\<close> are embedded in the task data, so they are
  not fields here: the head of task data \<open>d\<close> is the node \<open>Allowlist d\<close> or
  \<open>Blocklist d\<close>.
\<close>

datatype lnode = Allowlist nat | Blocklist nat | Vmrange_node nat | Poison1 | Poison2

record task_data =
  tsk :: task
  ss :: snapshot
  config :: u32

definition upd_ss :: "(snapshot \<Rightarrow> snapshot) \<Rightarrow> task_data \<Rightarrow> task_data" where
  "upd_ss f data = data\<lparr>ss := f (ss data)\<rparr>"

definition clear_snapshot :: "task_data \<Rightarrow> task_data" where
  "clear_snapshot = upd_ss (\<lambda>s. s\<lparr>status := status s AND NOT SNAPSHOT_MADE\<rparr>)"

definition set_had_snapshot :: "task_data \<Rightarrow> task_data" where
  "set_had_snapshot = upd_ss (\<lambda>s. s\<lparr>status := status s OR SNAPSHOT_HAD\<rparr>)"

definition set_snapshot :: "task_data \<Rightarrow> task_data" where
  "set_snapshot = upd_ss (\<lambda>s. s\<lparr>status := status s OR SNAPSHOT_MADE\<rparr>)"

definition have_snapshot :: "task_data \<Rightarrow> bool" where
  "have_snapshot data \<longleftrightarrow> status (ss data) AND SNAPSHOT_MADE \<noteq> 0"

definition had_snapshot :: "task_data \<Rightarrow> bool" where
  "had_snapshot data \<longleftrightarrow> status (ss data) AND SNAPSHOT_HAD \<noteq> 0"

lemmas status_defs =
  SNAPSHOT_NONE_def SNAPSHOT_MADE_def SNAPSHOT_HAD_def clear_snapshot_def set_had_snapshot_def
  set_snapshot_def have_snapshot_def had_snapshot_def upd_ss_def

section \<open>The task data as \<open>kzalloc\<close> and the initialisers leave it\<close>

definition zero_snapshot :: snapshot where
  "zero_snapshot =
     \<lparr>status = 0, oldbrk = 0, all_vmas = [], snapshotted_vmas = [],
      ss_regs = \<lparr>ip = 0, gprs = []\<rparr>, ss_files = \<lparr>sf_files = None, sf_offsets = None\<rparr>,
      ss_pages = (\<lambda>_. []), dirty_pages = []\<rparr>"

definition new_task_data :: "task \<Rightarrow> task_data" where
  "new_task_data t = \<lparr>tsk = t, ss = zero_snapshot, config = 0\<rparr>"

section \<open>Flag lemmas\<close>

lemma word_flag_or: "(x OR a) AND b \<noteq> 0 \<longleftrightarrow> x AND b \<noteq> 0 \<or> a AND b \<noteq> (0 :: 'a::len word)"
  by (simp add: bit.conj_disj_distrib2 or_eq_0_iff)

lemma page_flags [flag_simps, simp]:
  "is_snapshot_page_none_pte (set_snapshot_page_none_pte sp)"
  "is_snapshot_page_private (set_snapshot_page_none_pte sp) = is_snapshot_page_private sp"
  "is_snapshot_page_cow (set_snapshot_page_none_pte sp) = is_snapshot_page_cow sp"
  "is_snapshot_page_private (set_snapshot_page_private sp)"
  "is_snapshot_page_none_pte (set_snapshot_page_private sp) = is_snapshot_page_none_pte sp"
  "is_snapshot_page_cow (set_snapshot_page_private sp) = is_snapshot_page_cow sp"
  "is_snapshot_page_cow (set_snapshot_page_cow sp)"
  "is_snapshot_page_none_pte (set_snapshot_page_cow sp) = is_snapshot_page_none_pte sp"
  "is_snapshot_page_private (set_snapshot_page_cow sp) = is_snapshot_page_private sp"
  by (simp_all add: page_flag_defs word_flag_or)

lemma page_flag_fields [flag_simps, simp]:
  "page_base (set_snapshot_page_none_pte sp) = page_base sp"
  "page_data (set_snapshot_page_none_pte sp) = page_data sp"
  "has_been_copied (set_snapshot_page_none_pte sp) = has_been_copied sp"
  "has_had_pte (set_snapshot_page_none_pte sp) = has_had_pte sp"
  "dirty (set_snapshot_page_none_pte sp) = dirty sp"
  "in_dirty_list (set_snapshot_page_none_pte sp) = in_dirty_list sp"
  "page_base (set_snapshot_page_private sp) = page_base sp"
  "page_data (set_snapshot_page_private sp) = page_data sp"
  "has_been_copied (set_snapshot_page_private sp) = has_been_copied sp"
  "has_had_pte (set_snapshot_page_private sp) = has_had_pte sp"
  "dirty (set_snapshot_page_private sp) = dirty sp"
  "in_dirty_list (set_snapshot_page_private sp) = in_dirty_list sp"
  "page_base (set_snapshot_page_cow sp) = page_base sp"
  "page_data (set_snapshot_page_cow sp) = page_data sp"
  "has_been_copied (set_snapshot_page_cow sp) = has_been_copied sp"
  "has_had_pte (set_snapshot_page_cow sp) = has_had_pte sp"
  "dirty (set_snapshot_page_cow sp) = dirty sp"
  "in_dirty_list (set_snapshot_page_cow sp) = in_dirty_list sp"
  by (simp_all add: page_flag_defs)

lemma page_flags_upd [flag_simps, simp]:
  "is_snapshot_page_none_pte (sp\<lparr>has_had_pte := b\<rparr>) = is_snapshot_page_none_pte sp"
  "is_snapshot_page_none_pte (sp\<lparr>dirty := b\<rparr>) = is_snapshot_page_none_pte sp"
  "is_snapshot_page_none_pte (sp\<lparr>in_dirty_list := b\<rparr>) = is_snapshot_page_none_pte sp"
  "is_snapshot_page_none_pte (sp\<lparr>has_been_copied := b\<rparr>) = is_snapshot_page_none_pte sp"
  "is_snapshot_page_none_pte (sp\<lparr>page_data := d\<rparr>) = is_snapshot_page_none_pte sp"
  "is_snapshot_page_private (sp\<lparr>has_had_pte := b\<rparr>) = is_snapshot_page_private sp"
  "is_snapshot_page_private (sp\<lparr>dirty := b\<rparr>) = is_snapshot_page_private sp"
  "is_snapshot_page_private (sp\<lparr>in_dirty_list := b\<rparr>) = is_snapshot_page_private sp"
  "is_snapshot_page_private (sp\<lparr>has_been_copied := b\<rparr>) = is_snapshot_page_private sp"
  "is_snapshot_page_private (sp\<lparr>page_data := d\<rparr>) = is_snapshot_page_private sp"
  by (simp_all add: page_flag_defs)

lemma status_flags [flag_simps, simp]:
  "have_snapshot (set_snapshot data)"
  "had_snapshot (set_had_snapshot data)"
  "had_snapshot (set_snapshot data) = had_snapshot data"
  "have_snapshot (set_had_snapshot data) = have_snapshot data"
  "\<not> have_snapshot (clear_snapshot data)"
  "had_snapshot (clear_snapshot data) = had_snapshot data"
proof -
  have "(2::u32) AND NOT 1 = 2" by simp
  then show "had_snapshot (clear_snapshot data) = had_snapshot data"
    by (simp add: status_defs and.assoc and.commute [of "NOT 1"])
qed (simp_all add: status_defs word_flag_or and.assoc)

lemma new_task_data_flags [flag_simps, simp]:
  "\<not> have_snapshot (new_task_data t)" "\<not> had_snapshot (new_task_data t)"
  "tsk (new_task_data t) = t" "config (new_task_data t) = 0"
  by (simp_all add: new_task_data_def zero_snapshot_def status_defs)

lemma upd_ss_simps [simp]:
  "tsk (upd_ss f data) = tsk data" "config (upd_ss f data) = config data"
  "ss (upd_ss f data) = f (ss data)"
  by (simp_all add: upd_ss_def)

lemma status_flag_fields [simp]:
  "tsk (set_snapshot data) = tsk data" "tsk (set_had_snapshot data) = tsk data"
  "tsk (clear_snapshot data) = tsk data"
  "config (set_snapshot data) = config data" "config (set_had_snapshot data) = config data"
  "config (clear_snapshot data) = config data"
  by (simp_all add: status_defs)

end
