(* ===== verification/Task_Data.thy ===== *)
theory Task_Data
  imports Snapshot_Types
begin

text \<open>
  \<open>src/task_data.c\<close> and the per-CPU lookup cache at the top of \<open>src/memory.c\<close>: the
  registry that maps a task to its snapshot data.

  The registry is a list of pointers into a heap of \<open>task_data\<close> objects, because the
  per-CPU cache keeps copies of those pointers and an object can be freed while a copy is
  still around. Freed objects are absent from the heap; reading one is \<^term>\<open>None\<close>. The
  RCU callbacks queued by \<open>call_rcu\<close> are a list; \<open>task_data_free_callback\<close> runs one.
\<close>

section \<open>State\<close>

record list_state = alloc_state +
  lheap :: "lnode list_heap"
  vmranges :: "nat \<Rightarrow> vmrange option"

record td_state = list_state +
  td_heap :: "nat \<Rightarrow> task_data option"
  task_data_list :: "nat list"
  last_task :: "nat \<Rightarrow> task"
  last_task_data :: "nat \<Rightarrow> nat option"
  this_cpu :: nat
  current :: task
  rcu_pending :: "nat list"

definition put_td :: "nat \<Rightarrow> task_data \<Rightarrow> 's td_state_scheme \<Rightarrow> 's td_state_scheme" where
  "put_td d data s = s\<lparr>td_heap := (td_heap s)(d \<mapsto> data)\<rparr>"

section \<open>task_data.c\<close>

text \<open>The walk over \<open>task_data_list\<close> in \<open>get_task_data\<close>.\<close>

fun find_task_data :: "task \<Rightarrow> nat list \<Rightarrow> (nat \<Rightarrow> task_data option) \<Rightarrow> nat option option" where
  "find_task_data t [] h = Some None"
| "find_task_data t (d # ds) h =
     do { data \<leftarrow> h d;
          if tsk data = t then Some (Some d) else find_task_data t ds h }"

definition get_task_data :: "task \<Rightarrow> 's td_state_scheme \<Rightarrow> nat option option" where
  "get_task_data t s = find_task_data t (task_data_list s) (td_heap s)"

definition ensure_task_data ::
  "'k kernel_scheme \<Rightarrow> task \<Rightarrow> 's td_state_scheme \<Rightarrow> (nat option \<times> 's td_state_scheme) option" where
  "ensure_task_data K t s =
     do { found \<leftarrow> get_task_data t s;
          (case found of
             Some d \<Rightarrow> Some (Some d, s)
           | None \<Rightarrow>
               (case kmalloc K s of
                  (None, s1) \<Rightarrow> Some (None, s1)
                | (Some d, s1) \<Rightarrow>
                    let s2 = put_td d (new_task_data t) s1;
                        s3 = s2\<lparr>lheap := INIT_LIST_HEAD (Allowlist d) (lheap s2)\<rparr>;
                        s4 = s3\<lparr>lheap := INIT_LIST_HEAD (Blocklist d) (lheap s3)\<rparr>
                    in Some (Some d, s4\<lparr>task_data_list := d # task_data_list s4\<rparr>))) }"

definition remove_task_data :: "nat \<Rightarrow> 's td_state_scheme \<Rightarrow> 's td_state_scheme" where
  "remove_task_data d s =
     s\<lparr>task_data_list := remove1 d (task_data_list s), rcu_pending := rcu_pending s @ [d]\<rparr>"

text \<open>
  The two loops of \<open>task_data_free_callback\<close>: \<open>list_for_each_entry_safe\<close> reads the
  successor before the entry is unlinked and freed.
\<close>

partial_function (option) free_vmranges_from ::
  "lnode \<Rightarrow> lnode \<Rightarrow> 's list_state_scheme \<Rightarrow> 's list_state_scheme option" where
  "free_vmranges_from head pos s =
     (if pos = head then Some s
      else case pos of
        Vmrange_node n \<Rightarrow>
          (let nxt = next_of (lheap s) pos
           in free_vmranges_from head nxt
                (s\<lparr>lheap := list_del Poison1 Poison2 pos (lheap s),
                   vmranges := (vmranges s)(n := None)\<rparr>))
      | _ \<Rightarrow> None)"

definition free_vmranges :: "lnode \<Rightarrow> 's list_state_scheme \<Rightarrow> 's list_state_scheme option" where
  "free_vmranges head s = free_vmranges_from head (next_of (lheap s) head) s"

definition task_data_free_callback :: "nat \<Rightarrow> 's td_state_scheme \<Rightarrow> 's td_state_scheme option" where
  "task_data_free_callback d s =
     do { s1 \<leftarrow> free_vmranges (Blocklist d) s;
          s2 \<leftarrow> free_vmranges (Allowlist d) s1;
          Some (s2\<lparr>td_heap := (td_heap s2)(d := None)\<rparr>) }"

text \<open>The end of a grace period runs the oldest queued callback.\<close>

definition rcu_grace_period :: "'s td_state_scheme \<Rightarrow> 's td_state_scheme option" where
  "rcu_grace_period s =
     (case rcu_pending s of
        [] \<Rightarrow> Some s
      | d # ds \<Rightarrow> task_data_free_callback d (s\<lparr>rcu_pending := ds\<rparr>))"

section \<open>The per-CPU cache of memory.c\<close>

definition get_task_data_with_cache ::
  "task \<Rightarrow> 's td_state_scheme \<Rightarrow> (nat option \<times> 's td_state_scheme) option" where
  "get_task_data_with_cache t s =
     (let cpu = this_cpu s in
      if last_task s cpu = t then Some (last_task_data s cpu, s)
      else do { data \<leftarrow> get_task_data t s;
                Some (data, s\<lparr>last_task := (last_task s)(cpu := t),
                              last_task_data := (last_task_data s)(cpu := data)\<rparr>) })"

definition invalidate_cpu :: "task \<Rightarrow> nat \<Rightarrow> 's td_state_scheme \<Rightarrow> 's td_state_scheme" where
  "invalidate_cpu t i s =
     (if last_task s i = t
      then s\<lparr>last_task := (last_task s)(i := 0), last_task_data := (last_task_data s)(i := None)\<rparr>
      else s)"

definition invalidate_task_data_cache ::
  "'k kernel_scheme \<Rightarrow> task \<Rightarrow> 's td_state_scheme \<Rightarrow> 's td_state_scheme" where
  "invalidate_task_data_cache K t s = fold (invalidate_cpu t) [0..<nr_cpu_ids K] s"

section \<open>The registry invariant\<close>

definition owner_of :: "'s td_state_scheme \<Rightarrow> nat \<Rightarrow> task" where
  "owner_of s d = tsk (the (td_heap s d))"

text \<open>
  Every listed object is alive, no task is listed twice, objects awaiting their grace
  period are alive and unlisted, and addresses not yet handed out are unused.
\<close>

definition registry_ok :: "'s td_state_scheme \<Rightarrow> bool" where
  "registry_ok s \<longleftrightarrow>
     (\<forall>d \<in> set (task_data_list s). td_heap s d \<noteq> None) \<and>
     distinct (map (owner_of s) (task_data_list s)) \<and>
     distinct (task_data_list s @ rcu_pending s) \<and>
     (\<forall>d \<in> set (rcu_pending s). td_heap s d \<noteq> None) \<and>
     (\<forall>d \<in> set (task_data_list s). owner_of s d \<noteq> 0) \<and>
     (\<forall>d. td_heap s d \<noteq> None \<longrightarrow> d < alloc_next s)"

text \<open>What a lookup answers: the abstraction of the registry to a map.\<close>

definition registry_map :: "'s td_state_scheme \<Rightarrow> task \<Rightarrow> nat option" where
  "registry_map s t = find (\<lambda>d. owner_of s d = t) (task_data_list s)"

text \<open>
  The cache is coherent when a CPU's entry for a task is what a lookup answers, or is NULL
  for a task whose data holds no snapshot (the hooks treat both the same), or is empty.
\<close>

definition cache_entry_ok :: "'s td_state_scheme \<Rightarrow> nat \<Rightarrow> bool" where
  "cache_entry_ok s i \<longleftrightarrow>
     (case last_task_data s i of
        Some d \<Rightarrow> registry_map s (last_task s i) = Some d
      | None \<Rightarrow> (case registry_map s (last_task s i) of
                   None \<Rightarrow> True
                 | Some d \<Rightarrow> \<not> have_snapshot (the (td_heap s d))))"

definition cache_ok :: "'k kernel_scheme \<Rightarrow> 's td_state_scheme \<Rightarrow> bool" where
  "cache_ok K s \<longleftrightarrow> this_cpu s < nr_cpu_ids K \<and> (\<forall>i < nr_cpu_ids K. cache_entry_ok s i)"

section \<open>Lookups\<close>

lemma find_task_data_live:
  "(\<forall>d \<in> set ds. h d \<noteq> None) \<Longrightarrow>
   find_task_data t ds h = Some (find (\<lambda>d. tsk (the (h d)) = t) ds)"
  by (induction ds) auto

lemma get_task_data_map: "registry_ok s \<Longrightarrow> get_task_data t s = Some (registry_map s t)"
  by (simp add: get_task_data_def registry_map_def owner_of_def registry_ok_def find_task_data_live)

lemma registry_map_SomeD:
  assumes "registry_ok s" and "registry_map s t = Some d"
  obtains data where "td_heap s d = Some data" and "tsk data = t" and "d \<in> set (task_data_list s)"
proof -
  from find_SomeD [OF assms(2) [unfolded registry_map_def]]
  have "owner_of s d = t" and d: "d \<in> set (task_data_list s)" by auto
  moreover from d assms(1) obtain data where "td_heap s d = Some data"
    by (auto simp: registry_ok_def)
  ultimately show ?thesis using that by (simp add: owner_of_def)
qed

lemma registry_map_eq_SomeI:
  assumes "registry_ok s" and "d \<in> set (task_data_list s)" and "owner_of s d = t"
  shows "registry_map s t = Some d"
  unfolding registry_map_def
proof (rule find_unique)
  fix e assume "e \<in> set (task_data_list s)" and "owner_of s e = t"
  moreover have "inj_on (owner_of s) (set (task_data_list s))"
    using assms(1) by (simp add: registry_ok_def distinct_map)
  ultimately show "e = d" using assms(2,3) by (simp add: inj_on_def)
qed (use assms in auto)

lemma registry_map_eq_Some_iff:
  assumes "registry_ok s"
  shows "registry_map s t = Some d \<longleftrightarrow> d \<in> set (task_data_list s) \<and> owner_of s d = t"
  using registry_map_eq_SomeI [OF assms] find_SomeD [of "\<lambda>d. owner_of s d = t" "task_data_list s" d]
  by (auto simp: registry_map_def)

lemma registry_map_NULL: "registry_ok s \<Longrightarrow> registry_map s 0 = None"
  by (auto simp: registry_map_def registry_ok_def find_None_set)

lemma registry_map_cong:
  "task_data_list s' = task_data_list s \<Longrightarrow> owner_of s' = owner_of s \<Longrightarrow> registry_map s' = registry_map s"
  by (simp add: registry_map_def fun_eq_iff)

lemma registry_ok_cong:
  assumes "task_data_list s' = task_data_list s" and "rcu_pending s' = rcu_pending s"
    and "\<And>d. (td_heap s' d = None) = (td_heap s d = None)" and "owner_of s' = owner_of s"
    and "alloc_next s \<le> alloc_next s'"
  shows "registry_ok s \<Longrightarrow> registry_ok s'"
  using assms unfolding registry_ok_def by (auto intro: less_le_trans)

lemma put_td_simps [simp]:
  "td_heap (put_td d data s) = (td_heap s)(d \<mapsto> data)"
  "task_data_list (put_td d data s) = task_data_list s"
  "last_task (put_td d data s) = last_task s"
  "last_task_data (put_td d data s) = last_task_data s"
  "this_cpu (put_td d data s) = this_cpu s"
  "current (put_td d data s) = current s"
  "rcu_pending (put_td d data s) = rcu_pending s"
  "alloc_next (put_td d data s) = alloc_next s"
  "lheap (put_td d data s) = lheap s"
  "vmranges (put_td d data s) = vmranges s"
  by (simp_all add: put_td_def)

lemma owner_of_put_td:
  "td_heap s d = Some old \<Longrightarrow> tsk data = tsk old \<Longrightarrow> owner_of (put_td d data s) = owner_of s"
  by (rule ext) (simp add: owner_of_def)

lemma registry_map_put_td:
  "td_heap s d = Some old \<Longrightarrow> tsk data = tsk old \<Longrightarrow> registry_map (put_td d data s) = registry_map s"
  by (rule registry_map_cong) (simp_all add: owner_of_put_td)

lemma registry_ok_put_td [inv_intros]:
  "registry_ok s \<Longrightarrow> td_heap s d = Some old \<Longrightarrow> tsk data = tsk old \<Longrightarrow> registry_ok (put_td d data s)"
  by (rule registry_ok_cong [of _ s]) (auto simp: owner_of_put_td)

section \<open>Creating and removing task data\<close>

lemma registry_ok_used:
  assumes "registry_ok s" and "d \<in> set (task_data_list s @ rcu_pending s)"
  shows "d < alloc_next s"
proof -
  from assms have "td_heap s d \<noteq> None" unfolding registry_ok_def by auto
  with assms(1) show ?thesis unfolding registry_ok_def by blast
qed

lemma remove_task_data_simps [simp]:
  "td_heap (remove_task_data d s) = td_heap s"
  "task_data_list (remove_task_data d s) = remove1 d (task_data_list s)"
  "rcu_pending (remove_task_data d s) = rcu_pending s @ [d]"
  "last_task (remove_task_data d s) = last_task s"
  "last_task_data (remove_task_data d s) = last_task_data s"
  "this_cpu (remove_task_data d s) = this_cpu s"
  "current (remove_task_data d s) = current s"
  "alloc_next (remove_task_data d s) = alloc_next s"
  "owner_of (remove_task_data d s) = owner_of s"
  by (simp_all add: remove_task_data_def owner_of_def fun_eq_iff)

text \<open>The state of \<open>ensure_task_data\<close> after it has allocated and published new data.\<close>

lemma ensure_task_data_found:
  "registry_ok s \<Longrightarrow> registry_map s t = Some d \<Longrightarrow> ensure_task_data K t s = Some (Some d, s)"
  by (simp add: ensure_task_data_def get_task_data_map)

lemma ensure_task_data_oom:
  "registry_ok s \<Longrightarrow> registry_map s t = None \<Longrightarrow> \<not> kmalloc_ok K (alloc_next s) \<Longrightarrow>
   ensure_task_data K t s = Some (None, s\<lparr>alloc_next := Suc (alloc_next s)\<rparr>)"
  by (simp add: ensure_task_data_def get_task_data_map kmalloc_def)

lemma ensure_task_data_new:
  assumes "registry_ok s" and "registry_map s t = None" and "kmalloc_ok K (alloc_next s)"
  obtains s' where "ensure_task_data K t s = Some (Some (alloc_next s), s')"
    and "td_heap s' = (td_heap s)(alloc_next s \<mapsto> new_task_data t)"
    and "task_data_list s' = alloc_next s # task_data_list s"
    and "alloc_next s' = Suc (alloc_next s)" and "rcu_pending s' = rcu_pending s"
    and "last_task s' = last_task s" and "last_task_data s' = last_task_data s"
    and "this_cpu s' = this_cpu s" and "current s' = current s" and "vmranges s' = vmranges s"
    and "lheap s' = INIT_LIST_HEAD (Blocklist (alloc_next s))
           (INIT_LIST_HEAD (Allowlist (alloc_next s)) (lheap s))"
  using assms
  by (simp add: ensure_task_data_def get_task_data_map kmalloc_def Let_def put_td_def)

text \<open>The listed owners after new data has been published.\<close>

lemma owner_of_new:
  assumes "registry_ok s" and "td_heap s' = (td_heap s)(alloc_next s \<mapsto> new_task_data t)"
  shows "owner_of s' (alloc_next s) = t"
    and "d \<in> set (task_data_list s @ rcu_pending s) \<Longrightarrow> owner_of s' d = owner_of s d"
proof -
  show "owner_of s' (alloc_next s) = t" by (simp add: owner_of_def assms(2))
  assume "d \<in> set (task_data_list s @ rcu_pending s)"
  then have "d < alloc_next s" by (rule registry_ok_used [OF assms(1)])
  then show "owner_of s' d = owner_of s d" by (simp add: owner_of_def assms(2))
qed

lemma registry_ok_new:
  assumes ok: "registry_ok s" and none: "registry_map s t = None" and "t \<noteq> 0"
    and h: "td_heap s' = (td_heap s)(alloc_next s \<mapsto> new_task_data t)"
    and l: "task_data_list s' = alloc_next s # task_data_list s"
    and a: "alloc_next s' = Suc (alloc_next s)" and r: "rcu_pending s' = rcu_pending s"
  shows "registry_ok s'"
proof -
  have fresh: "alloc_next s \<notin> set (task_data_list s @ rcu_pending s)"
    using registry_ok_used [OF ok] by blast
  have own: "map (owner_of s') (task_data_list s) = map (owner_of s) (task_data_list s)"
    using owner_of_new(2) [OF ok h] by (intro map_cong) auto
  have "t \<notin> set (map (owner_of s) (task_data_list s))"
    using none by (auto simp: registry_map_def find_None_set)
  then have "distinct (map (owner_of s') (task_data_list s'))"
    using ok owner_of_new(1) [OF ok h] unfolding l list.map own distinct.simps
    by (simp add: registry_ok_def)
  moreover have "distinct (task_data_list s' @ rcu_pending s')"
    using ok fresh by (simp add: l r registry_ok_def)
  moreover have "\<forall>d \<in> set (task_data_list s'). owner_of s' d \<noteq> 0"
    using ok own owner_of_new [OF ok h] \<open>t \<noteq> 0\<close> by (auto simp: l registry_ok_def)
  ultimately show ?thesis
    using ok unfolding registry_ok_def by (auto simp: h l a r less_Suc_eq)
qed

lemma registry_map_new:
  assumes ok: "registry_ok s" and "registry_map s t = None"
    and h: "td_heap s' = (td_heap s)(alloc_next s \<mapsto> new_task_data t)"
    and l: "task_data_list s' = alloc_next s # task_data_list s"
  shows "registry_map s' = (registry_map s)(t \<mapsto> alloc_next s)"
proof
  fix u
  have "find (\<lambda>d. owner_of s' d = u) (task_data_list s) = find (\<lambda>d. owner_of s d = u) (task_data_list s)"
    using owner_of_new(2) [OF ok h] by (intro find_cong) auto
  then show "registry_map s' u = ((registry_map s)(t \<mapsto> alloc_next s)) u"
    using owner_of_new(1) [OF ok h] by (simp add: registry_map_def l)
qed

lemma registry_ok_remove [inv_intros]:
  assumes ok: "registry_ok s" and "d \<in> set (task_data_list s)"
  shows "registry_ok (remove_task_data d s)"
proof -
  have "distinct (map (owner_of s) (remove1 d (task_data_list s)))"
    using ok by (auto simp: registry_ok_def distinct_map intro: inj_on_subset dest: notin_set_remove1)
  then show ?thesis
    using assms unfolding registry_ok_def by auto
qed

lemma registry_map_remove:
  assumes ok: "registry_ok s" and d: "registry_map s t = Some d"
  shows "registry_map (remove_task_data d s) = (registry_map s)(t := None)"
proof
  fix u
  let ?s = "remove_task_data d s"
  have in_list: "d \<in> set (task_data_list s)" and own: "owner_of s d = t"
    using d by (simp_all add: registry_map_eq_Some_iff [OF ok])
  have ok': "registry_ok ?s" using ok in_list by (rule registry_ok_remove)
  have dist: "distinct (task_data_list s)" using ok by (simp add: registry_ok_def)
  show "registry_map ?s u = ((registry_map s)(t := None)) u"
  proof (cases "registry_map s u")
    case None
    then have "registry_map ?s u = None"
      using dist by (auto simp: registry_map_def find_None_set)
    with None show ?thesis by simp
  next
    case (Some e)
    then have e: "e \<in> set (task_data_list s)" "owner_of s e = u"
      by (simp_all add: registry_map_eq_Some_iff [OF ok])
    show ?thesis
    proof (cases "u = t")
      case True
      with d Some have "e = d" by simp
      have "registry_map ?s u = None"
      proof (rule ccontr)
        assume "registry_map ?s u \<noteq> None"
        then obtain f where "f \<in> set (remove1 d (task_data_list s))" "owner_of s f = u"
          by (auto simp: registry_map_eq_Some_iff [OF ok'])
        then have "registry_map s u = Some f" "f \<noteq> d"
          using dist by (auto intro: registry_map_eq_SomeI [OF ok])
        with Some \<open>e = d\<close> show False by simp
      qed
      with True show ?thesis by simp
    next
      case False
      with own e have "e \<noteq> d" by auto
      with e dist have "registry_map ?s u = Some e"
        by (simp add: registry_map_eq_Some_iff [OF ok'])
      with False Some show ?thesis by simp
    qed
  qed
qed

section \<open>Cache operations\<close>

lemma invalidate_cpu_simps [simp]:
  "td_heap (invalidate_cpu t i s) = td_heap s"
  "task_data_list (invalidate_cpu t i s) = task_data_list s"
  "rcu_pending (invalidate_cpu t i s) = rcu_pending s"
  "this_cpu (invalidate_cpu t i s) = this_cpu s"
  "current (invalidate_cpu t i s) = current s"
  "alloc_next (invalidate_cpu t i s) = alloc_next s"
  "lheap (invalidate_cpu t i s) = lheap s"
  "vmranges (invalidate_cpu t i s) = vmranges s"
  "last_task (invalidate_cpu t i s) j = (if j = i \<and> last_task s i = t then 0 else last_task s j)"
  "last_task_data (invalidate_cpu t i s) j =
     (if j = i \<and> last_task s i = t then None else last_task_data s j)"
  by (auto simp: invalidate_cpu_def)

lemma fold_invalidate_cpu_simps:
  "td_heap (fold (invalidate_cpu t) cs s) = td_heap s"
  "task_data_list (fold (invalidate_cpu t) cs s) = task_data_list s"
  "rcu_pending (fold (invalidate_cpu t) cs s) = rcu_pending s"
  "this_cpu (fold (invalidate_cpu t) cs s) = this_cpu s"
  "current (fold (invalidate_cpu t) cs s) = current s"
  "alloc_next (fold (invalidate_cpu t) cs s) = alloc_next s"
  "lheap (fold (invalidate_cpu t) cs s) = lheap s"
  "vmranges (fold (invalidate_cpu t) cs s) = vmranges s"
  by (induction cs arbitrary: s) simp_all

lemma fold_invalidate_cpu_entries:
  "last_task (fold (invalidate_cpu t) cs s) j =
     (if j \<in> set cs \<and> last_task s j = t then 0 else last_task s j)"
  "last_task_data (fold (invalidate_cpu t) cs s) j =
     (if j \<in> set cs \<and> last_task s j = t then None else last_task_data s j)"
  by (induction cs arbitrary: s) auto

lemma invalidate_simps [simp]:
  "td_heap (invalidate_task_data_cache K t s) = td_heap s"
  "task_data_list (invalidate_task_data_cache K t s) = task_data_list s"
  "rcu_pending (invalidate_task_data_cache K t s) = rcu_pending s"
  "this_cpu (invalidate_task_data_cache K t s) = this_cpu s"
  "current (invalidate_task_data_cache K t s) = current s"
  "alloc_next (invalidate_task_data_cache K t s) = alloc_next s"
  "lheap (invalidate_task_data_cache K t s) = lheap s"
  "vmranges (invalidate_task_data_cache K t s) = vmranges s"
  "last_task (invalidate_task_data_cache K t s) j =
     (if j < nr_cpu_ids K \<and> last_task s j = t then 0 else last_task s j)"
  "last_task_data (invalidate_task_data_cache K t s) j =
     (if j < nr_cpu_ids K \<and> last_task s j = t then None else last_task_data s j)"
  "owner_of (invalidate_task_data_cache K t s) = owner_of s"
  by (simp_all add: invalidate_task_data_cache_def fold_invalidate_cpu_simps
        fold_invalidate_cpu_entries owner_of_def fun_eq_iff)

lemma invalidate_registry [simp]:
  "registry_map (invalidate_task_data_cache K t s) = registry_map s"
  "registry_ok (invalidate_task_data_cache K t s) = registry_ok s"
  by (simp_all add: registry_map_def registry_ok_def fun_eq_iff)

lemma cache_entry_ok_cong:
  assumes "last_task s' i = last_task s i" and "last_task_data s' i = last_task_data s i"
    and "registry_map s' (last_task s i) = registry_map s (last_task s i)"
    and "\<And>d. registry_map s (last_task s i) = Some d \<Longrightarrow> last_task_data s i = None \<Longrightarrow>
           have_snapshot (the (td_heap s' d)) \<Longrightarrow> have_snapshot (the (td_heap s d))"
  shows "cache_entry_ok s i \<Longrightarrow> cache_entry_ok s' i"
  using assms by (auto simp: cache_entry_ok_def split: option.splits)

text \<open>After invalidation the entries of the task are empty and the others untouched.\<close>

lemma cache_ok_invalidate:
  assumes "registry_ok s" and "this_cpu s < nr_cpu_ids K"
    and "\<And>i. i < nr_cpu_ids K \<Longrightarrow> last_task s i \<noteq> t \<Longrightarrow> cache_entry_ok s i"
  shows "cache_ok K (invalidate_task_data_cache K t s)"
  unfolding cache_ok_def
proof (intro conjI allI impI)
  fix i assume i: "i < nr_cpu_ids K"
  let ?s = "invalidate_task_data_cache K t s"
  show "cache_entry_ok ?s i"
  proof (cases "last_task s i = t")
    case True
    with i show ?thesis
      by (simp add: cache_entry_ok_def registry_map_NULL [OF assms(1)])
  next
    case False
    with i have "cache_entry_ok s i" by (rule assms(3))
    then show ?thesis using False by (rule_tac cache_entry_ok_cong [of _ _ s]) simp_all
  qed
qed (simp add: assms(2))

lemma get_with_cache_eq:
  assumes "registry_ok s"
  shows "get_task_data_with_cache t s =
    (if last_task s (this_cpu s) = t then Some (last_task_data s (this_cpu s), s)
     else Some (registry_map s t,
            s\<lparr>last_task := (last_task s)(this_cpu s := t),
              last_task_data := (last_task_data s)(this_cpu s := registry_map s t)\<rparr>))"
  using assms by (simp add: get_task_data_with_cache_def get_task_data_map Let_def)

text \<open>What a cached lookup answers, and that it keeps the registry and the cache coherent.\<close>

lemma get_with_cache_cases:
  assumes "registry_ok s" and "cache_ok K s"
  obtains r s' where "get_task_data_with_cache t s = Some (r, s')"
    and "registry_ok s'" and "cache_ok K s'" and "registry_map s' = registry_map s"
    and "td_heap s' = td_heap s" and "task_data_list s' = task_data_list s"
    and "r = registry_map s t \<or>
         r = None \<and> (\<exists>d. registry_map s t = Some d \<and> \<not> have_snapshot (the (td_heap s d)))"
    and "\<exists>lt ld. s' = s\<lparr>last_task := lt, last_task_data := ld\<rparr>"
proof (cases "last_task s (this_cpu s) = t")
  case True
  have "cache_entry_ok s (this_cpu s)" using assms(2) by (simp add: cache_ok_def)
  with True have "last_task_data s (this_cpu s) = registry_map s t \<or>
     last_task_data s (this_cpu s) = None \<and>
       (\<exists>d. registry_map s t = Some d \<and> \<not> have_snapshot (the (td_heap s d)))"
    by (auto simp: cache_entry_ok_def split: option.splits)
  moreover have "s = s\<lparr>last_task := last_task s, last_task_data := last_task_data s\<rparr>" by simp
  then have "\<exists>lt ld. s = s\<lparr>last_task := lt, last_task_data := ld\<rparr>" by blast
  ultimately show ?thesis using True assms
    by (intro that [of "last_task_data s (this_cpu s)" s]) (auto simp: get_with_cache_eq)
next
  case False
  define s' where "s' = s\<lparr>last_task := (last_task s)(this_cpu s := t),
     last_task_data := (last_task_data s)(this_cpu s := registry_map s t)\<rparr>"
  have o: "owner_of s' = owner_of s" by (simp add: owner_of_def fun_eq_iff s'_def)
  have m: "registry_map s' = registry_map s"
    by (rule registry_map_cong) (simp_all add: o, simp add: s'_def)
  have "registry_ok s'"
    using assms(1) by (rule registry_ok_cong [rotated -1]) (simp_all add: o, simp_all add: s'_def)
  moreover have "cache_entry_ok s' i" if "i < nr_cpu_ids K" for i
  proof (cases "i = this_cpu s")
    case True
    then show ?thesis by (simp add: cache_entry_ok_def m split: option.split) (simp add: s'_def)
  next
    case i: False
    have "cache_entry_ok s i" using assms(2) that by (simp add: cache_ok_def)
    then show ?thesis
      using i by (rule_tac cache_entry_ok_cong [of _ _ s]) (simp_all add: m, simp_all add: s'_def)
  qed
  then have "cache_ok K s'" using assms(2) by (simp add: cache_ok_def s'_def)
  ultimately show ?thesis
    using m False
    by (intro that [of "registry_map s t" s']) (auto simp: get_with_cache_eq [OF assms(1)] s'_def)
qed

section \<open>The interface of the registry\<close>

text \<open>
  What the rest of the module relies on: a map from tasks to pointers that \<open>ensure\<close>
  extends and \<open>remove\<close> shrinks, one task at a time. \<open>key_ok\<close> excludes the NULL task.
\<close>

locale task_registry =
  fixes wf :: "'s \<Rightarrow> bool"
    and key_ok :: "'t \<Rightarrow> bool"
    and lookup :: "'s \<Rightarrow> 't \<Rightarrow> 'd option"
    and ensure :: "'t \<Rightarrow> 's \<Rightarrow> ('d option \<times> 's) option"
    and remove :: "'d \<Rightarrow> 's \<Rightarrow> 's"
  assumes ensure_returns: "wf s \<Longrightarrow> key_ok t \<Longrightarrow> ensure t s \<noteq> None"
    and ensure_wf: "wf s \<Longrightarrow> key_ok t \<Longrightarrow> ensure t s = Some (r, s') \<Longrightarrow> wf s'"
    and ensure_known: "wf s \<Longrightarrow> lookup s t = Some d \<Longrightarrow> ensure t s = Some (Some d, s)"
    and ensure_map: "wf s \<Longrightarrow> key_ok t \<Longrightarrow> ensure t s = Some (r, s') \<Longrightarrow>
          lookup s' = (lookup s)(t := r)"
    and remove_wf: "wf s \<Longrightarrow> lookup s t = Some d \<Longrightarrow> wf (remove d s)"
    and remove_map: "wf s \<Longrightarrow> lookup s t = Some d \<Longrightarrow> lookup (remove d s) = (lookup s)(t := None)"
begin

lemma ensure_twice:
  assumes "wf s" and "key_ok t" and "ensure t s = Some (Some d, s')"
  shows "ensure t s' = Some (Some d, s')"
  using assms ensure_wf ensure_map by (intro ensure_known) fastforce+

lemma ensure_other:
  assumes "wf s" and "key_ok t" and "ensure t s = Some (r, s')" and "u \<noteq> t"
  shows "lookup s' u = lookup s u"
  using ensure_map [OF assms(1-3)] assms(4) by simp

lemma remove_other:
  assumes "wf s" and "lookup s t = Some d" and "u \<noteq> t"
  shows "lookup (remove d s) u = lookup s u"
  using remove_map [OF assms(1,2)] assms(3) by simp

lemma ensure_remove:
  assumes "wf s" and "key_ok t" and "lookup s t = None" and "ensure t s = Some (Some d, s')"
  shows "lookup (remove d s') = lookup s" and "wf (remove d s')"
proof -
  have wf: "wf s'" using assms(1,2,4) by (rule ensure_wf)
  have m: "lookup s' = (lookup s)(t := Some d)" using assms(1,2,4) by (rule ensure_map)
  then have d: "lookup s' t = Some d" by simp
  have "lookup (remove d s') = (lookup s')(t := None)" using wf d by (rule remove_map)
  with m assms(3) show "lookup (remove d s') = lookup s" by (simp add: fun_upd_idem)
  show "wf (remove d s')" using wf d by (rule remove_wf)
qed

end

lemma ensure_registry:
  assumes "registry_ok s" and "t \<noteq> 0" and "ensure_task_data K t s = Some (r, s')"
  shows "registry_ok s'" and "registry_map s' = (registry_map s)(t := r)"
proof -
  consider (found) d where "registry_map s t = Some d"
    | (oom) "registry_map s t = None" "\<not> kmalloc_ok K (alloc_next s)"
    | (fresh) "registry_map s t = None" "kmalloc_ok K (alloc_next s)"
    by (cases "registry_map s t") auto
  then have "registry_ok s' \<and> registry_map s' = (registry_map s)(t := r)"
  proof cases
    case found
    with assms show ?thesis by (simp add: ensure_task_data_found fun_upd_idem)
  next
    case oom
    let ?s = "s\<lparr>alloc_next := Suc (alloc_next s)\<rparr>"
    have o: "owner_of ?s = owner_of s" by (simp add: owner_of_def fun_eq_iff)
    have "registry_ok ?s" using assms(1) by (rule registry_ok_cong [rotated -1]) (simp_all add: o)
    moreover have "registry_map ?s = registry_map s" by (rule registry_map_cong) (simp_all add: o)
    moreover have "r = None" "s' = ?s"
      using assms(3) by (simp_all add: ensure_task_data_oom [OF assms(1) oom])
    ultimately show ?thesis using oom(1) by (simp add: fun_upd_idem)
  next
    case fresh
    from ensure_task_data_new [OF assms(1) fresh] assms(3)
    have "r = Some (alloc_next s)"
      and h: "td_heap s' = (td_heap s)(alloc_next s \<mapsto> new_task_data t)"
      and l: "task_data_list s' = alloc_next s # task_data_list s"
      and a: "alloc_next s' = Suc (alloc_next s)" and p: "rcu_pending s' = rcu_pending s"
      by (metis option.inject prod.inject)+
    then show ?thesis
      using registry_ok_new [OF assms(1) fresh(1) assms(2) h l a p]
        registry_map_new [OF assms(1) fresh(1) h l] by simp
  qed
  then show "registry_ok s'" and "registry_map s' = (registry_map s)(t := r)" by simp_all
qed

lemma ensure_returns:
  "registry_ok s \<Longrightarrow> ensure_task_data K t s \<noteq> None"
  by (auto simp: ensure_task_data_def get_task_data_map Let_def split: option.split prod.split)

interpretation reg: task_registry
  "registry_ok :: 's td_state_scheme \<Rightarrow> bool" "\<lambda>t. t \<noteq> 0" registry_map
  "ensure_task_data K" remove_task_data
  for K :: "'k kernel_scheme"
proof unfold_locales
  show "\<And>s t. registry_ok s \<Longrightarrow> t \<noteq> 0 \<Longrightarrow> ensure_task_data K t s \<noteq> None"
    by (rule ensure_returns)
next
  fix s :: "'s td_state_scheme" and t d
  assume ok: "registry_ok s" and d: "registry_map s t = Some d"
  show "ensure_task_data K t s = Some (Some d, s)" using ok d by (rule ensure_task_data_found)
  have "d \<in> set (task_data_list s)" using d by (simp add: registry_map_eq_Some_iff [OF ok])
  with ok show "registry_ok (remove_task_data d s)" by (rule registry_ok_remove)
  show "registry_map (remove_task_data d s) = (registry_map s)(t := None)"
    using ok d by (rule registry_map_remove)
qed (rule ensure_registry; assumption)+

end
