(* ===== verification/Snapshot_Pages.thy ===== *)
theory Snapshot_Pages
  imports Task_Data
begin

text \<open>
  The pages of a snapshot (\<open>src/memory.c\<close>): the hash table that holds them, how a page
  enters it when the snapshot is taken, and \<open>record_dirty_page\<close>, which saves a page before
  its first change. The functions work on the task data they are given and on the machine
  state; the callers in theory \<open>Memory_Hooks\<close> find the task data and store it back.
\<close>

section \<open>The machine state as the memory code sees it\<close>

record task_struct =
  task_mm :: mm_id
  task_files :: nat
  task_group_leader :: task
  task_next_thread :: task
  task_pid_alive :: bool
  task_usage :: nat
  task_regs :: pt_regs

record mem_state = td_state +
  tasks :: "task \<Rightarrow> task_struct"
  mem :: mem
  tlb_flushes :: "(mm_id \<times> u64 \<times> u64) list"

definition flush_tlb :: "mm_id \<Rightarrow> u64 \<Rightarrow> u64 \<Rightarrow> 's mem_state_scheme \<Rightarrow> 's mem_state_scheme" where
  "flush_tlb m st en s = s\<lparr>tlb_flushes := tlb_flushes s @ [(m, st, en)]\<rparr>"

section \<open>The hash table\<close>

definition get_snapshot_page ::
  "'k kernel_scheme \<Rightarrow> u64 \<Rightarrow> task_data \<Rightarrow> snapshot_page option" where
  "get_snapshot_page K b data =
     find (\<lambda>sp. page_base sp = b) (ss_pages (ss data) (hash_min K b))"

definition set_bucket :: "nat \<Rightarrow> snapshot_page list \<Rightarrow> task_data \<Rightarrow> task_data" where
  "set_bucket h sps = upd_ss (\<lambda>s. s\<lparr>ss_pages := (ss_pages s)(h := sps)\<rparr>)"

definition hash_add :: "'k kernel_scheme \<Rightarrow> snapshot_page \<Rightarrow> task_data \<Rightarrow> task_data" where
  "hash_add K sp data =
     (let h = hash_min K (page_base sp) in set_bucket h (sp # ss_pages (ss data) h) data)"

text \<open>A write through a \<open>struct snapshot_page *\<close>.\<close>

definition upd_snapshot_page ::
  "'k kernel_scheme \<Rightarrow> u64 \<Rightarrow> (snapshot_page \<Rightarrow> snapshot_page) \<Rightarrow> task_data \<Rightarrow> task_data" where
  "upd_snapshot_page K b f data =
     (let h = hash_min K b
      in set_bucket h (map (\<lambda>sp. if page_base sp = b then f sp else sp) (ss_pages (ss data) h)) data)"

text \<open>The search over \<open>snapshotted_vmas\<close> gives up at the first area above the address.\<close>

fun snapshotted_in :: "u64 \<Rightarrow> snapshot_vma list \<Rightarrow> bool" where
  "snapshotted_in b [] = False"
| "snapshotted_in b (v # vs) =
     (if sv_start v \<le> b \<and> b < sv_end v then True
      else if sv_start v > b then False
      else snapshotted_in b vs)"

definition is_snapshotted_address :: "task_data \<Rightarrow> u64 \<Rightarrow> bool" where
  "is_snapshotted_address data b = snapshotted_in b (snapshotted_vmas (ss data))"

definition add_snapshot_page ::
  "'k kernel_scheme \<Rightarrow> u64 \<Rightarrow> bool \<Rightarrow> task_data \<Rightarrow> 's alloc_state_scheme
   \<Rightarrow> u64 option \<times> task_data \<times> 's alloc_state_scheme" where
  "add_snapshot_page K b attempt_reuse data s =
     (let found = (if attempt_reuse then get_snapshot_page K b data else None);
          (sp, data1, s1) =
            (case found of
               Some sp \<Rightarrow> (Some b, data, s)
             | None \<Rightarrow>
                 (case kmalloc K s of
                    (None, s1) \<Rightarrow> (None, data, s1)
                  | (Some n, s1) \<Rightarrow>
                      let g = kmalloc_garbage K n;
                          sp = \<lparr>page_base = b, page_prot = g, page_data = None,
                                has_been_copied = (g \<noteq> 0), has_had_pte = (g \<noteq> 0),
                                dirty = (g \<noteq> 0), in_dirty_list = (g \<noteq> 0)\<rparr>
                      in (Some b, hash_add K sp data, s1)))
      in case sp of
           None \<Rightarrow> (None, data1, s1)
         | Some p \<Rightarrow>
             (Some p,
              upd_snapshot_page K p
                (\<lambda>sp. sp\<lparr>page_prot := 0, has_been_copied := False, dirty := False,
                         in_dirty_list := False\<rparr>) data1, s1))"

text \<open>The page table entry is the slot of \<open>addr\<close> in \<open>m\<close>.\<close>

definition make_snapshot_page ::
  "'k kernel_scheme \<Rightarrow> mm_id \<Rightarrow> u64 \<Rightarrow> task_data \<Rightarrow> 's mem_state_scheme
   \<Rightarrow> int \<times> task_data \<times> 's mem_state_scheme" where
  "make_snapshot_page K m addr data s =
     (case add_snapshot_page K addr True data s of
        (None, data1, s1) \<Rightarrow> (- ENOMEM, data1, s1)
      | (Some sp, data1, s1) \<Rightarrow>
          let pte = pte_of (mem s1) m addr in
          if pte_none pte
          then (0, upd_snapshot_page K sp
                     (\<lambda>p. set_snapshot_page_none_pte (p\<lparr>has_had_pte := False\<rparr>)) data1, s1)
          else
            let data2 = upd_snapshot_page K sp (\<lambda>p. p\<lparr>has_had_pte := True\<rparr>) data1 in
            if pte_rw pte
            then let s2 = s1\<lparr>mem := ptep_set_wrprotect m addr (mem s1)\<rparr>;
                     data3 = upd_snapshot_page K sp set_snapshot_page_private data2
                 in (0, data3, flush_tlb m (addr AND PAGE_MASK) ((addr AND PAGE_MASK) + PAGE_SIZE) s2)
            else (0, upd_snapshot_page K sp set_snapshot_page_cow data2, s1))"

section \<open>Saving a page before its first change\<close>

text \<open>
  The result is the pointer to the page, or NULL (\<^term>\<open>None\<close>) when the caller has nothing
  more to do. When the buffer for the page cannot be allocated the page has already been
  marked dirty and put on the dirty list.
\<close>

definition record_dirty_page ::
  "'k kernel_scheme \<Rightarrow> u64 \<Rightarrow> pte \<Rightarrow> task_data \<Rightarrow> 's mem_state_scheme
   \<Rightarrow> u64 option \<times> task_data \<times> 's mem_state_scheme" where
  "record_dirty_page K page_addr pte data s =
     (case get_snapshot_page K page_addr data of
        None \<Rightarrow> (None, data, s)
      | Some sp \<Rightarrow>
          if dirty sp \<or> is_snapshot_page_none_pte sp then (None, data, s)
          else
            let data1 = upd_snapshot_page K page_addr (\<lambda>p. p\<lparr>dirty := True\<rparr>) data;
                data2 = (if in_dirty_list sp then data1
                         else upd_ss (\<lambda>x. x\<lparr>dirty_pages := dirty_pages x @ [page_addr]\<rparr>)
                                (upd_snapshot_page K page_addr (\<lambda>p. p\<lparr>in_dirty_list := True\<rparr>) data1))
            in if has_been_copied sp then (Some page_addr, data2, s)
               else
                 let (buf, s1) = (if page_data sp = None then kmalloc K s else (Some 0, s))
                 in case buf of
                      None \<Rightarrow> (None, data2, s1)
                    | Some _ \<Rightarrow>
                        (Some page_addr,
                         upd_snapshot_page K page_addr
                           (\<lambda>p. p\<lparr>page_data := Some (frames (mem s1) (pte_pfn pte)),
                                  has_been_copied := True\<rparr>) data2, s1))"

section \<open>The interface of the page table\<close>

text \<open>\<open>pages_ok\<close>: every page is in the bucket of its key, once.\<close>

definition pages_ok :: "'k kernel_scheme \<Rightarrow> task_data \<Rightarrow> bool" where
  "pages_ok K data \<longleftrightarrow>
     (\<forall>h. distinct (map page_base (ss_pages (ss data) h)) \<and>
          (\<forall>sp \<in> set (ss_pages (ss data) h). hash_min K (page_base sp) = h))"

text \<open>A keyed store whose entries are changed in place and never change their key.\<close>

locale page_store =
  fixes wf :: "'d \<Rightarrow> bool"
    and key :: "'p \<Rightarrow> 'k"
    and get :: "'k \<Rightarrow> 'd \<Rightarrow> 'p option"
    and add :: "'p \<Rightarrow> 'd \<Rightarrow> 'd"
    and upd :: "'k \<Rightarrow> ('p \<Rightarrow> 'p) \<Rightarrow> 'd \<Rightarrow> 'd"
  assumes get_key: "wf d \<Longrightarrow> get k d = Some p \<Longrightarrow> key p = k"
    and upd_wf: "wf d \<Longrightarrow> (\<And>p. key (f p) = key p) \<Longrightarrow> wf (upd k f d)"
    and get_upd: "wf d \<Longrightarrow> (\<And>p. key (f p) = key p) \<Longrightarrow>
          get k' (upd k f d) = (if k' = k then map_option f (get k d) else get k' d)"
    and add_wf: "wf d \<Longrightarrow> get (key p) d = None \<Longrightarrow> wf (add p d)"
    and get_add: "wf d \<Longrightarrow> get (key p) d = None \<Longrightarrow>
          get k (add p d) = (if k = key p then Some p else get k d)"
begin

lemma get_upd_other:
  "wf d \<Longrightarrow> (\<And>p. key (f p) = key p) \<Longrightarrow> k' \<noteq> k \<Longrightarrow> get k' (upd k f d) = get k' d"
  by (simp add: get_upd)

lemma get_upd_upd:
  assumes "wf d" and f: "\<And>p. key (f p) = key p" and g: "\<And>p. key (g p) = key p"
  shows "get k' (upd k g (upd k f d)) = get k' (upd k (g \<circ> f) d)"
  using assms by (simp add: get_upd upd_wf option.map_comp)

lemma get_add_upd:
  assumes "wf d" and "get (key p) d = None" and f: "\<And>p. key (f p) = key p"
  shows "get k (upd (key p) f (add p d)) = (if k = key p then Some (f p) else get k d)"
  using assms by (simp add: get_upd add_wf get_add)

lemma wf_add_upd:
  assumes "wf d" and "get (key p) d = None" and f: "\<And>p. key (f p) = key p"
  shows "wf (upd (key p) f (add p d))"
  using assms by (simp add: upd_wf add_wf)

end

lemma set_bucket_simps [simp]:
  "ss_pages (ss (set_bucket h sps data)) = (ss_pages (ss data))(h := sps)"
  "dirty_pages (ss (set_bucket h sps data)) = dirty_pages (ss data)"
  "status (ss (set_bucket h sps data)) = status (ss data)"
  "oldbrk (ss (set_bucket h sps data)) = oldbrk (ss data)"
  "all_vmas (ss (set_bucket h sps data)) = all_vmas (ss data)"
  "snapshotted_vmas (ss (set_bucket h sps data)) = snapshotted_vmas (ss data)"
  "ss_regs (ss (set_bucket h sps data)) = ss_regs (ss data)"
  "ss_files (ss (set_bucket h sps data)) = ss_files (ss data)"
  "tsk (set_bucket h sps data) = tsk data" "config (set_bucket h sps data) = config data"
  by (simp_all add: set_bucket_def)

lemma find_map_update:
  assumes "\<And>p. page_base (f p) = page_base p" and "distinct (map page_base sps)"
  shows "find (\<lambda>sp. page_base sp = b') (map (\<lambda>sp. if page_base sp = b then f sp else sp) sps) =
     (if b' = b then map_option f (find (\<lambda>sp. page_base sp = b) sps)
      else find (\<lambda>sp. page_base sp = b') sps)"
  using assms by (induction sps) auto

lemma pages_ok_set_bucket:
  assumes "pages_ok K data" and "distinct (map page_base sps)"
    and "\<And>sp. sp \<in> set sps \<Longrightarrow> hash_min K (page_base sp) = h"
  shows "pages_ok K (set_bucket h sps data)"
  using assms by (simp add: pages_ok_def)

lemma pages_ok_upd:
  assumes ok: "pages_ok K data" and f: "\<And>p. page_base (f p) = page_base p"
  shows "pages_ok K (upd_snapshot_page K b f data)"
proof -
  let ?g = "\<lambda>sp. if page_base sp = b then f sp else sp"
  let ?h = "hash_min K b"
  have g: "page_base (?g sp) = page_base sp" for sp by (simp add: f)
  then have "map page_base (map ?g sps) = map page_base sps" for sps
    by (simp only: map_map comp_def)
  with ok have "distinct (map page_base (map ?g (ss_pages (ss data) ?h)))"
    by (simp only: pages_ok_def)
  moreover have "hash_min K (page_base sp) = ?h" if sp: "sp \<in> set (map ?g (ss_pages (ss data) ?h))" for sp
  proof -
    from sp have "sp \<in> ?g ` set (ss_pages (ss data) ?h)" by (simp only: set_map)
    then obtain q where q: "sp = ?g q" "q \<in> set (ss_pages (ss data) ?h)" by (rule imageE)
    have "hash_min K (page_base q) = ?h" using ok q(2) unfolding pages_ok_def by blast
    then show ?thesis by (simp only: q(1) g)
  qed
  ultimately show ?thesis
    unfolding upd_snapshot_page_def Let_def by (rule pages_ok_set_bucket [OF ok])
qed

interpretation pages: page_store "pages_ok K" page_base "get_snapshot_page K" "hash_add K" "upd_snapshot_page K"
  for K :: "'k kernel_scheme"
proof unfold_locales
  fix data :: task_data and b b' and p :: snapshot_page and f :: "snapshot_page \<Rightarrow> snapshot_page"
  assume ok: "pages_ok K data"
  show "page_base p = b" if "get_snapshot_page K b data = Some p"
    using find_SomeD [OF that [unfolded get_snapshot_page_def]] by simp
  show "pages_ok K (upd_snapshot_page K b f data)" if "\<And>p. page_base (f p) = page_base p"
    using ok that by (rule pages_ok_upd)
  show "get_snapshot_page K b' (upd_snapshot_page K b f data) =
      (if b' = b then map_option f (get_snapshot_page K b data) else get_snapshot_page K b' data)"
    if "\<And>p. page_base (f p) = page_base p"
    using ok that by (simp add: get_snapshot_page_def upd_snapshot_page_def Let_def pages_ok_def find_map_update)
  assume none: "get_snapshot_page K (page_base p) data = None"
  then show "pages_ok K (hash_add K p data)"
    using ok by (auto simp: get_snapshot_page_def hash_add_def Let_def pages_ok_def find_None_set)
  show "get_snapshot_page K b (hash_add K p data) =
      (if b = page_base p then Some p else get_snapshot_page K b data)"
    using none by (auto simp: get_snapshot_page_def hash_add_def Let_def)
qed

section \<open>Simplification\<close>

lemma upd_snapshot_page_simps [simp]:
  "dirty_pages (ss (upd_snapshot_page K b f data)) = dirty_pages (ss data)"
  "status (ss (upd_snapshot_page K b f data)) = status (ss data)"
  "oldbrk (ss (upd_snapshot_page K b f data)) = oldbrk (ss data)"
  "all_vmas (ss (upd_snapshot_page K b f data)) = all_vmas (ss data)"
  "snapshotted_vmas (ss (upd_snapshot_page K b f data)) = snapshotted_vmas (ss data)"
  "ss_regs (ss (upd_snapshot_page K b f data)) = ss_regs (ss data)"
  "ss_files (ss (upd_snapshot_page K b f data)) = ss_files (ss data)"
  "tsk (upd_snapshot_page K b f data) = tsk data"
  "config (upd_snapshot_page K b f data) = config data"
  "have_snapshot (upd_snapshot_page K b f data) = have_snapshot data"
  by (simp_all add: upd_snapshot_page_def Let_def have_snapshot_def)

lemma get_snapshot_page_upd_ss [simp]:
  "ss_pages (f (ss data)) = ss_pages (ss data) \<Longrightarrow>
   get_snapshot_page K b (upd_ss f data) = get_snapshot_page K b data"
  by (simp add: get_snapshot_page_def)

lemma pages_ok_upd_ss [simp]:
  "ss_pages (f (ss data)) = ss_pages (ss data) \<Longrightarrow> pages_ok K (upd_ss f data) = pages_ok K data"
  by (simp add: pages_ok_def)

lemma get_upd_page [page_simps]:
  "pages_ok K data \<Longrightarrow> (\<And>p. page_base (f p) = page_base p) \<Longrightarrow>
   get_snapshot_page K b' (upd_snapshot_page K b f data) =
     (if b' = b then map_option f (get_snapshot_page K b data) else get_snapshot_page K b' data)"
  by (rule pages.get_upd)

lemmas [page_simps] = pages.upd_wf

text \<open>Everything but the page table and the dirty list is the same.\<close>

definition same_but_pages :: "task_data \<Rightarrow> task_data \<Rightarrow> bool" where
  "same_but_pages data data' \<longleftrightarrow>
     tsk data' = tsk data \<and> config data' = config data \<and> status (ss data') = status (ss data) \<and>
     oldbrk (ss data') = oldbrk (ss data) \<and> all_vmas (ss data') = all_vmas (ss data) \<and>
     snapshotted_vmas (ss data') = snapshotted_vmas (ss data) \<and>
     ss_regs (ss data') = ss_regs (ss data) \<and> ss_files (ss data') = ss_files (ss data)"

lemma same_but_pages_simps [simp]:
  "same_but_pages data data"
  "same_but_pages data (upd_snapshot_page K b f data') = same_but_pages data data'"
  "same_but_pages data (hash_add K sp data') = same_but_pages data data'"
  "same_but_pages data (upd_ss (\<lambda>x. x\<lparr>dirty_pages := g x\<rparr>) data') = same_but_pages data data'"
  by (simp_all add: same_but_pages_def hash_add_def Let_def)

lemma dirty_pages_hash_add [simp]: "dirty_pages (ss (hash_add K sp data)) = dirty_pages (ss data)"
  by (simp add: hash_add_def Let_def)

lemma same_but_pages_trans: "same_but_pages a b \<Longrightarrow> same_but_pages b c \<Longrightarrow> same_but_pages a c"
  by (simp add: same_but_pages_def)

lemma same_but_pages_have: "same_but_pages a b \<Longrightarrow> have_snapshot b = have_snapshot a"
  by (simp add: same_but_pages_def have_snapshot_def)

lemma same_but_pages_fields:
  "same_but_pages a b \<Longrightarrow> tsk b = tsk a"
  "same_but_pages a b \<Longrightarrow> snapshotted_vmas (ss b) = snapshotted_vmas (ss a)"
  "same_but_pages a b \<Longrightarrow> config b = config a"
  by (simp_all add: same_but_pages_def)

lemma flush_tlb_simps [simp]:
  "mem (flush_tlb m st en s) = mem s" "tasks (flush_tlb m st en s) = tasks s"
  "td_heap (flush_tlb m st en s) = td_heap s" "alloc_next (flush_tlb m st en s) = alloc_next s"
  "current (flush_tlb m st en s) = current s"
  "tlb_flushes (flush_tlb m st en s) = tlb_flushes s @ [(m, st, en)]"
  by (simp_all add: flush_tlb_def)

section \<open>Effect of the operations\<close>

text \<open>A page added to the table, by \<open>kmalloc\<close> or by reuse, is reset to a clean state.\<close>

definition reset_page :: "snapshot_page \<Rightarrow> snapshot_page" where
  "reset_page sp = sp\<lparr>page_prot := 0, has_been_copied := False, dirty := False, in_dirty_list := False\<rparr>"

lemma reset_page_simps [simp]:
  "page_base (reset_page sp) = page_base sp" "page_data (reset_page sp) = page_data sp"
  "\<not> has_been_copied (reset_page sp)" "\<not> dirty (reset_page sp)" "\<not> in_dirty_list (reset_page sp)"
  "has_had_pte (reset_page sp) = has_had_pte sp"
  "\<not> is_snapshot_page_none_pte (reset_page sp)" "\<not> is_snapshot_page_private (reset_page sp)"
  by (simp_all add: reset_page_def page_flag_defs)

lemma add_snapshot_page_new:
  assumes "pages_ok K data" and none: "get_snapshot_page K b data = None"
    and "kmalloc_ok K (alloc_next s)"
  obtains data' sp where
    "add_snapshot_page K b reuse data s = (Some b, data', s\<lparr>alloc_next := Suc (alloc_next s)\<rparr>)"
    and "pages_ok K data'" and "page_base sp = b" and "page_data sp = None"
    and "\<And>k. get_snapshot_page K k data' =
          (if k = b then Some (reset_page sp) else get_snapshot_page K k data)"
    and "same_but_pages data data'" and "dirty_pages (ss data') = dirty_pages (ss data)"
proof -
  let ?g = "kmalloc_garbage K (alloc_next s)"
  define sp where "sp = \<lparr>page_base = b, page_prot = ?g, page_data = None,
     has_been_copied = (?g \<noteq> 0), has_had_pte = (?g \<noteq> 0), dirty = (?g \<noteq> 0), in_dirty_list = (?g \<noteq> 0)\<rparr>"
  define data' where "data' = upd_snapshot_page K b reset_page (hash_add K sp data)"
  have b: "page_base sp = b" by (simp add: sp_def)
  have r: "reset_page = (\<lambda>sp. sp\<lparr>page_prot := 0, has_been_copied := False, dirty := False,
      in_dirty_list := False\<rparr>)" by (simp add: reset_page_def fun_eq_iff)
  show ?thesis
  proof (rule that [of data' sp])
    show "add_snapshot_page K b reuse data s = (Some b, data', s\<lparr>alloc_next := Suc (alloc_next s)\<rparr>)"
      using assms by (simp add: add_snapshot_page_def kmalloc_def data'_def sp_def r Let_def)
    show "pages_ok K data'"
      using pages.wf_add_upd [of K data sp reset_page] assms(1) none b by (simp add: data'_def)
    show "get_snapshot_page K k data' = (if k = b then Some (reset_page sp) else get_snapshot_page K k data)" for k
      using pages.get_add_upd [of K data sp reset_page k] assms(1) none b by (simp add: data'_def)
    show "same_but_pages data data'" "dirty_pages (ss data') = dirty_pages (ss data)"
      by (simp_all add: data'_def)
  qed (simp_all add: sp_def)
qed

lemma add_snapshot_page_reuse:
  assumes "pages_ok K data" and "get_snapshot_page K b data = Some sp"
  shows "add_snapshot_page K b True data s = (Some b, upd_snapshot_page K b reset_page data, s)"
  using assms by (simp add: add_snapshot_page_def reset_page_def [abs_def])

lemma add_snapshot_page_oom:
  "(reuse \<Longrightarrow> get_snapshot_page K b data = None) \<Longrightarrow> \<not> kmalloc_ok K (alloc_next s) \<Longrightarrow>
   add_snapshot_page K b reuse data s = (None, data, s\<lparr>alloc_next := Suc (alloc_next s)\<rparr>)"
  by (simp add: add_snapshot_page_def kmalloc_def)

text \<open>The three outcomes of \<open>record_dirty_page\<close>.\<close>

lemma record_dirty_page_skip:
  assumes "case get_snapshot_page K b data of None \<Rightarrow> True
     | Some sp \<Rightarrow> dirty sp \<or> is_snapshot_page_none_pte sp"
  shows "record_dirty_page K b pte data s = (None, data, s)"
  using assms by (auto simp: record_dirty_page_def split: option.splits)

text \<open>What a successful call does to the page.\<close>

definition dirtied :: "mem \<Rightarrow> pte \<Rightarrow> snapshot_page \<Rightarrow> snapshot_page" where
  "dirtied M pte sp =
     (if has_been_copied sp then sp\<lparr>dirty := True, in_dirty_list := True\<rparr>
      else sp\<lparr>dirty := True, in_dirty_list := True,
              page_data := Some (frames M (pte_pfn pte)), has_been_copied := True\<rparr>)"

lemma dirtied_simps [simp]:
  "page_base (dirtied M pte sp) = page_base sp" "dirty (dirtied M pte sp)"
  "in_dirty_list (dirtied M pte sp)" "has_been_copied (dirtied M pte sp)"
  "is_snapshot_page_none_pte (dirtied M pte sp) = is_snapshot_page_none_pte sp"
  "is_snapshot_page_private (dirtied M pte sp) = is_snapshot_page_private sp"
  "has_had_pte (dirtied M pte sp) = has_had_pte sp"
  "page_data (dirtied M pte sp) =
     (if has_been_copied sp then page_data sp else Some (frames M (pte_pfn pte)))"
  by (simp_all add: dirtied_def)

lemma record_dirty_page_record:
  assumes ok: "pages_ok K data" and sp: "get_snapshot_page K b data = Some sp"
    and "\<not> dirty sp" and "\<not> is_snapshot_page_none_pte sp" and "no_oom K"
  obtains data' s' where "record_dirty_page K b pte data s = (Some b, data', s')"
    and "pages_ok K data'"
    and "\<And>k. get_snapshot_page K k data' =
           (if k = b then Some (dirtied (mem s) pte sp) else get_snapshot_page K k data)"
    and "dirty_pages (ss data') =
           (if in_dirty_list sp then dirty_pages (ss data) else dirty_pages (ss data) @ [b])"
    and "same_but_pages data data'"
    and "\<exists>n. s' = s\<lparr>alloc_next := n\<rparr>"
proof -
  define data1 where "data1 = upd_snapshot_page K b (\<lambda>p. p\<lparr>dirty := True\<rparr>) data"
  define data2 where "data2 = (if in_dirty_list sp then data1
     else upd_ss (\<lambda>x. x\<lparr>dirty_pages := dirty_pages x @ [b]\<rparr>)
            (upd_snapshot_page K b (\<lambda>p. p\<lparr>in_dirty_list := True\<rparr>) data1))"
  define data' where "data' = (if has_been_copied sp then data2
     else upd_snapshot_page K b (\<lambda>p. p\<lparr>page_data := Some (frames (mem s) (pte_pfn pte)),
            has_been_copied := True\<rparr>) data2)"
  define s' where "s' = (if has_been_copied sp \<or> page_data sp \<noteq> None then s
     else s\<lparr>alloc_next := Suc (alloc_next s)\<rparr>)"
  have run: "record_dirty_page K b pte data s = (Some b, data', s')"
    using assms
    by (simp add: record_dirty_page_def data'_def data2_def data1_def s'_def Let_def
          split: option.split)
  have ok': "pages_ok K data1" "pages_ok K data2" "pages_ok K data'"
    using ok by (simp_all add: data1_def data2_def data'_def page_simps)
  have get1: "get_snapshot_page K k data1 = (if k = b then Some (sp\<lparr>dirty := True\<rparr>)
     else get_snapshot_page K k data)" for k
    using ok sp by (simp add: data1_def page_simps)
  have get2: "get_snapshot_page K k data2 = (if k = b then Some (sp\<lparr>dirty := True, in_dirty_list := True\<rparr>)
     else get_snapshot_page K k data)" for k
    using ok' get1 by (auto simp: data2_def page_simps)
  have get': "get_snapshot_page K k data' = (if k = b then Some (dirtied (mem s) pte sp)
     else get_snapshot_page K k data)" for k
    using ok' get2 by (auto simp: data'_def page_simps dirtied_def)
  have form: "same_but_pages data data'"
    by (simp add: data'_def data2_def data1_def)
  have "s' = s\<lparr>alloc_next := alloc_next s'\<rparr>" by (simp add: s'_def)
  then have "\<exists>n. s' = s\<lparr>alloc_next := n\<rparr>" ..
  then show ?thesis
    using run ok'(3) get' form
    by (intro that [of data' s']) (auto simp: data'_def data2_def data1_def)
qed

end
