(* ===== verification/Memory_Hooks.thy ===== *)
theory Memory_Hooks
  imports Snapshot_Pages
begin

text \<open>
  The three ftrace hooks of \<open>src/memory.c\<close> and the loop of \<open>recover_memory_snapshot\<close>
  over the dirty list. The hooks run inside the page fault and \<open>munmap\<close> code of the
  kernel: \<open>do_wp_page_hook\<close> before \<open>do_wp_page\<close>, which it may replace,
  \<open>page_add_new_anon_rmap_hook\<close> when an anonymous page has been mapped, and
  \<open>do_munmap_hook\<close> (the source's \<open>__do_munmap_hook\<close>) before a range is unmapped.
\<close>

section \<open>Walking the page table by hand\<close>

definition entry_unusable :: "table_entry \<Rightarrow> bool" where
  "entry_unusable e \<longleftrightarrow> e = Entry_none \<or> e = Entry_bad"

text \<open>A \<open>pte_t *\<close> is the base address of the page whose slot it points to.\<close>

definition walk_page_table :: "mm_struct \<Rightarrow> u64 \<Rightarrow> u64 option" where
  "walk_page_table mm addr =
     (if entry_unusable (pgds mm addr) then None
      else if entry_unusable (p4ds mm addr) then None
      else if entry_unusable (puds mm addr) then None
      else if entry_unusable (pmds mm addr) then None
      else Some (addr AND PAGE_MASK))"

section \<open>The hooks\<close>

record vm_fault =
  vf_mm :: mm_id
  vf_address :: u64
  vf_orig_pte :: pte

text \<open>
  The hook on \<open>do_wp_page\<close> skips the original function by redirecting the saved
  instruction pointer to \<open>do_wp_page_stub\<close>, which returns 0.
\<close>

datatype wp_outcome = Run_original | Skip_original

definition do_wp_page_stub :: int where
  "do_wp_page_stub = 0"

definition do_wp_page_hook ::
  "'k kernel_scheme \<Rightarrow> vm_fault \<Rightarrow> 's mem_state_scheme \<Rightarrow> (wp_outcome \<times> 's mem_state_scheme) option" where
  "do_wp_page_hook K fault s =
     (let m = vf_mm fault; page_base_addr = vf_address fault AND PAGE_MASK in
      do { (found, s1) \<leftarrow> get_task_data_with_cache (mm_owner (mms (mem s) m)) s;
           (case found of
              None \<Rightarrow> Some (Run_original, s1)
            | Some d \<Rightarrow>
                do { data \<leftarrow> td_heap s1 d;
                     if \<not> have_snapshot data then Some (Run_original, s1)
                     else
                       let (sp, data1, s2) =
                             record_dirty_page K page_base_addr (vf_orig_pte fault) data s1;
                           s3 = put_td d data1 s2
                       in case sp of
                            None \<Rightarrow> Some (Run_original, s3)
                          | Some b \<Rightarrow>
                              do { page \<leftarrow> get_snapshot_page K b data1;
                                   if \<not> is_snapshot_page_private page then Some (Run_original, s3)
                                   else
                                     let entry = pte_mkwrite (vf_orig_pte fault);
                                         s4 = s3\<lparr>mem := set_pte m page_base_addr entry (mem s3)\<rparr>
                                     in Some (Skip_original,
                                          flush_tlb m page_base_addr (page_base_addr + PAGE_SIZE) s4) } }) })"

definition page_add_new_anon_rmap_hook ::
  "'k kernel_scheme \<Rightarrow> mm_id \<Rightarrow> u64 \<Rightarrow> 's mem_state_scheme \<Rightarrow> 's mem_state_scheme option" where
  "page_add_new_anon_rmap_hook K m address s =
     (let page_base_addr = address AND PAGE_MASK in
      do { (found, s1) \<leftarrow> get_task_data_with_cache (mm_owner (mms (mem s) m)) s;
           (case found of
              None \<Rightarrow> Some s1
            | Some d \<Rightarrow>
                do { data \<leftarrow> td_heap s1 d;
                     if \<not> have_snapshot data then Some s1
                     else if get_snapshot_page K page_base_addr data = None \<and>
                             \<not> is_snapshotted_address data page_base_addr then Some s1
                     else do {
                       (data1, s2) \<leftarrow>
                         (if get_snapshot_page K page_base_addr data \<noteq> None then Some (data, s1)
                          else case add_snapshot_page K page_base_addr False data s1 of
                            (None, data1, s2) \<Rightarrow> None
                          | (Some b, data1, s2) \<Rightarrow>
                              Some (upd_snapshot_page K b set_snapshot_page_none_pte data1, s2));
                       let data2 = upd_snapshot_page K page_base_addr (\<lambda>p. p\<lparr>has_had_pte := True\<rparr>) data1;
                       page \<leftarrow> get_snapshot_page K page_base_addr data2;
                       let data3 =
                         (if is_snapshot_page_none_pte page \<and> \<not> in_dirty_list page
                          then upd_ss (\<lambda>x. x\<lparr>dirty_pages := dirty_pages x @ [page_base_addr]\<rparr>)
                                 (upd_snapshot_page K page_base_addr (\<lambda>p. p\<lparr>in_dirty_list := True\<rparr>) data2)
                          else data2);
                       Some (put_td d data3 s2) } }) })"

text \<open>\<open>munmap_pte_entry\<close> over the entries that the walk visits; it always returns 0.\<close>

fun munmap_pte_entries ::
  "'k kernel_scheme \<Rightarrow> mm_id \<Rightarrow> u64 list \<Rightarrow> task_data \<Rightarrow> 's mem_state_scheme
   \<Rightarrow> task_data \<times> 's mem_state_scheme" where
  "munmap_pte_entries K m [] data s = (data, s)"
| "munmap_pte_entries K m (a # as) data s =
     (let (_, data1, s1) = record_dirty_page K a (pte_of (mem s) m a) data s
      in munmap_pte_entries K m as data1 s1)"

definition do_munmap_hook ::
  "'k kernel_scheme \<Rightarrow> mm_id \<Rightarrow> u64 \<Rightarrow> u64 \<Rightarrow> 's mem_state_scheme \<Rightarrow> 's mem_state_scheme option" where
  "do_munmap_hook K m st len s =
     (let en = st + len in
      do { (found, s1) \<leftarrow> get_task_data_with_cache (mm_owner (mms (mem s) m)) s;
           (case found of
              None \<Rightarrow> Some s1
            | Some d \<Rightarrow>
                do { data \<leftarrow> td_heap s1 d;
                     if \<not> have_snapshot data then Some s1
                     else
                       let (data1, s2) =
                             munmap_pte_entries K m (snd (range_walk K (mem s1) m st en)) data s1
                       in Some (put_td d data1 s2) }) })"

text \<open>\<open>vm_munmap\<close> as the module's own callers reach it: the hook runs first.\<close>

definition vm_munmap ::
  "'k kernel_scheme \<Rightarrow> mm_id \<Rightarrow> u64 \<Rightarrow> u64 \<Rightarrow> 's mem_state_scheme \<Rightarrow> (int \<times> 's mem_state_scheme) option" where
  "vm_munmap K m st len s =
     do { s1 \<leftarrow> do_munmap_hook K m st len s;
          let (r, M) = do_munmap K m st len (mem s1);
          Some (r, s1\<lparr>mem := M\<rparr>) }"

section \<open>Recovering the dirty pages\<close>

text \<open>
  A page without saved bytes would be copied from address 0: the kernel crashes. A fault that
  \<open>copy_to_user\<close> takes is part of what the parameter does to the memory; the hook on it finds the
  page marked dirty and does nothing. \<open>do_recover_none_pte\<close> passes the first area of the process to
  \<open>zap_page_range\<close>, which takes the address space from it and nothing else: the parameter has
  the address space itself. A process without any area, where that pointer is NULL, is left out.
\<close>

definition do_recover_page ::
  "'k kernel_scheme \<Rightarrow> mm_id \<Rightarrow> u64 \<Rightarrow> task_data \<Rightarrow> 's mem_state_scheme
   \<Rightarrow> (task_data \<times> 's mem_state_scheme) option" where
  "do_recover_page K m b data s =
     do { sp \<leftarrow> get_snapshot_page K b data;
          bytes \<leftarrow> page_data sp;
          let (r, M) = copy_to_user K m b bytes (mem s);
          Some (upd_snapshot_page K b (\<lambda>p. p\<lparr>dirty := False\<rparr>) data, s\<lparr>mem := M\<rparr>) }"

definition do_recover_none_pte ::
  "'k kernel_scheme \<Rightarrow> mm_id \<Rightarrow> u64 \<Rightarrow> 's mem_state_scheme \<Rightarrow> 's mem_state_scheme" where
  "do_recover_none_pte K m b s = s\<lparr>mem := zap_page_range K m b PAGE_SIZE (mem s)\<rparr>"

text \<open>The end of the loop body: the page leaves the dirty list.\<close>

definition unlist_page ::
  "'k kernel_scheme \<Rightarrow> u64 \<Rightarrow> task_data \<Rightarrow> task_data" where
  "unlist_page K b data =
     upd_ss (\<lambda>x. x\<lparr>dirty_pages := remove1 b (dirty_pages x)\<rparr>)
       (upd_snapshot_page K b (\<lambda>p. p\<lparr>in_dirty_list := False\<rparr>) data)"

text \<open>
  One iteration. \<open>m\<close> is the address space of the task that owns the data, \<open>cm\<close> that of the
  current task; the code uses both.
\<close>

definition recover_dirty_page ::
  "'k kernel_scheme \<Rightarrow> mm_id \<Rightarrow> mm_id \<Rightarrow> u64 \<Rightarrow> task_data \<Rightarrow> 's mem_state_scheme
   \<Rightarrow> (task_data \<times> 's mem_state_scheme) option" where
  "recover_dirty_page K m cm b data s =
     do { sp \<leftarrow> get_snapshot_page K b data;
          if dirty sp \<and> has_been_copied sp
          then do {
            (data1, s1) \<leftarrow> do_recover_page K cm b data s;
            let data2 = upd_snapshot_page K b (\<lambda>p. p\<lparr>has_had_pte := True\<rparr>) data1;
            (case walk_page_table (mms (mem s1) cm) b of
               None \<Rightarrow> Some (data2, s1)
             | Some slot \<Rightarrow>
                 let s2 = s1\<lparr>mem := ptep_set_wrprotect cm slot (mem s1)\<rparr>;
                     data3 = upd_snapshot_page K b set_snapshot_page_private data2;
                     s3 = flush_tlb m b (b + PAGE_SIZE) s2
                 in Some (unlist_page K b data3, s3)) }
          else if is_snapshot_page_private sp then Some (unlist_page K b data, s)
          else if is_snapshot_page_none_pte sp \<and> has_had_pte sp
          then let s1 = do_recover_none_pte K cm b s;
                   data1 = upd_snapshot_page K b
                     (\<lambda>p. (set_snapshot_page_none_pte p)\<lparr>has_had_pte := False\<rparr>) data
               in Some (unlist_page K b data1, s1)
          else Some (unlist_page K b data, s) }"

fun recover_dirty_pages ::
  "'k kernel_scheme \<Rightarrow> mm_id \<Rightarrow> mm_id \<Rightarrow> u64 list \<Rightarrow> task_data \<Rightarrow> 's mem_state_scheme
   \<Rightarrow> (task_data \<times> 's mem_state_scheme) option" where
  "recover_dirty_pages K m cm [] data s = Some (data, s)"
| "recover_dirty_pages K m cm (b # bs) data s =
     do { (data1, s1) \<leftarrow> recover_dirty_page K m cm b data s;
          recover_dirty_pages K m cm bs data1 s1 }"

end
