(* ===== verification/Memory_Invariant.thy ===== *)
theory Memory_Invariant
  imports Memory_Hooks
begin

text \<open>
  The invariant of the memory snapshot. While a snapshot exists every page of the process
  is in one of a few states, and the invariant says what each promises: a page that is not
  dirty still holds the bytes of the snapshot and cannot be written without a fault, a dirty
  page has its original bytes saved and is on the dirty list, and a page that had no entry
  when the snapshot was taken is untouched or listed for removal.
\<close>

section \<open>One page\<close>

text \<open>Nothing has been written to the page: reading it shows what backs the mapping.\<close>

definition untouched :: "'k kernel_scheme \<Rightarrow> mm_id \<Rightarrow> mem \<Rightarrow> u64 \<Rightarrow> bool" where
  "untouched K m M b \<longleftrightarrow>
     (pte_present (pte_of M m b) \<longrightarrow>
        \<not> pte_rw (pte_of M m b) \<and> \<not> anon_page M m b \<and> content M m b = backing K m b)"

text \<open>
  \<open>orig\<close> holds the bytes of a page that had an entry when the snapshot was taken,
  \<open>wanted\<close> tells a page that had none and has to be empty again after a restore,
  \<open>listed\<close> whether it is on the dirty list.
\<close>

definition page_ok ::
  "'k kernel_scheme \<Rightarrow> mm_id \<Rightarrow> page option \<Rightarrow> bool \<Rightarrow> bool \<Rightarrow> snapshot_page option \<Rightarrow> mem \<Rightarrow> u64 \<Rightarrow> bool" where
  "page_ok K m orig wanted listed spo M b \<longleftrightarrow>
     (case spo of
        None \<Rightarrow> \<not> listed \<and> orig = None \<and> (wanted \<longrightarrow> untouched K m M b)
      | Some sp \<Rightarrow>
          in_dirty_list sp = listed \<and> page_aligned b \<and>
          (if is_snapshot_page_none_pte sp
           then orig = None \<and> \<not> is_snapshot_page_private sp \<and> \<not> dirty sp \<and>
                (listed \<or> untouched K m M b) \<and> (listed \<longrightarrow> has_had_pte sp)
           else orig \<noteq> None \<and> \<not> wanted \<and> (has_been_copied sp \<longrightarrow> page_data sp = orig) \<and>
                (dirty sp \<longrightarrow> has_been_copied sp \<and> listed) \<and>
                (\<not> dirty sp \<longrightarrow>
                   pte_present (pte_of M m b) \<and> \<not> pte_rw (pte_of M m b) \<and> Some (content M m b) = orig \<and>
                   (is_snapshot_page_private sp \<longrightarrow> exclusive M m b \<and> anon_page M m b))))"

text \<open>A page about which the invariant says nothing that a write could break.\<close>

definition writable_ok :: "bool \<Rightarrow> bool \<Rightarrow> snapshot_page option \<Rightarrow> bool" where
  "writable_ok wanted listed spo \<longleftrightarrow>
     (case spo of
        None \<Rightarrow> \<not> wanted
      | Some sp \<Rightarrow> if is_snapshot_page_none_pte sp then listed else dirty sp)"

lemma page_ok_writable_ok:
  "page_ok K m orig wanted listed spo M b \<Longrightarrow> pte_present (pte_of M m b) \<Longrightarrow> pte_rw (pte_of M m b) \<Longrightarrow>
   writable_ok wanted listed spo"
  by (auto simp: page_ok_def writable_ok_def untouched_def split: option.splits if_splits)

lemma page_ok_any_mem:
  "page_ok K m orig wanted listed spo M b \<Longrightarrow> writable_ok wanted listed spo \<Longrightarrow>
   page_ok K m orig wanted listed spo M' b"
  by (auto simp: page_ok_def writable_ok_def split: option.splits if_splits)

lemma page_ok_cong:
  assumes "pte_of M' m b = pte_of M m b"
    and "pte_present (pte_of M m b) \<Longrightarrow> content M' m b = content M m b"
    and "pte_present (pte_of M m b) \<Longrightarrow> anon_page M' m b = anon_page M m b"
    and "pte_present (pte_of M m b) \<Longrightarrow> anon_page M m b \<Longrightarrow> exclusive M m b \<Longrightarrow> exclusive M' m b"
  shows "page_ok K m orig wanted listed spo M b \<Longrightarrow> page_ok K m orig wanted listed spo M' b"
  using assms by (auto simp: page_ok_def untouched_def split: option.splits if_splits)

text \<open>A change to one page leaves the promises about every other page intact.\<close>

lemma page_ok_only_page:
  assumes "only_page m' a M M'" and "(m, b) \<noteq> (m', a)"
    and "pte_present (pte_of M' m' a) \<Longrightarrow> exclusive M' m' a \<or> \<not> anon_page M' m' a"
  shows "page_ok K m orig wanted listed spo M b \<Longrightarrow> page_ok K m orig wanted listed spo M' b"
  using exclusive_only_page [OF assms(1) _ assms(2,3)]
  by (rule_tac page_ok_cong [rotated -1, of _ _ _ _ _ _ M])
    (auto simp: only_page_pte [OF assms(1,2)] only_page_content [OF assms(1,2)])

section \<open>All pages of an address space\<close>

definition page_inv ::
  "'k kernel_scheme \<Rightarrow> mm_id \<Rightarrow> (u64 \<Rightarrow> page option) \<Rightarrow> u64 set \<Rightarrow> task_data \<Rightarrow> mem \<Rightarrow> bool" where
  "page_inv K m orig U data M \<longleftrightarrow>
     pages_ok K data \<and> distinct (dirty_pages (ss data)) \<and>
     (\<forall>b \<in> U. is_snapshotted_address data b) \<and>
     (\<forall>b. page_ok K m (orig b) (b \<in> U) (b \<in> set (dirty_pages (ss data)))
            (get_snapshot_page K b data) M b)"

abbreviation page_ok_at ::
  "'k kernel_scheme \<Rightarrow> mm_id \<Rightarrow> (u64 \<Rightarrow> page option) \<Rightarrow> u64 set \<Rightarrow> task_data \<Rightarrow> mem \<Rightarrow> u64 \<Rightarrow> bool" where
  "page_ok_at K m orig U data M b \<equiv>
     page_ok K m (orig b) (b \<in> U) (b \<in> set (dirty_pages (ss data))) (get_snapshot_page K b data) M b"

abbreviation writable_at :: "'k kernel_scheme \<Rightarrow> u64 set \<Rightarrow> task_data \<Rightarrow> u64 \<Rightarrow> bool" where
  "writable_at K U data b \<equiv>
     writable_ok (b \<in> U) (b \<in> set (dirty_pages (ss data))) (get_snapshot_page K b data)"

lemma page_inv_at: "page_inv K m orig U data M \<Longrightarrow> page_ok_at K m orig U data M b"
  by (simp add: page_inv_def)

lemma page_invD:
  "page_inv K m orig U data M \<Longrightarrow> pages_ok K data"
  "page_inv K m orig U data M \<Longrightarrow> distinct (dirty_pages (ss data))"
  "page_inv K m orig U data M \<Longrightarrow> b \<in> U \<Longrightarrow> is_snapshotted_address data b"
  by (simp_all add: page_inv_def)

lemma page_inv_mem:
  assumes "page_inv K m orig U data M"
    and "\<And>b. page_ok_at K m orig U data M b \<Longrightarrow> page_ok_at K m orig U data M' b"
  shows "page_inv K m orig U data M'"
  using assms by (simp add: page_inv_def)

lemma page_inv_only_page:
  assumes inv: "page_inv K m orig U data M" and only: "only_page m' a M M'"
    and ex: "pte_present (pte_of M' m' a) \<Longrightarrow> exclusive M' m' a \<or> \<not> anon_page M' m' a"
    and at: "m' = m \<Longrightarrow> page_ok_at K m orig U data M' a"
  shows "page_inv K m orig U data M'"
  using inv
proof (rule page_inv_mem)
  fix b assume b: "page_ok_at K m orig U data M b"
  show "page_ok_at K m orig U data M' b"
  proof (cases "(m, b) = (m', a)")
    case True
    then show ?thesis using at by simp
  next
    case False
    show ?thesis using only False ex b by (rule page_ok_only_page)
  qed
qed

text \<open>Two task data that differ in one page entry.\<close>

lemma page_inv_upd:
  assumes inv: "page_inv K m orig U data M" and "pages_ok K data'"
    and get: "\<And>k. k \<noteq> b \<Longrightarrow> get_snapshot_page K k data' = get_snapshot_page K k data"
    and list: "\<And>k. k \<noteq> b \<Longrightarrow> k \<in> set (dirty_pages (ss data')) \<longleftrightarrow> k \<in> set (dirty_pages (ss data))"
    and "distinct (dirty_pages (ss data'))" and "same_but_pages data data'"
    and at: "page_ok_at K m orig U data' M b"
  shows "page_inv K m orig U data' M"
proof -
  have "page_ok_at K m orig U data' M k" for k
    using page_inv_at [OF inv, of k] at get [of k] list [of k] by (cases "k = b") simp_all
  then show ?thesis
    using assms(2,5,6) page_invD(3) [OF inv]
    by (simp add: page_inv_def is_snapshotted_address_def same_but_pages_def)
qed


section \<open>Saving a page\<close>

text \<open>
  \<open>record_dirty_page\<close> called with the entry of the page keeps the invariant and leaves the
  page free to be written, unless it is a page that had no entry in the snapshot.
\<close>

lemma record_dirty_page_inv:
  assumes inv: "page_inv K m orig U data M" and "no_oom K" and M: "mem s = M"
  obtains r data' s' where
    "record_dirty_page K b (pte_of M m b) data s = (r, data', s')"
    and "page_inv K m orig U data' M" and "same_but_pages data data'"
    and "\<exists>n \<ge> alloc_next s. s' = s\<lparr>alloc_next := n\<rparr>"
    and "\<And>sp. get_snapshot_page K b data' = Some sp \<Longrightarrow> is_snapshot_page_none_pte sp \<or> dirty sp"
    and "\<And>k. k \<noteq> b \<Longrightarrow> get_snapshot_page K k data' = get_snapshot_page K k data"
    and "\<And>c. r = Some c \<Longrightarrow> c = b \<and> writable_at K U data' b \<and>
           (\<exists>sp. get_snapshot_page K b data' = Some sp \<and>
             (is_snapshot_page_private sp \<longrightarrow> exclusive M m b \<and> anon_page M m b))"
proof (cases "case get_snapshot_page K b data of None \<Rightarrow> True
     | Some sp \<Rightarrow> dirty sp \<or> is_snapshot_page_none_pte sp")
  case True
  moreover have "\<exists>n \<ge> alloc_next s. s = s\<lparr>alloc_next := n\<rparr>" by (rule exI [of _ "alloc_next s"]) simp
  ultimately show ?thesis
    using inv by (intro that [of None data s] record_dirty_page_skip) (auto split: option.splits)
next
  case False
  then obtain sp where sp: "get_snapshot_page K b data = Some sp" "\<not> dirty sp" "\<not> is_snapshot_page_none_pte sp"
    by (auto split: option.splits)
  note b = page_inv_at [OF inv, of b, unfolded page_ok_def sp(1) option.simps]
  obtain data' s' where run: "record_dirty_page K b (pte_of M m b) data s = (Some b, data', s')"
    and ok: "pages_ok K data'"
    and get: "\<And>k. get_snapshot_page K k data' =
           (if k = b then Some (dirtied (mem s) (pte_of M m b) sp) else get_snapshot_page K k data)"
    and list: "dirty_pages (ss data') =
           (if in_dirty_list sp then dirty_pages (ss data) else dirty_pages (ss data) @ [b])"
    and same: "same_but_pages data data'" and alloc: "\<exists>n. s' = s\<lparr>alloc_next := n\<rparr>"
    by (rule record_dirty_page_record [OF page_invD(1) [OF inv] sp(1,2,3) assms(2),
          where pte = "pte_of M m b" and s = s]) blast
  have listed: "in_dirty_list sp \<longleftrightarrow> b \<in> set (dirty_pages (ss data))" using b by simp
  have at: "page_ok_at K m orig U data' M b"
    using b sp listed by (auto simp: page_ok_def get list M content_def)
  have inv': "page_inv K m orig U data' M"
    using inv ok _ _ _ same at
    by (rule page_inv_upd) (use get listed list page_invD(2) [OF inv] in auto)
  have "alloc_next s \<le> alloc_next s'"
    using run by (auto simp: record_dirty_page_def Let_def sp kmalloc_def split: if_splits prod.splits)
  with alloc have alloc': "\<exists>n \<ge> alloc_next s. s' = s\<lparr>alloc_next := n\<rparr>" by auto
  show ?thesis
    using run inv' same alloc' get b sp
    by (intro that [of "Some b" data' s']) (auto simp: writable_ok_def)
qed

section \<open>The whole machine\<close>

text \<open>
  \<open>G m\<close> gives, for the process with address space \<open>m\<close>, the original bytes of its pages
  and the pages that had no entry when its snapshot was taken. Registered tasks own at most
  one address space.
\<close>

type_synonym ghost = "mm_id \<Rightarrow> (u64 \<Rightarrow> page option) \<times> u64 set"

abbreviation owner :: "'s mem_state_scheme \<Rightarrow> mm_id \<Rightarrow> task" where
  "owner s m \<equiv> mm_owner (mms (mem s) m)"

definition sys_inv :: "'k kernel_scheme \<Rightarrow> ghost \<Rightarrow> 's mem_state_scheme \<Rightarrow> bool" where
  "sys_inv K G s \<longleftrightarrow>
     registry_ok s \<and> cache_ok K s \<and> mem_wf (mem s) \<and>
     (\<forall>m m'. registry_map s (owner s m) \<noteq> None \<longrightarrow> owner s m' = owner s m \<longrightarrow> m' = m) \<and>
     (\<forall>m d data. registry_map s (owner s m) = Some d \<longrightarrow> td_heap s d = Some data \<longrightarrow>
        have_snapshot data \<longrightarrow> page_inv K m (fst (G m)) (snd (G m)) data (mem s))"

lemma sys_invD:
  "sys_inv K G s \<Longrightarrow> registry_ok s" "sys_inv K G s \<Longrightarrow> cache_ok K s"
  "sys_inv K G s \<Longrightarrow> mem_wf (mem s)"
  "sys_inv K G s \<Longrightarrow> registry_map s (owner s m) = Some d \<Longrightarrow> td_heap s d = Some data \<Longrightarrow>
   have_snapshot data \<Longrightarrow> page_inv K m (fst (G m)) (snd (G m)) data (mem s)"
  "sys_inv K G s \<Longrightarrow> registry_map s (owner s m) = Some d \<Longrightarrow> registry_map s (owner s m') = Some d \<Longrightarrow> m' = m"
proof -
  assume inv: "sys_inv K G s"
  then show "registry_ok s" "cache_ok K s" "mem_wf (mem s)" by (simp_all add: sys_inv_def)
  show "registry_map s (owner s m) = Some d \<Longrightarrow> td_heap s d = Some data \<Longrightarrow>
   have_snapshot data \<Longrightarrow> page_inv K m (fst (G m)) (snd (G m)) data (mem s)"
    using inv by (simp add: sys_inv_def)
  assume d: "registry_map s (owner s m) = Some d" and d': "registry_map s (owner s m') = Some d"
  have "owner_of s d = owner s m" "owner_of s d = owner s m'"
    using d d' registry_map_eq_Some_iff [of s] inv by (simp_all add: sys_inv_def)
  then have "owner s m' = owner s m" by simp
  with inv d show "m' = m" unfolding sys_inv_def by (metis option.distinct(1))
qed

lemma sys_inv_registry_cong:
  assumes "sys_inv K G s" and "registry_ok s'" and "cache_ok K s'"
    and "registry_map s' = registry_map s" and "td_heap s' = td_heap s" and "mem s' = mem s"
  shows "sys_inv K G s'"
  using assms unfolding sys_inv_def by simp

lemma cache_ok_cong:
  assumes "last_task s' = last_task s" and "last_task_data s' = last_task_data s"
    and "this_cpu s' = this_cpu s" and "registry_map s' = registry_map s"
    and "\<And>t d. registry_map s t = Some d \<Longrightarrow>
           have_snapshot (the (td_heap s' d)) \<Longrightarrow> have_snapshot (the (td_heap s d))"
  shows "cache_ok K s \<Longrightarrow> cache_ok K s'"
  using cache_entry_ok_cong [of s' _ s] assms unfolding cache_ok_def by metis

lemma sys_inv_alloc:
  assumes inv: "sys_inv K G s" and "alloc_next s \<le> n"
  shows "sys_inv K G (s\<lparr>alloc_next := n\<rparr>)"
  using inv
proof (rule sys_inv_registry_cong)
  let ?s = "s\<lparr>alloc_next := n\<rparr>"
  have o: "owner_of ?s = owner_of s" by (simp add: owner_of_def fun_eq_iff)
  show r: "registry_map ?s = registry_map s" by (rule registry_map_cong) (simp_all add: o)
  show "registry_ok ?s"
    using sys_invD(1) [OF inv] by (rule registry_ok_cong [rotated -1]) (simp_all add: o assms(2))
  show "cache_ok K ?s"
    using sys_invD(2) [OF inv] by (rule cache_ok_cong [rotated -1]) (simp_all add: r)
qed simp_all

lemma sys_inv_tlb:
  assumes inv: "sys_inv K G s"
  shows "sys_inv K G (flush_tlb m st en s)"
  using inv
proof (rule sys_inv_registry_cong)
  let ?s = "flush_tlb m st en s"
  have o: "owner_of ?s = owner_of s" by (simp add: owner_of_def fun_eq_iff)
  show r: "registry_map ?s = registry_map s"
    by (rule registry_map_cong) (simp_all add: o, simp add: flush_tlb_def)
  show "registry_ok ?s"
    using sys_invD(1) [OF inv]
    by (rule registry_ok_cong [rotated -1]) (simp_all add: o, simp_all add: flush_tlb_def)
  show "cache_ok K ?s"
    using sys_invD(2) [OF inv]
    by (rule cache_ok_cong [rotated -1]) (simp_all add: r, simp_all add: flush_tlb_def)
qed simp_all

text \<open>Storing new data for one process.\<close>

lemma sys_inv_put_td:
  assumes inv: "sys_inv K G s" and d: "registry_map s (owner s m) = Some d"
    and data: "td_heap s d = Some data" and same: "same_but_pages data data'"
    and inv': "page_inv K m (fst (G m)) (snd (G m)) data' (mem s)"
  shows "sys_inv K G (put_td d data' s)"
proof -
  let ?s = "put_td d data' s"
  have tsk: "tsk data' = tsk data" using same by (rule same_but_pages_fields)
  have r: "registry_map ?s = registry_map s" using data tsk by (rule registry_map_put_td)
  have mem: "mem ?s = mem s" by (simp add: put_td_def)
  have "registry_ok ?s" using sys_invD(1) [OF inv] data tsk by (rule registry_ok_put_td)
  moreover have "cache_ok K ?s"
    using sys_invD(2) [OF inv]
    by (rule cache_ok_cong [rotated -1])
      (simp_all add: r data same_but_pages_have [OF same] split: if_splits)
  moreover have "page_inv K m' (fst (G m')) (snd (G m')) x (mem s)"
    if "registry_map s (owner s m') = Some e" "td_heap ?s e = Some x" "have_snapshot x" for m' e x
  proof (cases "e = d")
    case True
    with that d inv' show ?thesis using sys_invD(5) [OF inv d, of m'] by simp
  next
    case False
    with that sys_invD(4) [OF inv that(1), of x] show ?thesis by simp
  qed
  ultimately show ?thesis
    using inv unfolding sys_inv_def r mem by blast
qed

text \<open>Changing the memory.\<close>

lemma sys_inv_mem:
  assumes inv: "sys_inv K G s" and "mem_wf M'"
    and own: "\<And>m. mm_owner (mms M' m) = owner s m"
    and step: "\<And>m d data. registry_map s (owner s m) = Some d \<Longrightarrow> td_heap s d = Some data \<Longrightarrow>
       have_snapshot data \<Longrightarrow> page_inv K m (fst (G m)) (snd (G m)) data (mem s) \<Longrightarrow>
       page_inv K m (fst (G m)) (snd (G m)) data M'"
  shows "sys_inv K G (s\<lparr>mem := M'\<rparr>)"
proof -
  let ?s = "s\<lparr>mem := M'\<rparr>"
  have o: "owner_of ?s = owner_of s" by (simp add: owner_of_def fun_eq_iff)
  have r: "registry_map ?s = registry_map s" by (rule registry_map_cong) (simp_all add: o)
  have "registry_ok ?s"
    using sys_invD(1) [OF inv] by (rule registry_ok_cong [rotated -1]) (simp_all add: o)
  moreover have "cache_ok K ?s"
    using sys_invD(2) [OF inv] by (rule cache_ok_cong [rotated -1]) (simp_all add: r)
  ultimately show ?thesis
    using inv assms(2) step sys_invD(4) [OF inv] unfolding sys_inv_def r by (simp add: own)
qed

text \<open>Changing one page: only the data of its own process matters.\<close>

lemma sys_inv_page:
  assumes inv: "sys_inv K G s" and "mem_wf M'" and only: "only_page m a (mem s) M'"
    and ex: "pte_present (pte_of M' m a) \<Longrightarrow> exclusive M' m a \<or> \<not> anon_page M' m a"
    and at: "\<And>d data. registry_map s (owner s m) = Some d \<Longrightarrow> td_heap s d = Some data \<Longrightarrow>
       have_snapshot data \<Longrightarrow> page_inv K m (fst (G m)) (snd (G m)) data (mem s) \<Longrightarrow>
       page_ok_at K m (fst (G m)) (snd (G m)) data M' a"
  shows "sys_inv K G (s\<lparr>mem := M'\<rparr>)"
  using inv assms(2)
proof (rule sys_inv_mem)
  show "mm_owner (mms M' n) = owner s n" for n using only by (rule only_page_areas)
  fix n d data
  assume d: "registry_map s (owner s n) = Some d" "td_heap s d = Some data" "have_snapshot data"
    and p: "page_inv K n (fst (G n)) (snd (G n)) data (mem s)"
  show "page_inv K n (fst (G n)) (snd (G n)) data M'"
    using p only ex by (rule page_inv_only_page) (use d p at in auto)
qed

section \<open>The hooks\<close>

lemma put_td_mem [simp]: "mem (put_td d data s) = mem s" "tasks (put_td d data s) = tasks s"
  by (simp_all add: put_td_def)

definition tracked :: "'s mem_state_scheme \<Rightarrow> mm_id \<Rightarrow> nat \<Rightarrow> task_data \<Rightarrow> bool" where
  "tracked s m d data \<longleftrightarrow>
     registry_map s (owner s m) = Some d \<and> td_heap s d = Some data \<and> have_snapshot data"

lemma tracked_td: "tracked s m d data \<Longrightarrow> td_heap s d = Some data"
  by (simp add: tracked_def)

text \<open>\<open>same_tasks\<close>: the two states register the same tasks, with the same data up to pages.\<close>

definition same_tasks :: "'s mem_state_scheme \<Rightarrow> 's mem_state_scheme \<Rightarrow> bool" where
  "same_tasks s s' \<longleftrightarrow>
     registry_map s' = registry_map s \<and> (\<forall>m. owner s' m = owner s m) \<and>
     (\<forall>e. rel_option same_but_pages (td_heap s e) (td_heap s' e))"

lemma same_tasksI:
  "registry_map s' = registry_map s \<Longrightarrow> (\<And>m. owner s' m = owner s m) \<Longrightarrow> td_heap s' = td_heap s \<Longrightarrow>
   same_tasks s s'"
  by (simp add: same_tasks_def rel_option_reflI)

lemma same_tasks_refl [simp]: "same_tasks s s"
  by (rule same_tasksI) simp_all

lemma same_tasks_trans: "same_tasks s s' \<Longrightarrow> same_tasks s' s'' \<Longrightarrow> same_tasks s s''"
  unfolding same_tasks_def
  by (auto intro: option.rel_transp [THEN transpD] transpI same_but_pages_trans)
    (metis same_but_pages_trans transpI option.rel_transp transpD)

lemma same_tasks_put_td:
  assumes "td_heap s d = Some data" and "same_but_pages data data'"
  shows "same_tasks s (put_td d data' s)"
proof -
  have "registry_map (put_td d data' s) = registry_map s"
    using assms by (intro registry_map_put_td) (auto simp: same_but_pages_fields)
  then show ?thesis using assms by (auto simp: same_tasks_def rel_option_reflI)
qed

lemma same_tasks_mem:
  assumes "\<And>m. mm_owner (mms M m) = owner s m"
  shows "same_tasks s (s\<lparr>mem := M\<rparr>)"
  using assms by (intro same_tasksI registry_map_cong) (simp_all add: owner_of_def fun_eq_iff)

lemma same_tasks_tracked: "same_tasks s s' \<Longrightarrow> tracked s m d data \<Longrightarrow> \<exists>data'. tracked s' m d data' \<and> same_but_pages data data'"
  by (auto simp: same_tasks_def tracked_def same_but_pages_have dest!: spec [of _ d] elim!: option.rel_cases)

definition open_page :: "'k kernel_scheme \<Rightarrow> ghost \<Rightarrow> 's mem_state_scheme \<Rightarrow> mm_id \<Rightarrow> u64 \<Rightarrow> bool" where
  "open_page K G s m b \<longleftrightarrow> (\<forall>d data. tracked s m d data \<longrightarrow> writable_at K (snd (G m)) data b)"

lemma sys_inv_tracked:
  "sys_inv K G s \<Longrightarrow> tracked s m d data \<Longrightarrow> page_inv K m (fst (G m)) (snd (G m)) data (mem s)"
  by (auto simp: tracked_def dest: sys_invD(4))

lemma tracked_put_td:
  assumes "tracked s m d data" and "same_but_pages data data'"
  shows "tracked (put_td d data' s) m e x \<longleftrightarrow> e = d \<and> x = data'"
proof -
  have r: "registry_map (put_td d data' s) = registry_map s"
    using assms by (intro registry_map_put_td) (auto simp: tracked_def same_but_pages_fields)
  have mem: "mem (put_td d data' s) = mem s" by (simp add: put_td_def)
  show ?thesis
    using assms by (auto simp: tracked_def r mem same_but_pages_have)
qed

lemma sys_inv_open_page:
  assumes inv: "sys_inv K G s" and op: "open_page K G s m a"
    and M': "mem_wf M'" "only_page m a (mem s) M'" "pte_rw (pte_of M' m a)"
  shows "sys_inv K G (s\<lparr>mem := M'\<rparr>)"
  using inv M'(1,2)
proof (rule sys_inv_page)
  show "pte_present (pte_of M' m a) \<Longrightarrow> exclusive M' m a \<or> \<not> anon_page M' m a"
    using mem_wf_exclusive(1) [OF M'(1) _ M'(3)] by simp
  fix d data
  assume "registry_map s (owner s m) = Some d" "td_heap s d = Some data" "have_snapshot data"
    and p: "page_inv K m (fst (G m)) (snd (G m)) data (mem s)"
  then have "writable_at K (snd (G m)) data a" using op by (simp add: open_page_def tracked_def)
  with page_inv_at [OF p] show "page_ok_at K m (fst (G m)) (snd (G m)) data M' a"
    by (rule page_ok_any_mem)
qed

text \<open>A cached lookup finds the data of a process that has a snapshot.\<close>

lemma sys_inv_lookup:
  assumes inv: "sys_inv K G s"
  obtains r s1 where "get_task_data_with_cache (owner s m) s = Some (r, s1)"
    and "sys_inv K G s1" and "mem s1 = mem s" and "alloc_next s1 = alloc_next s"
    and "\<And>d data. tracked s1 m d data = tracked s m d data" and "same_tasks s s1"
    and "(\<exists>d data. r = Some d \<and> tracked s1 m d data) \<or>
         (\<forall>d data. \<not> tracked s1 m d data) \<and>
           (r = None \<or> (\<exists>d data. r = Some d \<and> td_heap s1 d = Some data \<and> \<not> have_snapshot data))"
proof -
  obtain r s1 where g: "get_task_data_with_cache (owner s m) s = Some (r, s1)"
    and ok: "registry_ok s1" "cache_ok K s1" "registry_map s1 = registry_map s" "td_heap s1 = td_heap s"
    and r: "r = registry_map s (owner s m) \<or>
         r = None \<and> (\<exists>d. registry_map s (owner s m) = Some d \<and> \<not> have_snapshot (the (td_heap s d)))"
    and s1: "\<exists>lt ld. s1 = s\<lparr>last_task := lt, last_task_data := ld\<rparr>"
    by (rule get_with_cache_cases [OF sys_invD(1,2) [OF inv], where t = "owner s m"]) blast
  have mem: "mem s1 = mem s" "alloc_next s1 = alloc_next s" using s1 by auto
  have tr: "tracked s1 m d data = tracked s m d data" for d data
    by (simp add: tracked_def ok(3,4) mem)
  have "(\<exists>d data. r = Some d \<and> tracked s1 m d data) \<or>
         (\<forall>d data. \<not> tracked s1 m d data) \<and>
           (r = None \<or> (\<exists>d data. r = Some d \<and> td_heap s1 d = Some data \<and> \<not> have_snapshot data))"
  proof (cases "registry_map s (owner s m)")
    case None
    with r show ?thesis unfolding tr by (auto simp: tracked_def)
  next
    case (Some d)
    obtain data where "td_heap s d = Some data"
      by (rule registry_map_SomeD [OF sys_invD(1) [OF inv] Some])
    with Some r show ?thesis unfolding tr by (auto simp: tracked_def ok(4))
  qed
  moreover have "same_tasks s s1" using ok(3,4) mem by (intro same_tasksI) simp_all
  ultimately show ?thesis
    using g ok mem tr by (intro that [of r s1] sys_inv_registry_cong [OF inv]) auto
qed

text \<open>The write-fault hook.\<close>

lemma do_wp_page_hook_inv:
  assumes inv: "sys_inv K G s" and oom: "no_oom K"
    and p: "pte_present (pte_of (mem s) m b)" and b: "b = addr AND PAGE_MASK"
  obtains r s' where
    "do_wp_page_hook K \<lparr>vf_mm = m, vf_address = addr, vf_orig_pte = pte_of (mem s) m b\<rparr> s = Some (r, s')"
    and "sys_inv K G s'" and "same_tasks s s'"
    and "r = Run_original \<Longrightarrow> mem s' = mem s"
    and "\<And>d data sp. tracked s' m d data \<Longrightarrow> get_snapshot_page K b data = Some sp \<Longrightarrow>
           is_snapshot_page_none_pte sp \<or> dirty sp"
    and "r = Skip_original \<Longrightarrow> only_page m b (mem s) (mem s') \<and>
           pte_rw (pte_of (mem s') m b) \<and> open_page K G s' m b"
proof -
  let ?f = "\<lparr>vf_mm = m, vf_address = addr, vf_orig_pte = pte_of (mem s) m b\<rparr>"
  obtain r s1 where g: "get_task_data_with_cache (owner s m) s = Some (r, s1)"
    and inv1: "sys_inv K G s1" and mem1: "mem s1 = mem s" and same1: "same_tasks s s1"
    and r: "(\<exists>d data. r = Some d \<and> tracked s1 m d data) \<or>
         (\<forall>d data. \<not> tracked s1 m d data) \<and>
           (r = None \<or> (\<exists>d data. r = Some d \<and> td_heap s1 d = Some data \<and> \<not> have_snapshot data))"
    by (rule sys_inv_lookup [OF inv, of m]) blast
  from r show ?thesis
  proof
    assume none: "(\<forall>d data. \<not> tracked s1 m d data) \<and>
           (r = None \<or> (\<exists>d data. r = Some d \<and> td_heap s1 d = Some data \<and> \<not> have_snapshot data))"
    then have "do_wp_page_hook K ?f s = Some (Run_original, s1)"
      by (auto simp: do_wp_page_hook_def g)
    then show ?thesis using that [of Run_original s1] inv1 mem1 none same1 by simp
  next
    assume "\<exists>d data. r = Some d \<and> tracked s1 m d data"
    then obtain d data where d: "r = Some d" and tr: "tracked s1 m d data" by blast
    then have td: "td_heap s1 d = Some data" "have_snapshot data"
      "registry_map s1 (owner s1 m) = Some d"
      by (simp_all add: tracked_def)
    note pinv = sys_inv_tracked [OF inv1 tr]
    obtain c data' s2 where rec: "record_dirty_page K b (pte_of (mem s1) m b) data s1 = (c, data', s2)"
      and pinv': "page_inv K m (fst (G m)) (snd (G m)) data' (mem s1)" and same: "same_but_pages data data'"
      and s2: "\<exists>n \<ge> alloc_next s1. s2 = s1\<lparr>alloc_next := n\<rparr>"
      and dirty: "\<And>sp. get_snapshot_page K b data' = Some sp \<Longrightarrow> is_snapshot_page_none_pte sp \<or> dirty sp"
      and some: "\<And>x. c = Some x \<Longrightarrow> x = b \<and> writable_at K (snd (G m)) data' b \<and>
           (\<exists>sp. get_snapshot_page K b data' = Some sp \<and>
             (is_snapshot_page_private sp \<longrightarrow> exclusive (mem s1) m b \<and> anon_page (mem s1) m b))"
      by (rule record_dirty_page_inv [OF pinv oom refl, where b = b]) blast
    obtain n where n: "s2 = s1\<lparr>alloc_next := n\<rparr>" "n \<ge> alloc_next s1" using s2 by blast
    let ?s3 = "put_td d data' s2"
    have inv2: "sys_inv K G s2" unfolding n(1) using inv1 n(2) by (rule sys_inv_alloc)
    have r2: "registry_map s2 = registry_map s1"
      by (rule registry_map_cong) (simp_all add: n owner_of_def fun_eq_iff)
    have tr2: "tracked s2 m d data" using tr by (simp add: tracked_def r2) (simp add: n)
    have inv3: "sys_inv K G ?s3"
      using inv2 _ _ same by (rule sys_inv_put_td [of K G s2 m])
        (use tr2 pinv' in \<open>simp_all add: tracked_def n\<close>)
    note tr3 = tracked_put_td [OF tr2 same]
    have "same_tasks s1 s2" by (rule same_tasksI) (simp_all add: r2, simp_all add: n)
    then have same3: "same_tasks s ?s3"
      using same1 same_tasks_put_td [OF _ same] tr2 by (blast intro: same_tasks_trans dest: tracked_td)
    have mem3: "mem ?s3 = mem s" by (simp add: put_td_def n mem1)
    show ?thesis
    proof (cases "\<exists>sp. c = Some b \<and> get_snapshot_page K b data' = Some sp \<and> is_snapshot_page_private sp")
      case False
      have "do_wp_page_hook K ?f s = Some (Run_original, ?s3)"
        using some False rec mem1 b
        by (cases c) (auto simp: do_wp_page_hook_def g d td Let_def split: option.split)
      then show ?thesis using that [of Run_original ?s3] inv3 mem3 dirty tr3 same3 by simp
    next
      case True
      then obtain sp where sp: "c = Some b" "get_snapshot_page K b data' = Some sp"
        "is_snapshot_page_private sp" by blast
      with some have ex: "exclusive (mem s) m b" "anon_page (mem s) m b" "writable_at K (snd (G m)) data' b"
        by (auto simp: mem1)
      define M' where "M' = set_pte m b (pte_mkwrite (pte_of (mem s) m b)) (mem s)"
      let ?s5 = "flush_tlb m b (b + PAGE_SIZE) (?s3\<lparr>mem := M'\<rparr>)"
      have run: "do_wp_page_hook K ?f s = Some (Skip_original, ?s5)"
        using rec mem1 b sp by (simp add: do_wp_page_hook_def g d td Let_def M'_def mem3 put_td_def n)
      have wf: "mem_wf M'"
        unfolding M'_def using ex sys_invD(3) [OF inv] by (intro mem_wf_set_pte_flag) simp_all
      have only: "only_page m b (mem s) M'"
        by (auto simp: M'_def only_page_def content_set_pte_flag)
      have op: "open_page K G ?s3 m b" using ex(3) by (simp add: open_page_def tr3)
      have inv4: "sys_inv K G (?s3\<lparr>mem := M'\<rparr>)"
        using inv3 op wf by (rule sys_inv_open_page) (simp_all add: n mem1 only, simp add: M'_def)
      have own: "owner ?s5 m = owner s m" by (simp add: M'_def)
      have tr5: "tracked ?s5 m e x = tracked ?s3 m e x" for e x
      proof -
        have "registry_map ?s5 = registry_map ?s3"
          by (rule registry_map_cong) (simp_all add: owner_of_def fun_eq_iff, simp_all add: flush_tlb_def)
        then show ?thesis by (simp add: tracked_def own n mem1) (simp add: flush_tlb_def M'_def)
      qed
      have "open_page K G ?s5 m b" using op by (simp add: open_page_def tr5)
      moreover have "same_tasks ?s3 ?s5"
      proof -
        have "same_tasks ?s3 (?s3\<lparr>mem := M'\<rparr>)"
          by (rule same_tasks_mem) (simp add: M'_def n mem1)
        moreover have "same_tasks (?s3\<lparr>mem := M'\<rparr>) ?s5"
          by (intro same_tasksI registry_map_cong) (simp_all add: owner_of_def fun_eq_iff, simp_all add: flush_tlb_def)
        ultimately show ?thesis by (rule same_tasks_trans)
      qed
      then have "same_tasks s ?s5" using same3 same_tasks_trans by blast
      ultimately show ?thesis
        using that [of Skip_original ?s5] run sys_inv_tlb [OF inv4] dirty tr5 tr3 only
        by (simp add: M'_def)
    qed
  qed
qed

text \<open>
  The hook on new anonymous pages. What it does to a page entry, with the dirty list, once
  the entry is there.
\<close>

definition mark_had_pte :: "'k kernel_scheme \<Rightarrow> u64 \<Rightarrow> task_data \<Rightarrow> snapshot_page \<Rightarrow> task_data" where
  "mark_had_pte K b data sp =
     (let data2 = upd_snapshot_page K b (\<lambda>p. p\<lparr>has_had_pte := True\<rparr>) data in
      if is_snapshot_page_none_pte sp \<and> \<not> in_dirty_list sp
      then upd_ss (\<lambda>x. x\<lparr>dirty_pages := dirty_pages x @ [b]\<rparr>)
             (upd_snapshot_page K b (\<lambda>p. p\<lparr>in_dirty_list := True\<rparr>) data2)
      else data2)"

lemma mark_had_pte_facts:
  assumes ok: "pages_ok K data" and sp: "get_snapshot_page K b data = Some sp"
  shows "pages_ok K (mark_had_pte K b data sp)"
    and "get_snapshot_page K k (mark_had_pte K b data sp) =
           (if k = b then Some (if is_snapshot_page_none_pte sp
                                then sp\<lparr>has_had_pte := True, in_dirty_list := True\<rparr>
                                else sp\<lparr>has_had_pte := True\<rparr>)
            else get_snapshot_page K k data)"
    and "dirty_pages (ss (mark_had_pte K b data sp)) =
           (if is_snapshot_page_none_pte sp \<and> \<not> in_dirty_list sp then dirty_pages (ss data) @ [b]
            else dirty_pages (ss data))"
    and "same_but_pages data0 (mark_had_pte K b data sp) = same_but_pages data0 data"
  using ok sp by (auto simp: mark_had_pte_def Let_def page_simps)

lemma mark_had_pte_inv:
  assumes inv: "page_inv K m orig U data M" and sp: "get_snapshot_page K b data = Some sp"
    and "is_snapshot_page_none_pte sp \<or> dirty sp"
  shows "page_inv K m orig U (mark_had_pte K b data sp) M"
    and "writable_at K U (mark_had_pte K b data sp) b"
proof -
  note mk = mark_had_pte_facts [OF page_invD(1) [OF inv] sp]
  note at = page_inv_at [OF inv, of b, unfolded page_ok_def sp option.simps]
  have listed: "in_dirty_list sp \<longleftrightarrow> b \<in> set (dirty_pages (ss data))" using at by simp
  have "page_ok_at K m orig U (mark_had_pte K b data sp) M b"
    using at sp listed assms(3) by (auto simp: page_ok_def mk)
  then show "page_inv K m orig U (mark_had_pte K b data sp) M"
    using inv mk(1) by (rule_tac page_inv_upd [of _ _ _ _ data _ _ b])
      (use listed page_invD(2) [OF inv] in \<open>auto simp: mk\<close>)
  show "writable_at K U (mark_had_pte K b data sp) b"
    using assms(3) listed by (auto simp: writable_ok_def mk)
qed

text \<open>An entry made on demand is born as a page without entry that is about to get one.\<close>

lemma fresh_none_pte_inv:
  assumes inv: "page_inv K m orig U data M" and none: "get_snapshot_page K b data = None"
    and "no_oom K" and al: "page_aligned b"
  obtains data1 sp where
    "add_snapshot_page K b False data s = (Some b, data1, s\<lparr>alloc_next := Suc (alloc_next s)\<rparr>)"
    and "get_snapshot_page K b (upd_snapshot_page K b set_snapshot_page_none_pte data1) = Some sp"
    and "page_inv K m orig U
           (mark_had_pte K b (upd_snapshot_page K b set_snapshot_page_none_pte data1) sp) M"
    and "writable_at K U
           (mark_had_pte K b (upd_snapshot_page K b set_snapshot_page_none_pte data1) sp) b"
    and "same_but_pages data data1" and "pages_ok K data1"
proof -
  have k: "kmalloc_ok K (alloc_next s)" using assms(3) by (simp add: no_oom_def)
  obtain data1 sp0 where
    run: "add_snapshot_page K b False data s = (Some b, data1, s\<lparr>alloc_next := Suc (alloc_next s)\<rparr>)"
    and ok: "pages_ok K data1"
    and get: "\<And>k. get_snapshot_page K k data1 =
          (if k = b then Some (reset_page sp0) else get_snapshot_page K k data)"
    and same: "same_but_pages data data1" and list: "dirty_pages (ss data1) = dirty_pages (ss data)"
    by (rule add_snapshot_page_new [OF page_invD(1) [OF inv] none k]) blast
  let ?data2 = "upd_snapshot_page K b set_snapshot_page_none_pte data1"
  let ?sp = "set_snapshot_page_none_pte (reset_page sp0)"
  have ok2: "pages_ok K ?data2" using ok by (simp add: page_simps)
  have sp: "get_snapshot_page K b ?data2 = Some ?sp"
    using ok get by (simp add: page_simps)
  have get2: "k \<noteq> b \<Longrightarrow> get_snapshot_page K k ?data2 = get_snapshot_page K k data" for k
    using ok get by (simp add: page_simps)
  note mk = mark_had_pte_facts [OF ok2 sp]
  have nl: "b \<notin> set (dirty_pages (ss data))" and no: "orig b = None"
    using page_inv_at [OF inv, of b] none by (simp_all add: page_ok_def)
  have "page_ok_at K m orig U (mark_had_pte K b ?data2 ?sp) M b"
    using al no by (simp add: page_ok_def mk)
  then have "page_inv K m orig U (mark_had_pte K b ?data2 ?sp) M"
    using inv mk(1) by (rule_tac page_inv_upd [of _ _ _ _ data _ _ b])
      (use nl page_invD(2) [OF inv] in \<open>auto simp: mk get2 same list\<close>)
  moreover have "writable_at K U (mark_had_pte K b ?data2 ?sp) b"
    by (simp add: writable_ok_def mk)
  ultimately show ?thesis using run sp same ok by (intro that [of data1 ?sp])
qed

lemma anon_rmap_hook_inv:
  assumes inv: "sys_inv K G s" and oom: "no_oom K" and b: "b = addr AND PAGE_MASK"
    and dirty: "\<And>d data sp. tracked s m d data \<Longrightarrow> get_snapshot_page K b data = Some sp \<Longrightarrow>
           is_snapshot_page_none_pte sp \<or> dirty sp"
  obtains s' where "page_add_new_anon_rmap_hook K m addr s = Some s'"
    and "sys_inv K G s'" and "same_tasks s s'" and "mem s' = mem s" and "open_page K G s' m b"
proof -
  let ?U = "snd (G m)"
  note found = that
  obtain r s1 where g: "get_task_data_with_cache (owner s m) s = Some (r, s1)"
    and inv1: "sys_inv K G s1" and mem1: "mem s1 = mem s"
    and same1: "same_tasks s s1" and tr1: "\<And>d data. tracked s1 m d data = tracked s m d data"
    and r: "(\<exists>d data. r = Some d \<and> tracked s1 m d data) \<or>
         (\<forall>d data. \<not> tracked s1 m d data) \<and>
           (r = None \<or> (\<exists>d data. r = Some d \<and> td_heap s1 d = Some data \<and> \<not> have_snapshot data))"
    by (rule sys_inv_lookup [OF inv, of m]) blast
  from r show ?thesis
  proof
    assume none: "(\<forall>d data. \<not> tracked s1 m d data) \<and>
           (r = None \<or> (\<exists>d data. r = Some d \<and> td_heap s1 d = Some data \<and> \<not> have_snapshot data))"
    then have "page_add_new_anon_rmap_hook K m addr s = Some s1"
      by (auto simp: page_add_new_anon_rmap_hook_def g)
    then show ?thesis using that [of s1] inv1 mem1 none same1 by (simp add: open_page_def)
  next
    assume "\<exists>d data. r = Some d \<and> tracked s1 m d data"
    then obtain d data where d: "r = Some d" and tr: "tracked s1 m d data" by blast
    then have td: "td_heap s1 d = Some data" "have_snapshot data"
      "registry_map s1 (owner s1 m) = Some d"
      by (simp_all add: tracked_def)
    note pinv = sys_inv_tracked [OF inv1 tr]
    have store: ?thesis if run: "page_add_new_anon_rmap_hook K m addr s =
          Some (put_td d data' (s1\<lparr>alloc_next := n\<rparr>))" and n: "alloc_next s1 \<le> n"
      and pinv': "page_inv K m (fst (G m)) ?U data' (mem s1)" and wr: "writable_at K ?U data' b"
      and same: "same_but_pages data data'" for data' n
    proof -
      let ?s2 = "s1\<lparr>alloc_next := n\<rparr>"
      have inv2: "sys_inv K G ?s2" using inv1 n by (rule sys_inv_alloc)
      have r2: "registry_map ?s2 = registry_map s1"
        by (rule registry_map_cong) (simp_all add: owner_of_def fun_eq_iff)
      have tr2: "tracked ?s2 m d data" using tr by (simp add: tracked_def r2)
      have "sys_inv K G (put_td d data' ?s2)"
        using inv2 _ _ same by (rule sys_inv_put_td [of K G _ m]) (use tr2 pinv' in \<open>simp_all add: tracked_def\<close>)
      moreover have "open_page K G (put_td d data' ?s2) m b"
        using wr by (simp add: open_page_def tracked_put_td [OF tr2 same])
      moreover have "same_tasks s (put_td d data' ?s2)"
      proof -
        have "same_tasks s1 ?s2" by (rule same_tasksI) (simp_all add: r2)
        then show ?thesis
          using same1 same_tasks_put_td [OF tracked_td [OF tr2] same] by (blast intro: same_tasks_trans)
      qed
      ultimately show ?thesis using found [OF run] by (simp add: put_td_def mem1)
    qed
    show ?thesis
    proof (cases "get_snapshot_page K b data")
      case None
      show ?thesis
      proof (cases "is_snapshotted_address data b")
        case False
        have "b \<notin> ?U" using page_invD(3) [OF pinv] False by blast
        moreover have "page_add_new_anon_rmap_hook K m addr s = Some s1"
          using None False by (simp add: page_add_new_anon_rmap_hook_def g d td Let_def flip: b)
        moreover have "open_page K G s1 m b"
          using None \<open>b \<notin> ?U\<close> tr by (auto simp: open_page_def writable_ok_def tracked_def)
        ultimately show ?thesis using that inv1 mem1 same1 by blast
      next
        case True
        obtain data1 sp where
          add: "add_snapshot_page K b False data s1 = (Some b, data1, s1\<lparr>alloc_next := Suc (alloc_next s1)\<rparr>)"
          and sp: "get_snapshot_page K b (upd_snapshot_page K b set_snapshot_page_none_pte data1) = Some sp"
          and pinv': "page_inv K m (fst (G m)) ?U
                 (mark_had_pte K b (upd_snapshot_page K b set_snapshot_page_none_pte data1) sp) (mem s1)"
          and wr: "writable_at K ?U
                 (mark_had_pte K b (upd_snapshot_page K b set_snapshot_page_none_pte data1) sp) b"
          and same: "same_but_pages data data1" and ok1: "pages_ok K data1"
          by (rule fresh_none_pte_inv [OF pinv None oom, of s1]) (simp_all add: b page_base_aligned)
        let ?data2 = "upd_snapshot_page K b set_snapshot_page_none_pte data1"
        have ok2: "pages_ok K ?data2" using ok1 by (simp add: page_simps)
        have run: "page_add_new_anon_rmap_hook K m addr s =
            Some (put_td d (mark_had_pte K b ?data2 sp) (s1\<lparr>alloc_next := Suc (alloc_next s1)\<rparr>))"
          using None True add sp pages.get_upd [OF ok2, of "\<lambda>p. p\<lparr>has_had_pte := True\<rparr>" b b]
          by (simp add: page_add_new_anon_rmap_hook_def g d td Let_def mark_had_pte_def flip: b)
        show ?thesis
          by (rule store [OF run _ pinv' wr])
            (simp_all add: mark_had_pte_facts(4) [OF ok2 sp] same)
      qed
    next
      case (Some sp)
      have run: "page_add_new_anon_rmap_hook K m addr s =
          Some (put_td d (mark_had_pte K b data sp) (s1\<lparr>alloc_next := alloc_next s1\<rparr>))"
        using page_invD(1) [OF pinv] Some
        by (simp add: page_add_new_anon_rmap_hook_def g d td Let_def mark_had_pte_def page_simps flip: b)
      have "is_snapshot_page_none_pte sp \<or> dirty sp" using dirty tr Some by (simp add: tr1)
      note mark_had_pte_inv [OF pinv Some this]
      then show ?thesis
        by (rule store [OF run order_refl])
          (simp add: mark_had_pte_facts [OF page_invD(1) [OF pinv] Some])
    qed
  qed
qed

text \<open>The hook on \<open>munmap\<close>, and the \<open>munmap\<close> that follows it.\<close>

lemma munmap_pte_entries_inv:
  assumes "page_inv K m orig U data M" and oom: "no_oom K" and "mem s = M"
  shows "\<exists>data' n. munmap_pte_entries K m as data s = (data', s\<lparr>alloc_next := n\<rparr>) \<and>
     alloc_next s \<le> n \<and> page_inv K m orig U data' M \<and> same_but_pages data data' \<and>
     (\<forall>b sp. get_snapshot_page K b data' = Some sp \<longrightarrow>
        (b \<in> set as \<or> (\<forall>sp0. get_snapshot_page K b data = Some sp0 \<longrightarrow> is_snapshot_page_none_pte sp0 \<or> dirty sp0)) \<longrightarrow>
        is_snapshot_page_none_pte sp \<or> dirty sp)"
  using assms(1,3)
proof (induction as arbitrary: data s)
  case Nil
  then show ?case by (intro exI [of _ data] exI [of _ "alloc_next s"]) simp
next
  case (Cons a as)
  obtain r data1 s1 where rec: "record_dirty_page K a (pte_of M m a) data s = (r, data1, s1)"
    and inv1: "page_inv K m orig U data1 M" and same1: "same_but_pages data data1"
    and s1: "\<exists>n \<ge> alloc_next s. s1 = s\<lparr>alloc_next := n\<rparr>"
    and da: "\<And>sp. get_snapshot_page K a data1 = Some sp \<Longrightarrow> is_snapshot_page_none_pte sp \<or> dirty sp"
    and other: "\<And>k. k \<noteq> a \<Longrightarrow> get_snapshot_page K k data1 = get_snapshot_page K k data"
    by (rule record_dirty_page_inv [OF Cons.prems(1) oom Cons.prems(2), where b = a]) blast
  obtain n where n: "s1 = s\<lparr>alloc_next := n\<rparr>" "alloc_next s \<le> n" using s1 by blast
  have "mem s1 = M" using n Cons.prems(2) by simp
  from Cons.IH [OF inv1 this] obtain data' n' where
    run: "munmap_pte_entries K m as data1 s1 = (data', s1\<lparr>alloc_next := n'\<rparr>)"
    and n': "alloc_next s1 \<le> n'" and inv': "page_inv K m orig U data' M" and same': "same_but_pages data1 data'"
    and d': "\<And>b sp. get_snapshot_page K b data' = Some sp \<Longrightarrow>
        b \<in> set as \<or> (\<forall>sp0. get_snapshot_page K b data1 = Some sp0 \<longrightarrow> is_snapshot_page_none_pte sp0 \<or> dirty sp0) \<Longrightarrow>
        is_snapshot_page_none_pte sp \<or> dirty sp"
    by blast
  have "is_snapshot_page_none_pte sp \<or> dirty sp"
    if "get_snapshot_page K b data' = Some sp"
      "b \<in> set (a # as) \<or> (\<forall>sp0. get_snapshot_page K b data = Some sp0 \<longrightarrow> is_snapshot_page_none_pte sp0 \<or> dirty sp0)"
    for b sp
  proof (rule d' [OF that(1)])
    show "b \<in> set as \<or> (\<forall>sp0. get_snapshot_page K b data1 = Some sp0 \<longrightarrow> is_snapshot_page_none_pte sp0 \<or> dirty sp0)"
    proof (cases "b = a")
      case True
      then show ?thesis using da by blast
    next
      case False
      with that(2) show ?thesis using other [OF False] by auto
    qed
  qed
  moreover have "munmap_pte_entries K m (a # as) data s = (data', s\<lparr>alloc_next := n'\<rparr>)"
    using run rec n Cons.prems(2) by simp
  ultimately show ?case
    using inv' same_but_pages_trans [OF same1 same'] n n' by (intro exI [of _ data'] exI [of _ n']) auto
qed

lemma do_munmap_hook_inv:
  assumes inv: "sys_inv K G s" and oom: "no_oom K" and walk: "range_walk_law K"
  obtains s' where "do_munmap_hook K m st len s = Some s'"
    and "sys_inv K G s'" and "same_tasks s s'" and "mem s' = mem s"
    and "\<And>d data sp b. tracked s' m d data \<Longrightarrow> get_snapshot_page K b data = Some sp \<Longrightarrow>
           page_aligned st \<Longrightarrow> b \<in> {st ..< st + len} \<Longrightarrow> is_snapshot_page_none_pte sp \<or> dirty sp"
proof -
  obtain r s1 where g: "get_task_data_with_cache (owner s m) s = Some (r, s1)"
    and inv1: "sys_inv K G s1" and mem1: "mem s1 = mem s" and same1: "same_tasks s s1"
    and r: "(\<exists>d data. r = Some d \<and> tracked s1 m d data) \<or>
         (\<forall>d data. \<not> tracked s1 m d data) \<and>
           (r = None \<or> (\<exists>d data. r = Some d \<and> td_heap s1 d = Some data \<and> \<not> have_snapshot data))"
    by (rule sys_inv_lookup [OF inv, of m]) blast
  from r show ?thesis
  proof
    assume none: "(\<forall>d data. \<not> tracked s1 m d data) \<and>
           (r = None \<or> (\<exists>d data. r = Some d \<and> td_heap s1 d = Some data \<and> \<not> have_snapshot data))"
    then have "do_munmap_hook K m st len s = Some s1"
      by (auto simp: do_munmap_hook_def g)
    then show ?thesis using that [of s1] inv1 mem1 none same1 by simp
  next
    assume "\<exists>d data. r = Some d \<and> tracked s1 m d data"
    then obtain d data where d: "r = Some d" and tr: "tracked s1 m d data" by blast
    then have td: "td_heap s1 d = Some data" "have_snapshot data"
      by (simp_all add: tracked_def)
    let ?as = "snd (range_walk K (mem s1) m st (st + len))"
    note pinv = sys_inv_tracked [OF inv1 tr]
    from munmap_pte_entries_inv [OF pinv oom refl, of ?as] obtain data' n where
      run: "munmap_pte_entries K m ?as data s1 = (data', s1\<lparr>alloc_next := n\<rparr>)"
      and n: "alloc_next s1 \<le> n" and pinv': "page_inv K m (fst (G m)) (snd (G m)) data' (mem s1)"
      and same: "same_but_pages data data'"
      and d': "\<And>b sp. get_snapshot_page K b data' = Some sp \<Longrightarrow> b \<in> set ?as \<Longrightarrow>
          is_snapshot_page_none_pte sp \<or> dirty sp"
      by blast
    let ?s2 = "s1\<lparr>alloc_next := n\<rparr>"
    have inv2: "sys_inv K G ?s2" using inv1 n by (rule sys_inv_alloc)
    have r2: "registry_map ?s2 = registry_map s1"
      by (rule registry_map_cong) (simp_all add: owner_of_def fun_eq_iff)
    have tr2: "tracked ?s2 m d data" using tr by (simp add: tracked_def r2)
    have inv3: "sys_inv K G (put_td d data' ?s2)"
      using inv2 _ _ same by (rule sys_inv_put_td [of K G _ m])
        (use tr2 pinv' in \<open>simp_all add: tracked_def\<close>)
    have "same_tasks s1 ?s2" by (rule same_tasksI) (simp_all add: r2)
    then have same3: "same_tasks s (put_td d data' ?s2)"
      using same1 same_tasks_put_td [OF tracked_td [OF tr2] same] by (blast intro: same_tasks_trans)
    have hook: "do_munmap_hook K m st len s = Some (put_td d data' ?s2)"
      using run by (simp add: do_munmap_hook_def g d td Let_def)
    have "is_snapshot_page_none_pte sp \<or> dirty sp"
      if sp: "get_snapshot_page K b data' = Some sp" and st: "page_aligned st"
        and b: "b \<in> {st ..< st + len}" for b sp
    proof (cases "pte_present (pte_of (mem s1) m b)")
      case True
      have "b \<in> set ?as"
        using walk sys_invD(3) [OF inv1] st True b unfolding range_walk_law_def by blast
      with sp show ?thesis by (rule d')
    next
      case False
      then show ?thesis
        using page_inv_at [OF pinv', of b] sp by (auto simp: page_ok_def split: if_splits)
    qed
    then show ?thesis
      using that [OF hook inv3 same3] by (simp add: mem1 tracked_put_td [OF tr2 same])
  qed
qed

end
