(* ===== verification/Kernel_Instance.thy ===== *)
theory Kernel_Instance
  imports Kernel
begin

text \<open>
  One concrete, executable kernel, \<open>ref_kernel\<close>, for the witnesses: with it the parameters
  of the model are instantiated and the laws of theory \<open>Kernel\<close> hold together. It is not a
  model of the Linux kernel and no property depends on it.
\<close>

section \<open>Pages\<close>

definition fill_pte :: "mm_id \<Rightarrow> u64 \<Rightarrow> pte \<Rightarrow> mem \<Rightarrow> mem" where
  "fill_pte m a p = upd_mm m (\<lambda>mm. mm\<lparr>ptes := (ptes mm)(a := p), pgds := (pgds mm)(a := Entry_table),
     p4ds := (p4ds mm)(a := Entry_table), puds := (puds mm)(a := Entry_table),
     pmds := (pmds mm)(a := Entry_table)\<rparr>)"

text \<open>
  Map a fresh frame with the given bytes: an anonymous one, writable, or one that is not
  anonymous, read-only.
\<close>

definition map_new :: "bool \<Rightarrow> mm_id \<Rightarrow> u64 \<Rightarrow> page \<Rightarrow> mem \<Rightarrow> mem" where
  "map_new anon m a p M =
     fill_pte m a \<lparr>pte_present = True, pte_rw = anon, pte_pfn = frame_top M\<rparr>
       (M\<lparr>frames := (frames M)(frame_top M := p), frame_anon := (frame_anon M)(frame_top M := anon),
          frame_top := Suc (frame_top M)\<rparr>)"

abbreviation map_fresh :: "mm_id \<Rightarrow> u64 \<Rightarrow> page \<Rightarrow> mem \<Rightarrow> mem" where
  "map_fresh \<equiv> map_new True"

abbreviation map_backing :: "mm_id \<Rightarrow> u64 \<Rightarrow> mem \<Rightarrow> mem" where
  "map_backing m a \<equiv> map_new False m a zero_page"

definition ref_wp :: "mm_id \<Rightarrow> u64 \<Rightarrow> mem \<Rightarrow> mem" where
  "ref_wp m a M = map_fresh m a (content M m a) M"

definition ref_copy :: "mm_id \<Rightarrow> u64 \<Rightarrow> page \<Rightarrow> mem \<Rightarrow> nat \<times> mem" where
  "ref_copy m a p M = (if area_writable M m a then (0, map_fresh m a p M) else (4096, M))"

definition ref_zap :: "mm_id \<Rightarrow> u64 \<Rightarrow> u64 \<Rightarrow> mem \<Rightarrow> mem" where
  "ref_zap m a len M = set_pte m a empty_pte M"

section \<open>Areas\<close>

definition fresh_id :: "vm_area list \<Rightarrow> nat" where
  "fresh_id vs = Suc (Max (insert 0 (set (map vma_id vs))))"

text \<open>
  What is left of an area when \<open>[st, en)\<close> is unmapped. As in Linux the object of the area
  stays with the lower part if there is one, and otherwise with the upper part.
\<close>

definition cut_area :: "u64 \<Rightarrow> u64 \<Rightarrow> nat \<Rightarrow> vm_area \<Rightarrow> vm_area list" where
  "cut_area st en new v =
     (if vm_end v \<le> st \<or> en \<le> vm_start v then [v]
      else (if vm_start v < st then [v\<lparr>vm_end := st\<rparr>] else []) @
           (if en < vm_end v
            then [if vm_start v < st then v\<lparr>vm_start := en, vma_id := new\<rparr> else v\<lparr>vm_start := en\<rparr>]
            else []))"

definition ref_munmap :: "mm_id \<Rightarrow> u64 \<Rightarrow> u64 \<Rightarrow> mem \<Rightarrow> int \<times> mem" where
  "ref_munmap m st len M =
     (if \<not> page_aligned st then (- EINVAL, M)
      else (0, upd_mm m (\<lambda>mm. mm\<lparr>
             ptes := (\<lambda>b. if st \<le> b \<and> b < st + len then empty_pte else ptes mm b),
             mm_mmap := concat (map (cut_area st (st + len) (fresh_id (mm_mmap mm))) (mm_mmap mm))\<rparr>) M))"

fun insert_area :: "vm_area \<Rightarrow> vm_area list \<Rightarrow> vm_area list" where
  "insert_area v [] = [v]"
| "insert_area v (w # ws) = (if vm_start v \<le> vm_start w then v # w # ws else w # insert_area v ws)"

definition ref_mmap :: "mm_id \<Rightarrow> u64 \<Rightarrow> u64 \<Rightarrow> u64 \<Rightarrow> u64 \<Rightarrow> mem \<Rightarrow> u64 \<times> mem" where
  "ref_mmap m a len prot flags M =
     (if list_ex (\<lambda>v. vm_start v < a + len \<and> a < vm_end v) (mm_mmap (mms M m)) then (- 17, M)
      else (a, upd_mm m (\<lambda>mm. mm\<lparr>mm_mmap := insert_area
              \<lparr>vma_id = fresh_id (mm_mmap mm), vm_start = a, vm_end = a + len,
               vm_flags = prot, vma_is_anonymous = True\<rparr> (mm_mmap mm)\<rparr>) M))"

definition ref_brk :: "mm_id \<Rightarrow> u64 \<Rightarrow> u64 \<Rightarrow> mem \<Rightarrow> int \<times> mem" where
  "ref_brk m a len M =
     (if \<not> page_aligned a then (- EINVAL, M) else (0, snd (ref_mmap m a (PAGE_ALIGN len) 3 0 M)))"

definition ref_find_vma :: "mm_struct \<Rightarrow> u64 \<Rightarrow> vm_area option" where
  "ref_find_vma mm a = find (\<lambda>v. a < vm_end v) (mm_mmap mm)"

definition ref_range_walk :: "mem \<Rightarrow> mm_id \<Rightarrow> u64 \<Rightarrow> u64 \<Rightarrow> int \<times> u64 list" where
  "ref_range_walk M m st en =
     (if en \<le> st then (- EINVAL, [])
      else (0, map (\<lambda>i. st + 4096 * of_nat i) [0 ..< Suc (unat (en - st) div 4096)]))"

text \<open>The walk over an area visits its pages one by one.\<close>

definition ref_walker :: "mem \<Rightarrow> mm_id \<Rightarrow> vm_area \<Rightarrow> walk_history \<Rightarrow> walk_call option" where
  "ref_walker M m v hist =
     (let a = vm_start v + 4096 * of_nat (length hist)
      in if length hist < unat (vm_end v - vm_start v) div 4096 then Some (Pte_entry a (a + 4096)) else None)"

definition ref_kernel :: kernel where
  "ref_kernel =
     \<lparr>kmalloc_ok = (\<lambda>_. True), kmalloc_garbage = (\<lambda>_. 0),
      hash_min = (\<lambda>x. unat (drop_bit 12 x) mod 256), nr_cpu_ids = 2,
      find_vma = ref_find_vma, do_munmap = ref_munmap, vm_mmap_anon = ref_mmap,
      vm_brk = ref_brk, copy_to_user = ref_copy,
      copy_from_user = (\<lambda>m a M. if a = 0 then None else Some \<lparr>args_start = a, args_end = a + 4096\<rparr>), zap_page_range = ref_zap,
      do_wp_page = ref_wp, wp_copies = (\<lambda>_ _ _. True), do_read_fault = map_backing,
      backing = (\<lambda>_ _. zero_page), do_anonymous_page = (\<lambda>m a M. map_fresh m a zero_page M),
      vma_walker = ref_walker, range_walk = ref_range_walk\<rparr>"

lemma ref_kernel_simps [simp]:
  "kmalloc_ok ref_kernel n" "kmalloc_garbage ref_kernel n = 0" "nr_cpu_ids ref_kernel = 2"
  "find_vma ref_kernel = ref_find_vma" "do_munmap ref_kernel = ref_munmap"
  "vm_mmap_anon ref_kernel = ref_mmap" "vm_brk ref_kernel = ref_brk"
  "copy_to_user ref_kernel = ref_copy" "zap_page_range ref_kernel = ref_zap"
  "do_wp_page ref_kernel = ref_wp" "wp_copies ref_kernel m a M"
  "do_read_fault ref_kernel = map_backing" "backing ref_kernel m a = zero_page" "vma_walker ref_kernel = ref_walker"
  "do_anonymous_page ref_kernel m a M = map_fresh m a zero_page M"
  "range_walk ref_kernel = ref_range_walk"
  "hash_min ref_kernel x = unat (drop_bit 12 x) mod 256"
  by (simp_all add: ref_kernel_def)

lemma ref_no_oom [simp]: "no_oom ref_kernel"
  by (simp add: no_oom_def)

section \<open>The laws hold\<close>

lemma map_fresh_simps:
  "pte_of (map_new r m a p M) m' b =
     (if m' = m \<and> b = a then \<lparr>pte_present = True, pte_rw = r, pte_pfn = frame_top M\<rparr>
      else pte_of M m' b)"
  "frames (map_new r m a p M) = (frames M)(frame_top M := p)"
  "frame_anon (map_new r m a p M) = (frame_anon M)(frame_top M := r)"
  "frame_top (map_new r m a p M) = Suc (frame_top M)"
  by (simp_all add: map_new_def fill_pte_def)

lemma map_fresh_tables:
  "b = a \<or> pgds (mms M m') b = Entry_table \<Longrightarrow> m' = m \<or> pgds (mms M m') b = Entry_table \<Longrightarrow>
   pgds (mms (map_new r m a p M) m') b = Entry_table"
  "b = a \<or> p4ds (mms M m') b = Entry_table \<Longrightarrow> m' = m \<or> p4ds (mms M m') b = Entry_table \<Longrightarrow>
   p4ds (mms (map_new r m a p M) m') b = Entry_table"
  "b = a \<or> puds (mms M m') b = Entry_table \<Longrightarrow> m' = m \<or> puds (mms M m') b = Entry_table \<Longrightarrow>
   puds (mms (map_new r m a p M) m') b = Entry_table"
  "b = a \<or> pmds (mms M m') b = Entry_table \<Longrightarrow> m' = m \<or> pmds (mms M m') b = Entry_table \<Longrightarrow>
   pmds (mms (map_new r m a p M) m') b = Entry_table"
  by (auto simp: map_new_def fill_pte_def)

lemma map_fresh_content:
  assumes "mem_wf M"
  shows "content (map_new r m a p M) m a = p"
    and "(m', b) \<noteq> (m, a) \<Longrightarrow> pte_present (pte_of M m' b) \<Longrightarrow>
         content (map_new r m a p M) m' b = content M m' b"
    and "anon_page (map_new r m a p M) m a = r"
    and "(m', b) \<noteq> (m, a) \<Longrightarrow> pte_present (pte_of M m' b) \<Longrightarrow>
         anon_page (map_new r m a p M) m' b = anon_page M m' b"
  using mem_wf_frame [OF assms, of m' b] by (auto simp: content_def anon_page_def map_fresh_simps)

lemma map_fresh_exclusive:
  assumes "mem_wf M"
  shows "exclusive (map_new r m a p M) m a"
    and "(m', b) \<noteq> (m, a) \<Longrightarrow> pte_present (pte_of M m' b) \<Longrightarrow> exclusive M m' b \<Longrightarrow>
         exclusive (map_new r m a p M) m' b"
proof -
  have lt: "pte_pfn (pte_of M n c) \<noteq> frame_top M" if "pte_present (pte_of M n c)" for n c
    using mem_wf_frame [OF assms that] by simp
  show "exclusive (map_new r m a p M) m a"
    using lt by (auto simp: exclusive_def map_fresh_simps)
  assume "(m', b) \<noteq> (m, a)" "pte_present (pte_of M m' b)" "exclusive M m' b"
  then show "exclusive (map_new r m a p M) m' b"
    using lt [of m' b] by (auto simp: exclusive_def map_fresh_simps)
qed

lemma map_fresh_wf:
  assumes "mem_wf M" and "page_aligned a"
  shows "mem_wf (map_new r m a p M)"
  unfolding mem_wf_def
proof (intro conjI allI impI)
  fix m' b assume p: "pte_present (pte_of (map_new r m a p M) m' b)"
  show "page_aligned b"
    using p assms mem_wf_aligned [OF assms(1), of m' b] by (auto simp: map_fresh_simps split: if_splits)
  show "pte_pfn (pte_of (map_new r m a p M) m' b) < frame_top (map_new r m a p M)"
    using p mem_wf_frame [OF assms(1), of m' b] by (auto simp: map_fresh_simps split: if_splits)
  show "pgds (mms (map_new r m a p M) m') b = Entry_table"
    "p4ds (mms (map_new r m a p M) m') b = Entry_table"
    "puds (mms (map_new r m a p M) m') b = Entry_table"
    "pmds (mms (map_new r m a p M) m') b = Entry_table"
    using p mem_wf_tables [OF assms(1), of m' b]
    by (auto intro!: map_fresh_tables simp: map_fresh_simps split: if_splits)
  assume rw: "pte_rw (pte_of (map_new r m a p M) m' b)"
  have "exclusive (map_new r m a p M) m' b \<and> anon_page (map_new r m a p M) m' b"
  proof (cases "(m', b) = (m, a)")
    case True
    then show ?thesis
      using rw map_fresh_exclusive(1) [OF assms(1)] map_fresh_content(3) [OF assms(1)]
      by (auto simp: map_fresh_simps)
  next
    case False
    with p rw have "pte_present (pte_of M m' b)" "pte_rw (pte_of M m' b)"
      by (auto simp: map_fresh_simps split: if_splits)
    then show ?thesis
      using False map_fresh_exclusive(2) [OF assms(1)] map_fresh_content(4) [OF assms(1)]
        mem_wf_exclusive [OF assms(1)] by blast
  qed
  then show "exclusive (map_new r m a p M) m' b" and "anon_page (map_new r m a p M) m' b"
    by simp_all
qed

lemma map_fresh_only_page: "mem_wf M \<Longrightarrow> only_page m a M (map_new r m a p M)"
  using map_fresh_content(2,4) [of M]
  by (auto simp: only_page_def map_fresh_simps) (auto simp: map_new_def fill_pte_def)

text \<open>Removing entries keeps the discipline.\<close>

lemma mem_wf_removed:
  assumes "mem_wf M" and "frame_top M' = frame_top M" and "frame_anon M' = frame_anon M"
    and "\<And>m b. pte_present (pte_of M' m b) \<Longrightarrow> pte_of M' m b = pte_of M m b"
    and "\<And>m. pgds (mms M' m) = pgds (mms M m) \<and> p4ds (mms M' m) = p4ds (mms M m) \<and>
           puds (mms M' m) = puds (mms M m) \<and> pmds (mms M' m) = pmds (mms M m)"
  shows "mem_wf M'"
proof -
  have ex: "exclusive M' m b" if "pte_present (pte_of M' m b)" "exclusive M m b" for m b
    using that assms(4) unfolding exclusive_def by metis
  have an: "anon_page M' m b" if "pte_present (pte_of M' m b)" "anon_page M m b" for m b
    using that assms(3,4) by (simp add: anon_page_def)
  show ?thesis
    using assms ex an unfolding mem_wf_def by metis
qed

lemma ref_wp_page_law: "wp_page_law ref_kernel"
  by (auto simp: wp_page_law_def Let_def ref_wp_def map_fresh_wf map_fresh_only_page
        map_fresh_content map_fresh_simps(1) mem_wf_aligned)

lemma ref_anon_page_law: "anon_page_law ref_kernel"
  by (auto simp: anon_page_law_def Let_def map_fresh_wf map_fresh_only_page map_fresh_content
        map_fresh_simps(1))

lemma ref_read_fault_law: "read_fault_law ref_kernel"
  by (auto simp: read_fault_law_def Let_def map_fresh_wf map_fresh_only_page map_fresh_content
        map_fresh_simps(1))

lemma ref_copy_to_user_law: "copy_to_user_law ref_kernel"
  by (auto simp: copy_to_user_law_def Let_def ref_copy_def map_fresh_wf map_fresh_only_page
        map_fresh_content map_fresh_simps(1))

lemma ref_copy_mapped_law: "copy_mapped_law ref_kernel"
  by (simp add: copy_mapped_law_def ref_copy_def)

lemma ref_zap_law: "zap_law ref_kernel"
proof -
  have "mem_wf (ref_zap m a len M)" if "mem_wf M" for m a len M
    using that by (rule mem_wf_removed) (auto simp: ref_zap_def empty_pte_def split: if_splits)
  moreover have "only_page m a M (ref_zap m a len M)" for m a len M
    by (auto simp: only_page_def ref_zap_def content_def anon_page_def)
  moreover have "pte_none (pte_of (ref_zap m a len M) m a)" for m a len M
    by (simp add: ref_zap_def)
  ultimately show ?thesis by (simp add: zap_law_def Let_def)
qed

lemma ref_munmap_pte:
  "pte_of (snd (ref_munmap m st len M)) m' b =
     (if page_aligned st \<and> m' = m \<and> st \<le> b \<and> b < st + len then empty_pte else pte_of M m' b)"
  "frames (snd (ref_munmap m st len M)) = frames M"
  "frame_anon (snd (ref_munmap m st len M)) = frame_anon M"
  "mm_owner (mms (snd (ref_munmap m st len M)) m') = mm_owner (mms M m')"
  by (simp_all add: ref_munmap_def)

lemma ref_munmap_laws: "munmap_pages_law ref_kernel" "munmap_einval_law ref_kernel"
proof -
  have "mem_wf (snd (ref_munmap m st len M))" if "mem_wf M" for m st len M
    using that by (rule mem_wf_removed)
      (auto simp: ref_munmap_pte empty_pte_def split: if_splits, auto simp: ref_munmap_def)
  moreover have "fst (ref_munmap m st len M) = (if page_aligned st then 0 else - EINVAL)" for m st len M
    by (simp add: ref_munmap_def)
  ultimately show "munmap_pages_law ref_kernel"
    by (auto simp: munmap_pages_law_def Let_def split_def ref_munmap_pte content_def anon_page_def EINVAL_def)
  show "munmap_einval_law ref_kernel"
    by (simp add: munmap_einval_law_def ref_munmap_def)
qed

lemma ref_range_walk_law: "range_walk_law ref_kernel"
  unfolding range_walk_law_def
proof (intro allI impI)
  fix M m st en b
  assume wf: "mem_wf M" and st: "page_aligned st" and p: "pte_present (pte_of M m b)"
    and b: "b \<in> {st ..< en}"
  let ?i = "unat (b - st) div 4096"
  have ub: "unat (b - st) = unat b - unat st" and ue: "unat (en - st) = unat en - unat st"
    using b by (simp_all add: unat_sub word_le_nat_alt word_less_nat_alt)
  have "4096 dvd unat (b - st)"
    using st mem_wf_aligned [OF wf p] ub by (simp add: page_aligned_iff)
  then have "4096 * ?i = unat (b - st)" by simp
  then have "(of_nat (4096 * ?i) :: u64) = b - st" by simp
  then have "b = st + 4096 * of_nat ?i" by (simp add: algebra_simps)
  moreover have "unat (b - st) \<le> unat (en - st)"
    using b ub ue by (simp add: word_less_nat_alt diff_le_mono)
  then have "?i < Suc (unat (en - st) div 4096)" by (simp only: less_Suc_eq_le div_le_mono)
  ultimately have "b \<in> (\<lambda>i. st + 4096 * of_nat i) ` {0 ..< Suc (unat (en - st) div 4096)}"
    by (intro image_eqI [of _ _ ?i]) simp_all
  moreover have "\<not> en \<le> st" using b by auto
  ultimately show "b \<in> set (snd (range_walk ref_kernel M m st en))"
    by (simp add: ref_range_walk_def del: upt_Suc)
qed

lemmas ref_laws =
  ref_wp_page_law ref_read_fault_law ref_anon_page_law ref_copy_to_user_law ref_copy_mapped_law ref_zap_law ref_munmap_laws ref_range_walk_law

end
