(* ===== verification/Memory_Restore.thy ===== *)
theory Memory_Restore
  imports Memory_Invariant Kernel_Instance
begin

text \<open>
  Executions between \<open>take\<close> and \<open>restore\<close>, and the restore of the pages. An execution is a
  sequence of memory events (user writes, page faults, \<open>munmap\<close>, changes of the areas, a
  switch to another CPU) of any process; each event that the module hooks runs the hook
  where the kernel calls it. The theorems show that the hooks keep the invariant of theory
  \<open>Memory_Invariant\<close>, and that the loop of \<open>recover_memory_snapshot\<close> then restores
  every page.
\<close>

section \<open>Memory events\<close>

datatype mem_event =
    User_write mm_id u64 page
  | Write_fault mm_id u64
  | Read_fault mm_id u64
  | Anon_fault mm_id u64
  | Unmap mm_id u64 u64
  | Set_areas mm_id "vm_area list" u64
  | Switch_cpu nat

text \<open>
  An event that is not enabled changes nothing. A write fault on a present page runs
  \<open>do_wp_page\<close> unless the hook skips it; when \<open>do_wp_page\<close> copies the page it calls
  \<open>page_add_new_anon_rmap\<close>, as \<open>do_anonymous_page\<close> does.
\<close>

fun mem_event_step ::
  "'k kernel_scheme \<Rightarrow> mem_event \<Rightarrow> 's mem_state_scheme \<Rightarrow> 's mem_state_scheme option" where
  "mem_event_step K (User_write m a p) s =
     (let pte = pte_of (mem s) m a; M = mem s in
      if pte_present pte \<and> pte_rw pte
      then Some (s\<lparr>mem := M\<lparr>frames := (frames M)(pte_pfn pte := p)\<rparr>\<rparr>) else Some s)"
| "mem_event_step K (Write_fault m addr) s =
     (let b = addr AND PAGE_MASK; pte = pte_of (mem s) m b in
      if pte_present pte \<and> \<not> pte_rw pte
      then do {
        (out, s1) \<leftarrow> do_wp_page_hook K \<lparr>vf_mm = m, vf_address = addr, vf_orig_pte = pte\<rparr> s;
        (case out of
           Skip_original \<Rightarrow> Some s1
         | Run_original \<Rightarrow>
             do { s2 \<leftarrow> (if wp_copies K m b (mem s1) then page_add_new_anon_rmap_hook K m addr s1 else Some s1);
                  Some (s2\<lparr>mem := do_wp_page K m b (mem s2)\<rparr>) }) }
      else Some s)"
| "mem_event_step K (Read_fault m addr) s =
     (let b = addr AND PAGE_MASK in
      if pte_present (pte_of (mem s) m b) then Some s
      else Some (s\<lparr>mem := do_read_fault K m b (mem s)\<rparr>))"
| "mem_event_step K (Anon_fault m addr) s =
     (let b = addr AND PAGE_MASK in
      if pte_present (pte_of (mem s) m b) then Some s
      else do { s1 \<leftarrow> page_add_new_anon_rmap_hook K m addr s;
                Some (s1\<lparr>mem := do_anonymous_page K m b (mem s1)\<rparr>) })"
| "mem_event_step K (Unmap m st len) s = map_option snd (vm_munmap K m st len s)"
| "mem_event_step K (Set_areas m vs brk) s =
     Some (s\<lparr>mem := upd_mm m (\<lambda>mm. mm\<lparr>mm_mmap := vs, mm_brk := brk\<rparr>) (mem s)\<rparr>)"
| "mem_event_step K (Switch_cpu i) s =
     (if i < nr_cpu_ids K then Some (s\<lparr>this_cpu := i\<rparr>) else Some s)"

fun run_events ::
  "'k kernel_scheme \<Rightarrow> mem_event list \<Rightarrow> 's mem_state_scheme \<Rightarrow> 's mem_state_scheme option" where
  "run_events K [] s = Some s"
| "run_events K (e # es) s = do { s1 \<leftarrow> mem_event_step K e s; run_events K es s1 }"

definition memory_laws :: "'k kernel_scheme \<Rightarrow> bool" where
  "memory_laws K \<longleftrightarrow>
     wp_page_law K \<and> anon_page_law K \<and> read_fault_law K \<and> munmap_pages_law K \<and>
     munmap_einval_law K \<and> range_walk_law K"

section \<open>Every event keeps the invariant\<close>

lemma sys_inv_user_write:
  assumes inv: "sys_inv K G s" and p: "pte_present (pte_of (mem s) m a)" "pte_rw (pte_of (mem s) m a)"
  shows "sys_inv K G (s\<lparr>mem := (mem s)\<lparr>frames := (frames (mem s))(pte_pfn (pte_of (mem s) m a) := x)\<rparr>\<rparr>)"
proof -
  let ?M = "mem s"
  let ?M' = "?M\<lparr>frames := (frames ?M)(pte_pfn (pte_of ?M m a) := x)\<rparr>"
  have wf: "mem_wf ?M" using inv by (rule sys_invD)
  have ex: "exclusive ?M m a" using wf p by (rule mem_wf_exclusive)
  have ex': "exclusive ?M' n b = exclusive ?M n b" for n b by (simp add: exclusive_def)
  have an': "anon_page ?M' n b = anon_page ?M n b" for n b by (simp add: anon_page_def)
  have wf': "mem_wf ?M'" using wf by (simp add: mem_wf_def ex' an')
  have only: "only_page m a ?M ?M'"
    using ex by (auto simp: only_page_def content_def an' exclusive_def)
  have "open_page K G s m a"
    unfolding open_page_def
  proof (intro allI impI)
    fix d data assume "tracked s m d data"
    note page_inv_at [OF sys_inv_tracked [OF inv this], of a]
    then show "writable_at K (snd (G m)) data a" using p by (rule page_ok_writable_ok)
  qed
  with inv show ?thesis using wf' only by (rule sys_inv_open_page) (simp add: p)
qed

lemma sys_inv_write_fault:
  assumes inv: "sys_inv K G s" and oom: "no_oom K" and law: "wp_page_law K"
  shows "\<exists>s'. mem_event_step K (Write_fault m addr) s = Some s' \<and> sys_inv K G s' \<and> same_tasks s s'"
proof -
  define b where "b = addr AND PAGE_MASK"
  let ?pte = "pte_of (mem s) m b"
  show ?thesis
  proof (cases "pte_present ?pte \<and> \<not> pte_rw ?pte")
    case False
    then show ?thesis using inv by (auto simp: Let_def b_def)
  next
    case True
    then have p: "pte_present ?pte" by simp
    obtain r s1 where
      hook: "do_wp_page_hook K \<lparr>vf_mm = m, vf_address = addr, vf_orig_pte = ?pte\<rparr> s = Some (r, s1)"
      and inv1: "sys_inv K G s1" and same1: "same_tasks s s1" and run: "r = Run_original \<Longrightarrow> mem s1 = mem s"
      and dirty: "\<And>d data sp. tracked s1 m d data \<Longrightarrow> get_snapshot_page K b data = Some sp \<Longrightarrow>
           is_snapshot_page_none_pte sp \<or> dirty sp"
      by (rule do_wp_page_hook_inv [OF inv oom p b_def]) blast
    show ?thesis
    proof (cases r)
      case Skip_original
      with hook True inv1 same1 show ?thesis by (simp add: Let_def flip: b_def)
    next
      case Run_original
      note mem1 = run [OF this]
      have "\<exists>s2. (if wp_copies K m b (mem s1) then page_add_new_anon_rmap_hook K m addr s1 else Some s1) = Some s2 \<and>
          sys_inv K G s2 \<and> same_tasks s1 s2 \<and> mem s2 = mem s1 \<and> open_page K G s2 m b"
      proof (cases "wp_copies K m b (mem s1)")
        case c: True
        obtain s2 where "page_add_new_anon_rmap_hook K m addr s1 = Some s2"
          "sys_inv K G s2" "same_tasks s1 s2" "mem s2 = mem s1" "open_page K G s2 m b"
          by (rule anon_rmap_hook_inv [OF inv1 oom b_def dirty])
        with c show ?thesis by simp
      next
        case False
        with law p sys_invD(3) [OF inv] have an: "anon_page (mem s) m b"
          by (auto simp: wp_page_law_def mem1)
        have "writable_at K (snd (G m)) data b" if "tracked s1 m d data" for d data
          using page_inv_at [OF sys_inv_tracked [OF inv1 that], of b] dirty [OF that] an p
          by (auto simp: page_ok_def writable_ok_def untouched_def mem1 split: option.splits if_splits)
        then show ?thesis using False inv1 by (simp add: open_page_def)
      qed
      then obtain s2 where s2: "(if wp_copies K m b (mem s1) then page_add_new_anon_rmap_hook K m addr s1
          else Some s1) = Some s2" and inv2: "sys_inv K G s2" and same2: "same_tasks s1 s2" and mem2: "mem s2 = mem s"
        and op: "open_page K G s2 m b" by (auto simp: mem1)
      let ?M' = "do_wp_page K m b (mem s2)"
      have "mem_wf ?M'" "only_page m b (mem s2) ?M'" "pte_rw (pte_of ?M' m b)"
        using law p sys_invD(3) [OF inv] by (simp_all add: wp_page_law_def Let_def mem2)
      with inv2 op have "sys_inv K G (s2\<lparr>mem := ?M'\<rparr>)" by (rule sys_inv_open_page)
      moreover have "same_tasks s (s2\<lparr>mem := ?M'\<rparr>)"
      proof -
        have "mm_owner (mms ?M' k) = owner s2 k" for k
          using only_page_areas(3) [of m b "mem s2" ?M'] law p sys_invD(3) [OF inv]
          by (simp add: wp_page_law_def Let_def mem2)
        then show ?thesis using same1 same2 same_tasks_mem by (blast intro: same_tasks_trans)
      qed
      moreover have "mem_event_step K (Write_fault m addr) s = Some (s2\<lparr>mem := ?M'\<rparr>)"
        using hook True Run_original s2 by (simp add: Let_def flip: b_def)
      ultimately show ?thesis by blast
    qed
  qed
qed

lemma sys_inv_read_fault:
  assumes inv: "sys_inv K G s" and law: "read_fault_law K" and np: "\<not> pte_present (pte_of (mem s) m b)"
    and "page_aligned b"
  shows "sys_inv K G (s\<lparr>mem := do_read_fault K m b (mem s)\<rparr>)"
proof -
  let ?M' = "do_read_fault K m b (mem s)"
  have M': "mem_wf ?M'" "only_page m b (mem s) ?M'" "\<not> pte_rw (pte_of ?M' m b)"
    "\<not> anon_page ?M' m b" "content ?M' m b = backing K m b"
    using law assms(4) np sys_invD(3) [OF inv] by (simp_all add: read_fault_law_def Let_def)
  show ?thesis
    using inv M'(1,2)
  proof (rule sys_inv_page)
    fix d data assume p: "page_inv K m (fst (G m)) (snd (G m)) data (mem s)"
    show "page_ok_at K m (fst (G m)) (snd (G m)) data ?M' b"
      using page_inv_at [OF p, of b] np M'
      by (auto simp: page_ok_def untouched_def split: option.splits if_splits)
  qed (simp add: M')
qed

lemma sys_inv_anon_fault:
  assumes inv: "sys_inv K G s" and oom: "no_oom K" and law: "anon_page_law K"
  shows "\<exists>s'. mem_event_step K (Anon_fault m addr) s = Some s' \<and> sys_inv K G s' \<and> same_tasks s s'"
proof -
  define b where "b = addr AND PAGE_MASK"
  show ?thesis
  proof (cases "pte_present (pte_of (mem s) m b)")
    case True
    then show ?thesis using inv by (simp add: Let_def b_def)
  next
    case np: False
    have "is_snapshot_page_none_pte sp \<or> dirty sp"
      if "tracked s m d data" "get_snapshot_page K b data = Some sp" for d data sp
      using page_inv_at [OF sys_inv_tracked [OF inv that(1)], of b] that(2) np
      by (auto simp: page_ok_def split: if_splits)
    then obtain s1 where hook: "page_add_new_anon_rmap_hook K m addr s = Some s1"
      and inv1: "sys_inv K G s1" and same1: "same_tasks s s1" and mem1: "mem s1 = mem s" and op: "open_page K G s1 m b"
      by (rule anon_rmap_hook_inv [OF inv oom b_def])
    let ?M' = "do_anonymous_page K m b (mem s1)"
    have "page_aligned b" by (simp add: b_def page_base_aligned)
    then have M': "mem_wf ?M'" "only_page m b (mem s1) ?M'" "pte_rw (pte_of ?M' m b)"
      using law np sys_invD(3) [OF inv] by (simp_all add: anon_page_law_def Let_def mem1)
    with inv1 op have "sys_inv K G (s1\<lparr>mem := ?M'\<rparr>)" by (rule sys_inv_open_page)
    moreover have "same_tasks s (s1\<lparr>mem := ?M'\<rparr>)"
      using same1 same_tasks_mem [of ?M' s1] only_page_areas(3) [OF M'(2)] by (blast intro: same_tasks_trans)
    ultimately show ?thesis using hook np by (simp add: Let_def flip: b_def)
  qed
qed

text \<open>\<open>munmap\<close>: what was mapped and not yet dirty has been saved by the hook.\<close>

lemma page_inv_munmap:
  assumes inv: "page_inv K n orig U data M"
    and law: "munmap_pages_law K" and wf: "mem_wf M" and run: "do_munmap K m st len M = (r, M')"
    and saved: "\<And>b sp. r = 0 \<Longrightarrow> n = m \<Longrightarrow> b \<in> {st ..< st + len} \<Longrightarrow> get_snapshot_page K b data = Some sp \<Longrightarrow>
           is_snapshot_page_none_pte sp \<or> dirty sp"
  shows "page_inv K n orig U data M'"
  using inv
proof (rule page_inv_mem)
  note out = munmap_pages_lawD(3,4) [OF law wf run] and gone = munmap_pages_lawD(5) [OF law wf run]
  have keep: "pte_of M' m' b = pte_of M m' b" if "pte_present (pte_of M' m' b)" for m' b
    using that out(1) [of m' b] gone [of b] by auto
  have ex: "exclusive M' m' b" if "exclusive M m' b" "pte_of M' m' b = pte_of M m' b" for m' b
    using that keep unfolding exclusive_def by metis
  fix b assume at: "page_ok_at K n orig U data M b"
  show "page_ok_at K n orig U data M' b"
  proof (cases "(n, b) \<notin> {m} \<times> {st ..< st + len} \<or> r \<noteq> 0")
    case True
    note o = out(1) [OF this] out(2) [OF this]
    show ?thesis using o ex by (intro page_ok_cong [OF _ _ _ _ at]) auto
  next
    case False
    then have "\<not> pte_present (pte_of M' n b)" using gone by auto
    then show ?thesis using at saved [of b] False
      by (auto simp: page_ok_def untouched_def split: option.splits if_splits)
  qed
qed

lemma sys_inv_unmap:
  assumes inv: "sys_inv K G s" and oom: "no_oom K"
    and law: "munmap_pages_law K" "munmap_einval_law K" "range_walk_law K"
  obtains r s' where "vm_munmap K m st len s = Some (r, s')" and "sys_inv K G s'" and "same_tasks s s'"
    and "do_munmap K m st len (mem s) = (r, mem s')"
proof -
  obtain s1 where hook: "do_munmap_hook K m st len s = Some s1"
    and inv1: "sys_inv K G s1" and same1: "same_tasks s s1" and mem1: "mem s1 = mem s"
    and saved: "\<And>d data sp b. tracked s1 m d data \<Longrightarrow> get_snapshot_page K b data = Some sp \<Longrightarrow>
           page_aligned st \<Longrightarrow> b \<in> {st ..< st + len} \<Longrightarrow> is_snapshot_page_none_pte sp \<or> dirty sp"
    by (rule do_munmap_hook_inv [OF inv oom law(3), of m st len]) blast
  obtain r M' where run: "do_munmap K m st len (mem s1) = (r, M')" by fastforce
  have wf: "mem_wf (mem s1)" using inv1 by (rule sys_invD)
  have M': "mem_wf M'" "mm_owner (mms M' n) = owner s1 n" for n
    by (rule munmap_pages_lawD [OF law(1) wf run])+
  have al: "page_aligned st" if "r = 0"
  proof (rule ccontr)
    assume "\<not> page_aligned st"
    then have "do_munmap K m st len (mem s1) = (- EINVAL, mem s1)"
      using law(2) by (simp add: munmap_einval_law_def)
    with run that show False by (simp add: EINVAL_def)
  qed
  have "sys_inv K G (s1\<lparr>mem := M'\<rparr>)"
    using inv1 M'
  proof (rule sys_inv_mem)
    fix n d data
    assume t: "registry_map s1 (owner s1 n) = Some d" "td_heap s1 d = Some data" "have_snapshot data"
      and p: "page_inv K n (fst (G n)) (snd (G n)) data (mem s1)"
    show "page_inv K n (fst (G n)) (snd (G n)) data M'"
      using p law(1) wf run
      by (rule page_inv_munmap) (use t saved al in \<open>auto simp: tracked_def\<close>)
  qed
  moreover have "vm_munmap K m st len s = Some (r, s1\<lparr>mem := M'\<rparr>)"
    using hook run by (simp add: vm_munmap_def)
  moreover have "same_tasks s (s1\<lparr>mem := M'\<rparr>)"
    using same1 same_tasks_mem [of M' s1] M'(2) by (blast intro: same_tasks_trans)
  ultimately show ?thesis using that run by (simp add: mem1)
qed

text \<open>Changing the list of areas, or the CPU, does not touch the pages.\<close>

lemma sys_inv_areas:
  assumes inv: "sys_inv K G s" and f: "\<And>mm. ptes (f mm) = ptes mm" "\<And>mm. mm_owner (f mm) = mm_owner mm"
    "\<And>mm. pgds (f mm) = pgds mm" "\<And>mm. p4ds (f mm) = p4ds mm" "\<And>mm. puds (f mm) = puds mm"
    "\<And>mm. pmds (f mm) = pmds mm"
  shows "sys_inv K G (s\<lparr>mem := upd_mm m f (mem s)\<rparr>)"
proof -
  let ?M' = "upd_mm m f (mem s)"
  have pte: "pte_of ?M' n b = pte_of (mem s) n b" for n b by (simp add: f)
  have same: "content ?M' n b = content (mem s) n b" "anon_page ?M' n b = anon_page (mem s) n b"
    for n b unfolding content_def anon_page_def pte by simp_all
  have ex: "exclusive ?M' n b = exclusive (mem s) n b" for n b
    by (rule exclusive_same_pfns) (simp_all only: pte)
  have "mem_wf ?M'"
    using sys_invD(3) [OF inv] unfolding mem_wf_def pte same ex by (simp add: f)
  with inv show ?thesis
  proof (rule sys_inv_mem)
    fix n d data assume "page_inv K n (fst (G n)) (snd (G n)) data (mem s)"
    then show "page_inv K n (fst (G n)) (snd (G n)) data ?M'"
      by (rule page_inv_mem) (rule page_ok_cong [rotated -1, of _ _ _ _ _ _ "mem s"], simp_all only: pte same ex)
  qed (simp add: f)
qed

lemma sys_inv_cpu:
  assumes inv: "sys_inv K G s" and i: "i < nr_cpu_ids K"
  shows "sys_inv K G (s\<lparr>this_cpu := i\<rparr>)"
  using inv
proof (rule sys_inv_registry_cong)
  let ?s = "s\<lparr>this_cpu := i\<rparr>"
  have o: "owner_of ?s = owner_of s" by (simp add: owner_of_def fun_eq_iff)
  show r: "registry_map ?s = registry_map s" by (rule registry_map_cong) (simp_all add: o)
  show "registry_ok ?s"
    using sys_invD(1) [OF inv] by (rule registry_ok_cong [rotated -1]) (simp_all add: o)
  show "cache_ok K ?s"
    unfolding cache_ok_def
  proof (intro conjI allI impI)
    fix j assume "j < nr_cpu_ids K"
    then have "cache_entry_ok s j" using sys_invD(2) [OF inv] by (simp add: cache_ok_def)
    then show "cache_entry_ok ?s j" by (rule cache_entry_ok_cong [rotated -1]) (simp_all add: r)
  qed (simp add: i)
qed simp_all

lemma sys_inv_event:
  assumes inv: "sys_inv K G s" and oom: "no_oom K" and law: "memory_laws K"
  shows "\<exists>s'. mem_event_step K e s = Some s' \<and> sys_inv K G s' \<and> same_tasks s s'"
proof (cases e)
  case (User_write m a p)
  have "same_tasks s (s\<lparr>mem := (mem s)\<lparr>frames := f\<rparr>\<rparr>)" for f by (rule same_tasks_mem) simp
  with User_write show ?thesis using inv sys_inv_user_write [OF inv, of m a p] by (simp add: Let_def)
next
  case (Write_fault m a)
  then show ?thesis using sys_inv_write_fault [OF inv oom] law by (simp only: memory_laws_def)
next
  case (Read_fault m a)
  let ?b = "a AND PAGE_MASK" and ?M' = "do_read_fault K m (a AND PAGE_MASK) (mem s)"
  have "same_tasks s (s\<lparr>mem := ?M'\<rparr>)" if "\<not> pte_present (pte_of (mem s) m ?b)"
  proof (rule same_tasks_mem)
    have "only_page m ?b (mem s) ?M'"
      using that law sys_invD(3) [OF inv]
      by (simp add: memory_laws_def read_fault_law_def Let_def page_base_aligned)
    then show "mm_owner (mms ?M' k) = owner s k" for k by (rule only_page_areas)
  qed
  with Read_fault show ?thesis
    using inv law sys_inv_read_fault [OF inv, of m ?b]
    by (simp add: Let_def memory_laws_def page_base_aligned)
next
  case (Anon_fault m a)
  then show ?thesis using sys_inv_anon_fault [OF inv oom] law by (simp only: memory_laws_def)
next
  case (Unmap m st len)
  obtain r s' where "vm_munmap K m st len s = Some (r, s')" "sys_inv K G s'" "same_tasks s s'"
    by (rule sys_inv_unmap [OF inv oom]) (use law in \<open>auto simp: memory_laws_def\<close>)
  with Unmap show ?thesis by simp
next
  case (Set_areas m vs brk)
  let ?f = "\<lambda>mm. mm\<lparr>mm_mmap := vs, mm_brk := brk\<rparr>"
  have "same_tasks s (s\<lparr>mem := upd_mm m ?f (mem s)\<rparr>)" by (rule same_tasks_mem) simp
  with Set_areas show ?thesis using sys_inv_areas [OF inv, of ?f m] by simp
next
  case (Switch_cpu i)
  have "same_tasks s (s\<lparr>this_cpu := i\<rparr>)"
    by (intro same_tasksI registry_map_cong) (simp_all add: owner_of_def fun_eq_iff)
  with Switch_cpu show ?thesis using inv sys_inv_cpu [OF inv, of i] by simp
qed

lemma sys_inv_run_events:
  assumes "sys_inv K G s" and "no_oom K" and "memory_laws K"
  shows "\<exists>s'. run_events K es s = Some s' \<and> sys_inv K G s' \<and> same_tasks s s'"
  using assms(1)
proof (induction es arbitrary: s)
  case (Cons e es)
  from sys_inv_event [OF Cons.prems assms(2,3), of e] obtain s1 where
    "mem_event_step K e s = Some s1" "sys_inv K G s1" "same_tasks s s1" by blast
  with Cons.IH [of s1] show ?case by (auto intro: same_tasks_trans)
qed simp

section \<open>Recovering the dirty pages\<close>

definition restore_laws :: "'k kernel_scheme \<Rightarrow> bool" where
  "restore_laws K \<longleftrightarrow> copy_to_user_law K \<and> copy_mapped_law K \<and> zap_law K"

lemma copy_to_user_lawD:
  assumes "copy_to_user_law K" and "mem_wf M" and "page_aligned a" and "copy_to_user K m a p M = (0, M')"
  shows "mem_wf M'" and "only_page m a M M'" and "pte_present (pte_of M' m a)"
    and "pte_rw (pte_of M' m a)" and "content M' m a = p"
  using assms(1) [unfolded copy_to_user_law_def, rule_format, OF assms(2,3), of m p]
  by (simp_all add: assms(4))

lemma page_inv_step:
  assumes inv: "page_inv K m orig U data M" and only: "only_page m b M M'"
    and ex: "pte_present (pte_of M' m b) \<Longrightarrow> exclusive M' m b \<or> \<not> anon_page M' m b"
    and ok: "pages_ok K data'"
    and get: "\<And>k. k \<noteq> b \<Longrightarrow> get_snapshot_page K k data' = get_snapshot_page K k data"
    and list: "dirty_pages (ss data') = remove1 b (dirty_pages (ss data))"
    and same: "same_but_pages data data'" and at: "page_ok_at K m orig U data' M' b"
  shows "page_inv K m orig U data' M'"
proof -
  have dist: "distinct (dirty_pages (ss data))" using inv by (rule page_invD)
  have "page_ok_at K m orig U data' M' k" for k
  proof (cases "k = b")
    case False
    then have "page_ok_at K m orig U data M' k"
      using page_ok_only_page [OF only _ ex page_inv_at [OF inv, of k]] by auto
    with False dist show ?thesis by (simp add: get list)
  qed (use at in simp)
  then show ?thesis
    using ok dist same page_invD(3) [OF inv]
    by (simp add: page_inv_def list is_snapshotted_address_def same_but_pages_def)
qed

lemma unlist_page_facts:
  assumes "pages_ok K data" and sp: "get_snapshot_page K b data = Some sp"
  shows "pages_ok K (unlist_page K b data)"
    and "get_snapshot_page K k (unlist_page K b data) =
           (if k = b then Some (sp\<lparr>in_dirty_list := False\<rparr>) else get_snapshot_page K k data)"
    and "dirty_pages (ss (unlist_page K b data)) = remove1 b (dirty_pages (ss data))"
    and "same_but_pages data0 (unlist_page K b data) = same_but_pages data0 data"
  using assms by (simp_all add: unlist_page_def page_simps)

text \<open>What one iteration guarantees.\<close>

definition recovered_page ::
  "'k kernel_scheme \<Rightarrow> mm_id \<Rightarrow> (u64 \<Rightarrow> page option) \<Rightarrow> u64 set \<Rightarrow> u64 \<Rightarrow> task_data \<Rightarrow> mem \<Rightarrow> task_data \<Rightarrow> mem \<Rightarrow> bool" where
  "recovered_page K m orig U b data M data' M' \<longleftrightarrow>
     page_inv K m orig U data' M' \<and> mem_wf M' \<and> only_page m b M M' \<and>
     dirty_pages (ss data') = remove1 b (dirty_pages (ss data)) \<and> same_but_pages data data' \<and>
     (\<forall>k. k \<noteq> b \<longrightarrow> get_snapshot_page K k data' = get_snapshot_page K k data) \<and>
     (\<forall>n orig' U' x. n \<noteq> m \<longrightarrow> page_inv K n orig' U' x M \<longrightarrow> page_inv K n orig' U' x M')"

lemma recovered_pageI:
  assumes inv: "page_inv K m orig U data M" and wf: "mem_wf M'" and only: "only_page m b M M'"
    and ex: "pte_present (pte_of M' m b) \<Longrightarrow> exclusive M' m b \<or> \<not> anon_page M' m b"
    and ok: "pages_ok K data'" and sp: "get_snapshot_page K b data' = Some sp"
    and get: "\<And>k. k \<noteq> b \<Longrightarrow> get_snapshot_page K k data' = get_snapshot_page K k data"
    and list: "dirty_pages (ss data') = dirty_pages (ss data)" and same: "same_but_pages data data'"
    and at: "page_ok K m (orig b) (b \<in> U) False (Some (sp\<lparr>in_dirty_list := False\<rparr>)) M' b"
  shows "recovered_page K m orig U b data M (unlist_page K b data') M'"
proof -
  note un = unlist_page_facts [OF ok sp]
  have "page_ok_at K m orig U (unlist_page K b data') M' b"
    using at page_invD(2) [OF inv] by (simp add: un list)
  then have "page_inv K m orig U (unlist_page K b data') M'"
    using inv only ex un(1) by (rule_tac page_inv_step [of K m orig U data M b]) (auto simp: un get list same)
  moreover have "page_inv K n orig' U' x M'" if "n \<noteq> m" "page_inv K n orig' U' x M" for n orig' U' x
    using that(2) only ex by (rule page_inv_only_page) (use that(1) in simp_all)
  ultimately show ?thesis
    using wf only by (auto simp: recovered_page_def un get list same)
qed

lemma recover_dirty_page_ok:
  assumes inv: "page_inv K m orig U data (mem s)" and wf: "mem_wf (mem s)"
    and listed: "b \<in> set (dirty_pages (ss data))" and law: "restore_laws K"
    and area: "orig b \<noteq> None \<Longrightarrow> area_writable (mem s) m b"
  shows "\<exists>data' M' fl. recover_dirty_page K m m b data s =
           Some (data', s\<lparr>mem := M', tlb_flushes := fl\<rparr>) \<and>
         recovered_page K m orig U b data (mem s) data' M'"
proof -
  note ok = page_invD(1) [OF inv] and at = page_inv_at [OF inv, of b]
  obtain sp where sp: "get_snapshot_page K b data = Some sp"
    using at listed by (cases "get_snapshot_page K b data") (auto simp: page_ok_def)
  have al: "page_aligned b" using at sp by (simp add: page_ok_def)
  have s_eq: "s = s\<lparr>mem := mem s, tlb_flushes := tlb_flushes s\<rparr>" by simp
  have same_mem: ?thesis if "recover_dirty_page K m m b data s = Some (unlist_page K b data, s)"
    and clean: "page_ok K m (orig b) (b \<in> U) False (Some (sp\<lparr>in_dirty_list := False\<rparr>)) (mem s) b"
  proof -
    note un = unlist_page_facts [OF ok sp]
    have "page_inv K m orig U (unlist_page K b data) (mem s)"
      using inv un(1) page_invD(2) [OF inv] clean
      by (rule_tac page_inv_upd [of K m orig U data _ _ b]) (auto simp: un)
    then have "recovered_page K m orig U b data (mem s) (unlist_page K b data) (mem s)"
      using wf by (simp add: recovered_page_def un)
    then show ?thesis using that(1) s_eq by metis
  qed
  consider (dirty) "dirty sp" | (none) "\<not> dirty sp" "is_snapshot_page_none_pte sp"
    | (clean) "\<not> dirty sp" "\<not> is_snapshot_page_none_pte sp" by blast
  then show ?thesis
  proof cases
    case dirty
    have d: "\<not> is_snapshot_page_none_pte sp" "has_been_copied sp" "page_data sp = orig b"
        "orig b \<noteq> None" "b \<notin> U"
      using at sp dirty by (auto simp: page_ok_def split: if_splits)
    then obtain p where p: "orig b = Some p" by blast
    have "fst (copy_to_user K m b p (mem s)) = 0"
      using law wf area p by (simp add: restore_laws_def copy_mapped_law_def)
    then obtain M1 where copy: "copy_to_user K m b p (mem s) = (0, M1)" by (metis prod.collapse)
    have M1: "mem_wf M1" "only_page m b (mem s) M1" "pte_present (pte_of M1 m b)"
      "pte_rw (pte_of M1 m b)" "content M1 m b = p"
      using law copy_to_user_lawD [OF _ wf al copy] by (simp_all add: restore_laws_def)
    have ex: "exclusive M1 m b" "anon_page M1 m b" using mem_wf_exclusive [OF M1(1,3,4)] by simp_all
    have walk: "walk_page_table (mms M1 m) b = Some b"
      using mem_wf_tables [OF M1(1,3)] page_mask_of_aligned [OF al]
      by (simp add: walk_page_table_def entry_unusable_def)
    let ?M' = "ptep_set_wrprotect m b M1"
    define data1 where "data1 = upd_snapshot_page K b (\<lambda>p. p\<lparr>dirty := False\<rparr>) data"
    define data2 where "data2 = upd_snapshot_page K b (\<lambda>p. p\<lparr>has_had_pte := True\<rparr>) data1"
    define data3 where "data3 = upd_snapshot_page K b set_snapshot_page_private data2"
    let ?sp = "set_snapshot_page_private (sp\<lparr>dirty := False, has_had_pte := True\<rparr>)"
    have ok3: "pages_ok K data1" "pages_ok K data2" "pages_ok K data3"
      using ok by (simp_all add: data1_def data2_def data3_def page_simps)
    have get3: "get_snapshot_page K k data3 = (if k = b then Some ?sp else get_snapshot_page K k data)" for k
      using ok ok3 sp by (simp add: data1_def data2_def data3_def page_simps)
    have run: "recover_dirty_page K m m b data s = Some (unlist_page K b data3,
        s\<lparr>mem := ?M', tlb_flushes := tlb_flushes s @ [(m, b, b + PAGE_SIZE)]\<rparr>)"
      using sp d p dirty copy walk
      by (simp add: recover_dirty_page_def do_recover_page_def data1_def data2_def data3_def
            Let_def flush_tlb_def)
    have only': "only_page m b (mem s) ?M'"
      using M1(2) only_page_wrprotect [of m b M1] by (auto simp: only_page_def)
    have get_other: "k \<noteq> b \<Longrightarrow> get_snapshot_page K k data3 = get_snapshot_page K k data" for k
      by (simp add: get3)
    have at3: "page_ok K m (orig b) (b \<in> U) False (Some (?sp\<lparr>in_dirty_list := False\<rparr>)) ?M' b"
      using d(1,5) M1(3,5) ex by (simp add: page_ok_def p al d(3))
    have same3: "dirty_pages (ss data3) = dirty_pages (ss data)" "same_but_pages data data3"
      by (simp_all add: data1_def data2_def data3_def)
    have "recovered_page K m orig U b data (mem s) (unlist_page K b data3) ?M'"
      by (rule recovered_pageI [OF inv _ only' _ ok3(3) _ get_other same3 at3])
        (use M1(1) ex in \<open>simp_all add: get3\<close>)
    with run show ?thesis by blast
  next
    case none
    have n: "has_had_pte sp" "\<not> is_snapshot_page_private sp" "orig b = None"
      using at sp none listed by (auto simp: page_ok_def split: if_splits)
    let ?M' = "zap_page_range K m b PAGE_SIZE (mem s)"
    have M': "mem_wf ?M'" "only_page m b (mem s) ?M'" "\<not> pte_present (pte_of ?M' m b)"
      using law wf al unfolding restore_laws_def zap_law_def Let_def by blast+
    define data1 where "data1 = upd_snapshot_page K b
       (\<lambda>p. (set_snapshot_page_none_pte p)\<lparr>has_had_pte := False\<rparr>) data"
    let ?sp = "(set_snapshot_page_none_pte sp)\<lparr>has_had_pte := False\<rparr>"
    have ok1: "pages_ok K data1" using ok by (simp add: data1_def page_simps)
    have get1: "get_snapshot_page K k data1 = (if k = b then Some ?sp else get_snapshot_page K k data)" for k
      using ok sp by (simp add: data1_def page_simps)
    have "recover_dirty_page K m m b data s = Some (unlist_page K b data1, s\<lparr>mem := ?M'\<rparr>)"
      using sp none n by (simp add: recover_dirty_page_def data1_def Let_def do_recover_none_pte_def)
    then have run: "recover_dirty_page K m m b data s =
        Some (unlist_page K b data1, s\<lparr>mem := ?M', tlb_flushes := tlb_flushes s\<rparr>)" by simp
    have "recovered_page K m orig U b data (mem s) (unlist_page K b data1) ?M'"
      using inv M'(1,2) _ ok1
      by (rule recovered_pageI) (use M' n al none in
          \<open>auto simp: get1 page_ok_def untouched_def, simp_all add: data1_def\<close>)
    with run show ?thesis by blast
  next
    case clean
    have "recover_dirty_page K m m b data s = Some (unlist_page K b data, s)"
      using sp clean by (simp add: recover_dirty_page_def)
    moreover have "page_ok K m (orig b) (b \<in> U) False (Some (sp\<lparr>in_dirty_list := False\<rparr>)) (mem s) b"
      using at sp clean by (simp add: page_ok_def)
    ultimately show ?thesis by (rule same_mem)
  qed
qed

lemma recovered_page_trans:
  assumes one: "recovered_page K m orig U b data M data1 M1"
    and inv': "page_inv K m orig U data' M'" and wf': "mem_wf M'"
    and "same_but_pages data1 data'"
    and "\<forall>n. mm_mmap (mms M' n) = mm_mmap (mms M1 n) \<and> mm_owner (mms M' n) = mm_owner (mms M1 n)"
    and "\<forall>n orig' U' x. n \<noteq> m \<longrightarrow> page_inv K n orig' U' x M1 \<longrightarrow> page_inv K n orig' U' x M'"
  shows "same_but_pages data data' \<and>
    (\<forall>n. mm_mmap (mms M' n) = mm_mmap (mms M n) \<and> mm_owner (mms M' n) = mm_owner (mms M n)) \<and>
    (\<forall>n orig' U' x. n \<noteq> m \<longrightarrow> page_inv K n orig' U' x M \<longrightarrow> page_inv K n orig' U' x M')"
  using assms only_page_areas [of m b M M1] same_but_pages_trans [of data data1 data']
  unfolding recovered_page_def by metis

lemma recover_dirty_pages_ok:
  assumes "page_inv K m orig U data (mem s)" and "mem_wf (mem s)" and law: "restore_laws K"
    and "dirty_pages (ss data) = bs"
    and "\<And>b. orig b \<noteq> None \<Longrightarrow> area_writable (mem s) m b"
  shows "\<exists>data' M' fl. recover_dirty_pages K m m bs data s = Some (data', s\<lparr>mem := M', tlb_flushes := fl\<rparr>) \<and>
     page_inv K m orig U data' M' \<and> mem_wf M' \<and> dirty_pages (ss data') = [] \<and>
     same_but_pages data data' \<and>
     (\<forall>n. mm_mmap (mms M' n) = mm_mmap (mms (mem s) n) \<and> mm_owner (mms M' n) = owner s n) \<and>
     (\<forall>n orig' U' x. n \<noteq> m \<longrightarrow> page_inv K n orig' U' x (mem s) \<longrightarrow> page_inv K n orig' U' x M')"
  using assms(1,2,4,5)
proof (induction bs arbitrary: data s)
  case Nil
  have "s = s\<lparr>mem := mem s, tlb_flushes := tlb_flushes s\<rparr>" by simp
  then have "recover_dirty_pages K m m [] data s =
      Some (data, s\<lparr>mem := mem s, tlb_flushes := tlb_flushes s\<rparr>)" by simp
  with Nil show ?case
    by (intro exI [of _ data] exI [of _ "mem s"] exI [of _ "tlb_flushes s"]) simp
next
  case (Cons b bs)
  have dist: "distinct (b # bs)" using page_invD(2) [OF Cons.prems(1)] Cons.prems(3) by simp
  obtain data1 M1 fl1 where
    run1: "recover_dirty_page K m m b data s = Some (data1, s\<lparr>mem := M1, tlb_flushes := fl1\<rparr>)"
    and one: "recovered_page K m orig U b data (mem s) data1 M1"
    using recover_dirty_page_ok [OF Cons.prems(1,2) _ law, of b] Cons.prems(3,4) by auto
  let ?s1 = "s\<lparr>mem := M1, tlb_flushes := fl1\<rparr>"
  have area: "area_writable (mem ?s1) m k" if "area_writable (mem s) m k" for k
    using that one by (simp add: area_writable_def recovered_page_def only_page_def)
  have "page_inv K m orig U data1 (mem ?s1)" "mem_wf (mem ?s1)" "dirty_pages (ss data1) = bs"
    using one Cons.prems(3) by (simp_all add: recovered_page_def)
  moreover have "area_writable (mem ?s1) m k" if "orig k \<noteq> None" for k
    using Cons.prems(4) [OF that] by (rule area)
  ultimately have "\<exists>data' M' fl. recover_dirty_pages K m m bs data1 ?s1 = Some (data', ?s1\<lparr>mem := M', tlb_flushes := fl\<rparr>) \<and>
     page_inv K m orig U data' M' \<and> mem_wf M' \<and> dirty_pages (ss data') = [] \<and>
     same_but_pages data1 data' \<and>
     (\<forall>n. mm_mmap (mms M' n) = mm_mmap (mms (mem ?s1) n) \<and> mm_owner (mms M' n) = owner ?s1 n) \<and>
     (\<forall>n orig' U' x. n \<noteq> m \<longrightarrow> page_inv K n orig' U' x (mem ?s1) \<longrightarrow> page_inv K n orig' U' x M')"
    by (rule Cons.IH)
  then obtain data' M' fl where
    run: "recover_dirty_pages K m m bs data1 ?s1 = Some (data', ?s1\<lparr>mem := M', tlb_flushes := fl\<rparr>)"
    and rest: "page_inv K m orig U data' M'" "mem_wf M'" "dirty_pages (ss data') = []"
      "same_but_pages data1 data'"
      "\<forall>n. mm_mmap (mms M' n) = mm_mmap (mms M1 n) \<and> mm_owner (mms M' n) = mm_owner (mms M1 n)"
      "\<forall>n orig' U' x. n \<noteq> m \<longrightarrow> page_inv K n orig' U' x M1 \<longrightarrow> page_inv K n orig' U' x M'"
    by auto
  have "recover_dirty_pages K m m (b # bs) data s = Some (data', s\<lparr>mem := M', tlb_flushes := fl\<rparr>)"
    using run1 run by simp
  moreover note recovered_page_trans [OF one rest(1,2,4,5,6)]
  ultimately show ?case using rest(1-3) by blast
qed

section \<open>Restoring the memory of a process\<close>

text \<open>What a read of the page shows to the process.\<close>

definition user_view :: "'k kernel_scheme \<Rightarrow> mm_id \<Rightarrow> mem \<Rightarrow> u64 \<Rightarrow> page" where
  "user_view K m M b = (if pte_present (pte_of M m b) then content M m b else backing K m b)"

text \<open>The bytes the snapshot promises for a page it tracks.\<close>

definition promised :: "'k kernel_scheme \<Rightarrow> mm_id \<Rightarrow> (u64 \<Rightarrow> page option) \<Rightarrow> u64 set \<Rightarrow> u64 \<Rightarrow> page option" where
  "promised K m orig U b =
     (case orig b of Some p \<Rightarrow> Some p | None \<Rightarrow> if b \<in> U then Some (backing K m b) else None)"

lemma page_inv_clean:
  assumes inv: "page_inv K m orig U data M" and "dirty_pages (ss data) = []"
    and "promised K m orig U b = Some p"
  shows "user_view K m M b = p"
  using page_inv_at [OF inv, of b] assms(2,3)
  by (auto simp: page_ok_def promised_def user_view_def untouched_def split: option.splits if_splits)

lemma sys_inv_recovered:
  assumes inv: "sys_inv K G s" and tr: "tracked s m d data"
    and inv': "page_inv K m (fst (G m)) (snd (G m)) data' M'" and wf: "mem_wf M'"
    and same: "same_but_pages data data'" and own: "\<forall>n. mm_owner (mms M' n) = owner s n"
    and others: "\<forall>n orig' U' x. n \<noteq> m \<longrightarrow> page_inv K n orig' U' x (mem s) \<longrightarrow> page_inv K n orig' U' x M'"
  shows "sys_inv K G (put_td d data' (s\<lparr>mem := M', tlb_flushes := fl\<rparr>))"
proof -
  let ?s = "put_td d data' (s\<lparr>mem := M', tlb_flushes := fl\<rparr>)"
  have d: "registry_map s (owner s m) = Some d" "td_heap s d = Some data"
    using tr by (simp_all add: tracked_def)
  have tsk: "tsk data' = tsk data" using same by (rule same_but_pages_fields)
  have o: "owner_of ?s = owner_of s" using d tsk by (simp add: owner_of_def fun_eq_iff)
  have r: "registry_map ?s = registry_map s" by (rule registry_map_cong) (simp_all add: o)
  have "registry_ok ?s"
    using sys_invD(1) [OF inv] by (rule registry_ok_cong [rotated -1]) (simp_all add: o d)
  moreover have "cache_ok K ?s"
    using sys_invD(2) [OF inv]
    by (rule cache_ok_cong [rotated -1]) (simp_all add: r d same_but_pages_have [OF same] split: if_splits)
  moreover have "page_inv K n (fst (G n)) (snd (G n)) x M'"
    if "registry_map s (owner s n) = Some e" "td_heap ?s e = Some x" "have_snapshot x" for n e x
  proof (cases "n = m")
    case True
    with that d inv' show ?thesis by simp
  next
    case False
    then have "e \<noteq> d" using that(1) sys_invD(5) [OF inv d(1), of n] by auto
    then have "page_inv K n (fst (G n)) (snd (G n)) x (mem s)"
      using that sys_invD(4) [OF inv that(1), of x] by simp
    with others False show ?thesis by blast
  qed
  moreover have "\<forall>n n'. registry_map s (owner s n) \<noteq> None \<longrightarrow> owner s n' = owner s n \<longrightarrow> n' = n"
    using inv unfolding sys_inv_def by blast
  ultimately show ?thesis
    using wf own by (simp add: sys_inv_def r)
qed

text \<open>The loop of \<open>recover_memory_snapshot\<close> on the data of a registered process.\<close>

definition recover_process ::
  "'k kernel_scheme \<Rightarrow> mm_id \<Rightarrow> nat \<Rightarrow> 's mem_state_scheme \<Rightarrow> 's mem_state_scheme option" where
  "recover_process K m d s =
     do { data \<leftarrow> td_heap s d;
          (data', s') \<leftarrow> recover_dirty_pages K m m (dirty_pages (ss data)) data s;
          Some (put_td d data' s') }"

section \<open>A concrete process\<close>

text \<open>
  Process 7 with address space 0, one area of two pages and a snapshot: the first page had
  a writable entry when the snapshot was taken, the second had none.
\<close>

definition demo_page :: page where "demo_page = [1, 2, 3]"

definition demo_mm :: "task \<Rightarrow> (u64 \<Rightarrow> pte) \<Rightarrow> mm_struct" where
  "demo_mm t ps =
     \<lparr>mm_mmap = [\<lparr>vma_id = 1, vm_start = 0x1000, vm_end = 0x3000, vm_flags = 3, vma_is_anonymous = True\<rparr>],
      mm_brk = 0x3000, start_stack = 0, mm_owner = t, pgds = (\<lambda>_. Entry_table), p4ds = (\<lambda>_. Entry_table),
      puds = (\<lambda>_. Entry_table), pmds = (\<lambda>_. Entry_table), ptes = ps\<rparr>"

definition demo_mem :: mem where
  "demo_mem =
     \<lparr>mms = (\<lambda>m. if m = 0 then demo_mm 7 ((\<lambda>_. empty_pte)(0x1000 := \<lparr>pte_present = True, pte_rw = False, pte_pfn = 0\<rparr>))
              else demo_mm 0 (\<lambda>_. empty_pte)),
      frames = (\<lambda>_. demo_page), frame_anon = (\<lambda>_. True), frame_top = 1\<rparr>"

definition demo_data :: task_data where
  "demo_data =
     \<lparr>tsk = 7,
      ss = zero_snapshot\<lparr>status := 3,
             snapshotted_vmas := [\<lparr>sv_id = 1, sv_start = 0x1000, sv_end = 0x3000,
                is_anonymous_private = True, sv_prot = 7\<rparr>],
             ss_pages := (\<lambda>_. [])(1 := [\<lparr>page_base = 0x1000, page_prot = 1, page_data = None,
                has_been_copied = False, has_had_pte = True, dirty = False, in_dirty_list = False\<rparr>])\<rparr>,
      config = 0\<rparr>"

definition demo_mem_state :: mem_state where
  "demo_mem_state =
     \<lparr>alloc_next = 200, lheap = \<lparr>next_of = (\<lambda>n. n), prev_of = (\<lambda>n. n)\<rparr>, vmranges = (\<lambda>_. None),
      td_heap = [100 \<mapsto> demo_data], task_data_list = [100], last_task = (\<lambda>_. 0),
      last_task_data = (\<lambda>_. None), this_cpu = 0, current = 7, rcu_pending = [],
      tasks = (\<lambda>_. \<lparr>task_mm = 0, task_files = 0, task_group_leader = 7, task_next_thread = 7,
                     task_pid_alive = True, task_usage = 1, task_regs = \<lparr>ip = 0, gprs = []\<rparr>\<rparr>),
      mem = demo_mem, tlb_flushes = []\<rparr>"

definition demo_ghost :: ghost where
  "demo_ghost = (\<lambda>m. ([0x1000 \<mapsto> demo_page], {0x2000}))"

lemma demo_pte: "pte_of demo_mem m a = (if m = 0 \<and> a = 0x1000 then \<lparr>pte_present = True, pte_rw = False, pte_pfn = 0\<rparr> else empty_pte)"
  by (simp add: demo_mem_def demo_mm_def)

lemma demo_mem_wf: "mem_wf demo_mem"
  unfolding mem_wf_def demo_pte
  by (auto simp: empty_pte_def page_aligned_def offset_in_page_def) (auto simp: demo_mem_def demo_mm_def)

lemma demo_pages: "get_snapshot_page ref_kernel b demo_data =
    (if b = 0x1000 then Some \<lparr>page_base = 0x1000, page_prot = 1, page_data = None,
        has_been_copied = False, has_had_pte = True, dirty = False, in_dirty_list = False\<rparr> else None)"
  by (auto simp: get_snapshot_page_def demo_data_def)

lemma demo_page_inv: "page_inv ref_kernel 0 [0x1000 \<mapsto> demo_page] {0x2000} demo_data demo_mem"
proof -
  have "pages_ok ref_kernel demo_data" by (simp add: pages_ok_def demo_data_def)
  moreover have "dirty_pages (ss demo_data) = []" by (simp add: demo_data_def zero_snapshot_def)
  moreover have "is_snapshotted_address demo_data 0x2000"
    by (simp add: is_snapshotted_address_def demo_data_def)
  moreover have "exclusive demo_mem 0 0x1000"
    by (simp add: exclusive_def demo_pte empty_pte_def)
  moreover have "content demo_mem 0 b = demo_page" "anon_page demo_mem 0 b" for b
    by (simp_all add: content_def anon_page_def demo_mem_def)
  ultimately show ?thesis
    by (auto simp: page_inv_def page_ok_def demo_pages demo_pte untouched_def page_flag_defs empty_pte_def
          page_aligned_def offset_in_page_def)
qed

lemma demo_sys_inv: "sys_inv ref_kernel demo_ghost demo_mem_state"
proof -
  have ok: "registry_ok demo_mem_state"
    by (simp add: registry_ok_def demo_mem_state_def owner_of_def demo_data_def)
  have r: "registry_map demo_mem_state t = (if t = 7 then Some 100 else None)" for t
    by (simp add: registry_map_def demo_mem_state_def owner_of_def demo_data_def)
  have l: "last_task demo_mem_state i = 0" "last_task_data demo_mem_state i = None"
    "this_cpu demo_mem_state = 0" for i
    by (simp_all add: demo_mem_state_def)
  have "cache_ok ref_kernel demo_mem_state"
    by (simp add: cache_ok_def cache_entry_ok_def r l)
  moreover have m: "mem demo_mem_state = demo_mem" "td_heap demo_mem_state = [100 \<mapsto> demo_data]"
    by (simp_all add: demo_mem_state_def)
  moreover have "mm_owner (mms demo_mem m) = (if m = 0 then 7 else 0)" for m
    by (simp add: demo_mem_def demo_mm_def)
  ultimately show ?thesis
    using ok demo_mem_wf demo_page_inv m
    by (auto simp: sys_inv_def r demo_ghost_def split: if_splits)
qed

lemma ref_memory_laws: "memory_laws ref_kernel" "restore_laws ref_kernel"
  by (simp_all add: memory_laws_def restore_laws_def ref_laws)

text \<open>The process writes to both pages, changing the CPU in between.\<close>

definition demo_events :: "mem_event list" where
  "demo_events = [Write_fault 0 0x1008, User_write 0 0x1000 [9], Switch_cpu 1, Anon_fault 0 0x2010]"

definition run_check :: "mem_state option \<Rightarrow> u64 list \<Rightarrow> page \<Rightarrow> bool" where
  "run_check out bs p =
     (case out of None \<Rightarrow> False
      | Some s1 \<Rightarrow>
          (case td_heap s1 100 of None \<Rightarrow> False
           | Some data \<Rightarrow>
               registry_map s1 (owner s1 0) = Some 100 \<and> have_snapshot data \<and> dirty_pages (ss data) = bs \<and>
               list_all (area_writable (mem s1) 0) bs \<and> user_view ref_kernel 0 (mem s1) 0x1000 = p))"

lemmas run_defs =
  do_wp_page_hook_def page_add_new_anon_rmap_hook_def get_task_data_with_cache_def get_task_data_def
  demo_mem_state_def demo_data_def demo_mem_def demo_mm_def have_snapshot_def SNAPSHOT_MADE_def
  record_dirty_page_def get_snapshot_page_def upd_snapshot_page_def set_bucket_def page_flag_defs
  put_td_def upd_ss_def kmalloc_def flush_tlb_def set_pte_def upd_mm_def pte_mkwrite_def PAGE_MASK_def
  PAGE_SIZE_def empty_pte_def zero_snapshot_def add_snapshot_page_def hash_add_def
  is_snapshotted_address_def map_new_def fill_pte_def run_check_def demo_events_def registry_map_def
  owner_of_def area_writable_def VM_WRITE_def user_view_def content_def Let_def

lemma demo_run: "run_check (run_events ref_kernel demo_events demo_mem_state) [0x1000, 0x2000] [9]"
  by (simp add: run_defs)

lemma demo_run_state:
  obtains s1 where "run_events ref_kernel demo_events demo_mem_state = Some s1"
    and "area_writable (mem s1) 0 0x1000" and "user_view ref_kernel 0 (mem s1) 0x1000 = [9]"
  using demo_run by (auto simp: run_check_def split: option.splits)

lemma demo_tracked: "tracked demo_mem_state 0 100 demo_data"
  by (simp add: tracked_def registry_map_def owner_of_def demo_mem_state_def demo_mem_def demo_mm_def
        demo_data_def have_snapshot_def SNAPSHOT_MADE_def)

section \<open>The theorems\<close>

text \<open>C5. The hooks are total and keep the invariant: from a state that satisfies it, any
  sequence of user writes, page faults, \<open>munmap\<close> calls, area changes and CPU switches, of any
  process, runs to its end (no hook dereferences a NULL or freed pointer) and ends in a
  state that satisfies the invariant of every process with a snapshot.\<close>

theorem hooks_preserve_snapshot:
  assumes "sys_inv K G s" and "no_oom K" and "memory_laws K"
  shows "\<exists>s'. run_events K es s = Some s' \<and> sys_inv K G s'"
  using sys_inv_run_events [OF assms] by blast

theorem hooks_preserve_snapshot_witness:
  "\<exists>s'. run_events ref_kernel [Write_fault 0 0x1008, User_write 0 0x1000 [9], Anon_fault 0 0x2000,
      Switch_cpu 1, Unmap 0 0x1000 0x1000] demo_mem_state = Some s' \<and> sys_inv ref_kernel demo_ghost s'"
  using demo_sys_inv ref_no_oom ref_memory_laws(1) by (rule hooks_preserve_snapshot)

lemma rollback:
  assumes "sys_inv K G s" and "no_oom K" and "memory_laws K" and "restore_laws K"
    and "tracked s m d data" and run: "run_events K es s = Some s1"
    and "\<And>b. fst (G m) b \<noteq> None \<Longrightarrow> area_writable (mem s1) m b"
  obtains s2 data2 where "recover_process K m d s1 = Some s2" and "tracked s2 m d data2"
    and "dirty_pages (ss data2) = []" and "sys_inv K G s2"
    and "\<And>b p. promised K m (fst (G m)) (snd (G m)) b = Some p \<Longrightarrow> user_view K m (mem s2) b = p"
proof -
  have inv1: "sys_inv K G s1" and "same_tasks s s1"
    using sys_inv_run_events [OF assms(1-3), of es] run by simp_all
  then obtain data1 where tr: "tracked s1 m d data1"
    using same_tasks_tracked assms(5) by blast
  from recover_dirty_pages_ok [OF sys_inv_tracked [OF inv1 tr] sys_invD(3) [OF inv1] assms(4) refl assms(7)]
  obtain data2 M' fl where
    rec: "recover_dirty_pages K m m (dirty_pages (ss data1)) data1 s1 = Some (data2, s1\<lparr>mem := M', tlb_flushes := fl\<rparr>)"
    and inv2: "page_inv K m (fst (G m)) (snd (G m)) data2 M'" "mem_wf M'"
    and empty: "dirty_pages (ss data2) = []" and same: "same_but_pages data1 data2"
    and areas: "\<forall>n. mm_mmap (mms M' n) = mm_mmap (mms (mem s1) n) \<and> mm_owner (mms M' n) = owner s1 n"
    and others: "\<forall>n orig' U' x. n \<noteq> m \<longrightarrow> page_inv K n orig' U' x (mem s1) \<longrightarrow> page_inv K n orig' U' x M'"
    by blast
  have own: "\<forall>n. mm_owner (mms M' n) = owner s1 n" using areas by blast
  let ?s2 = "put_td d data2 (s1\<lparr>mem := M', tlb_flushes := fl\<rparr>)"
  have inv': "sys_inv K G ?s2"
    by (rule sys_inv_recovered [OF inv1 tr inv2 same own others])
  have "recover_process K m d s1 = Some ?s2"
    using tr rec by (simp add: recover_process_def tracked_def)
  moreover have "tracked ?s2 m d data2"
  proof -
    have "registry_map ?s2 = registry_map s1"
      using tr same by (intro registry_map_cong)
        (auto simp: owner_of_def fun_eq_iff tracked_def same_but_pages_fields)
    then show ?thesis
      using tr own same_but_pages_have [OF same] by (simp add: tracked_def)
  qed
  moreover have "user_view K m (mem ?s2) b = p"
    if "promised K m (fst (G m)) (snd (G m)) b = Some p" for b p
    using page_inv_clean [OF inv2(1) empty that] by simp
  ultimately show ?thesis using that inv' empty by blast
qed

text \<open>C3. Rollback: after any such sequence, the loop over the dirty list shows the process the
  bytes of the snapshot again. Every page that had an entry when the snapshot was taken reads
  as it did then, every page of a snapshotted area that had none shows its backing again, the
  dirty list is empty, and the invariant holds for the next round. The pages to be written back
  have to lie in writable areas, which \<open>restore_vmas\<close> is there to ensure.\<close>

theorem memory_rollback:
  assumes "sys_inv K G s" and "no_oom K" and "memory_laws K" and "restore_laws K"
    and "tracked s m d data" and "run_events K es s = Some s1"
    and "\<forall>b \<in> dom (fst (G m)). area_writable (mem s1) m b"
  shows "\<exists>s2 data2. recover_process K m d s1 = Some s2 \<and> tracked s2 m d data2 \<and>
           dirty_pages (ss data2) = [] \<and>
           (\<forall>b p. promised K m (fst (G m)) (snd (G m)) b = Some p \<longrightarrow> user_view K m (mem s2) b = p) \<and>
           sys_inv K G s2"
proof -
  have "area_writable (mem s1) m b" if "fst (G m) b \<noteq> None" for b
    using that assms(7) by (simp add: dom_def)
  then obtain s2 data2 where "recover_process K m d s1 = Some s2" "tracked s2 m d data2"
    "dirty_pages (ss data2) = []" "sys_inv K G s2"
    "\<And>b p. promised K m (fst (G m)) (snd (G m)) b = Some p \<Longrightarrow> user_view K m (mem s2) b = p"
    by (rule rollback [OF assms(1-6)]) blast+
  then show ?thesis by blast
qed

theorem memory_rollback_witness:
  "\<exists>s1 s2. run_events ref_kernel demo_events demo_mem_state = Some s1 \<and>
     user_view ref_kernel 0 (mem s1) 0x1000 = [9] \<and>
     recover_process ref_kernel 0 100 s1 = Some s2 \<and>
     user_view ref_kernel 0 (mem s2) 0x1000 = demo_page \<and>
     user_view ref_kernel 0 (mem s2) 0x2000 = zero_page"
proof -
  obtain s1 where run: "run_events ref_kernel demo_events demo_mem_state = Some s1"
    and area: "\<forall>b \<in> dom (fst (demo_ghost 0)). area_writable (mem s1) 0 b"
    and nine: "user_view ref_kernel 0 (mem s1) 0x1000 = [9]"
    by (rule demo_run_state) (simp add: demo_ghost_def)
  have "tracked demo_mem_state 0 100 demo_data" by (rule demo_tracked)
  note rb = memory_rollback [OF demo_sys_inv ref_no_oom ref_memory_laws this run area]
  have "promised ref_kernel 0 (fst (demo_ghost 0)) (snd (demo_ghost 0)) 0x1000 = Some demo_page"
    "promised ref_kernel 0 (fst (demo_ghost 0)) (snd (demo_ghost 0)) 0x2000 = Some zero_page"
    by (simp_all add: promised_def demo_ghost_def)
  with rb run nine show ?thesis by blast
qed

end
