(* ===== verification/Restore.thy ===== *)
theory Restore
  imports Memory_Restore
begin

text \<open>
  The rest of the restore path of \<open>src/memory.c\<close>: \<open>restore_brk\<close>, \<open>restore_vmas\<close>,
  \<open>recover_memory_snapshot\<close> as a whole, and \<open>clean_memory_snapshot\<close>.
\<close>

section \<open>The program break\<close>

definition restore_brk ::
  "'k kernel_scheme \<Rightarrow> u64 \<Rightarrow> 's mem_state_scheme \<Rightarrow> (int \<times> 's mem_state_scheme) option" where
  "restore_brk K snapshotted_brk s =
     (let m = task_mm (tasks s (current s));
          current_brk = mm_brk (mms (mem s) m);
          success = (\<lambda>s. Some (0, s\<lparr>mem := upd_mm m (\<lambda>mm. mm\<lparr>mm_brk := snapshotted_brk\<rparr>) (mem s)\<rparr>))
      in if PAGE_ALIGN current_brk = PAGE_ALIGN snapshotted_brk then success s
         else if snapshotted_brk \<le> current_brk
         then do { (ret, s1) \<leftarrow> vm_munmap K m snapshotted_brk (current_brk - snapshotted_brk) s;
                   if ret < 0 then Some (- 1, s1) else success s1 }
         else case find_vma K (mms (mem s) m) current_brk of
                Some nxt \<Rightarrow>
                  if snapshotted_brk + PAGE_SIZE > vm_start nxt then Some (- 1, s)
                  else (let (ret, M) = vm_brk K m current_brk (snapshotted_brk - current_brk) (mem s);
                            s1 = s\<lparr>mem := M\<rparr>
                        in if ret < 0 then Some (- 1, s1) else success s1)
              | None \<Rightarrow>
                  (let (ret, M) = vm_brk K m current_brk (snapshotted_brk - current_brk) (mem s);
                       s1 = s\<lparr>mem := M\<rparr>
                   in if ret < 0 then Some (- 1, s1) else success s1))"

section \<open>The areas\<close>

text \<open>
  The loop holds a pointer to an area, \<open>vma_iter\<close>, and reads its fields again in every
  iteration, after \<open>vm_munmap\<close> and \<open>vm_mmap\<close> may have cut, moved or freed the object. The
  pointer is the identity of the area; reading a pointer to an area that is no longer in the
  list is \<^term>\<open>None\<close>. The snapshotted areas do not change, so their iterator is the rest
  of the list, and the list head is the empty rest.
\<close>

fun area_from :: "nat \<Rightarrow> vm_area list \<Rightarrow> vm_area list option" where
  "area_from i [] = None"
| "area_from i (v # vs) = (if vma_id v = i then Some (v # vs) else area_from i vs)"

definition vma_of :: "'s mem_state_scheme \<Rightarrow> mm_id \<Rightarrow> nat \<Rightarrow> vm_area option" where
  "vma_of s m i = map_option hd (area_from i (mm_mmap (mms (mem s) m)))"

definition vm_next :: "'s mem_state_scheme \<Rightarrow> mm_id \<Rightarrow> nat \<Rightarrow> nat option" where
  "vm_next s m i =
     (case area_from i (mm_mmap (mms (mem s) m)) of
        Some (v # w # ws) \<Rightarrow> Some (vma_id w)
      | _ \<Rightarrow> None)"

definition first_vma :: "'s mem_state_scheme \<Rightarrow> mm_id \<Rightarrow> nat option" where
  "first_vma s m = (case mm_mmap (mms (mem s) m) of [] \<Rightarrow> None | v # vs \<Rightarrow> Some (vma_id v))"

definition IS_ERR :: "u64 \<Rightarrow> bool" where
  "IS_ERR x \<longleftrightarrow> x \<ge> - 4095"

text \<open>What one iteration does to the memory: unmap, map or complain; \<^term>\<open>Inl\<close> leaves the
  function with the given result.\<close>

definition restore_gap ::
  "'k kernel_scheme \<Rightarrow> mm_id \<Rightarrow> snapshot_vma list \<Rightarrow> bool \<Rightarrow> bool \<Rightarrow> u64 \<Rightarrow> u64 \<Rightarrow> 's mem_state_scheme
   \<Rightarrow> ((int \<times> 's mem_state_scheme) + 's mem_state_scheme) option" where
  "restore_gap K cm svs in_ss_vmas in_vmas cursor next_cursor s =
     (if next_cursor \<noteq> cursor \<and> in_vmas \<and> \<not> in_ss_vmas
      then do { (res, s1) \<leftarrow> vm_munmap K cm cursor (next_cursor - cursor) s;
                Some (if res \<noteq> 0 then Inl (res, s1) else Inr s1) }
      else if next_cursor \<noteq> cursor \<and> \<not> in_vmas \<and> in_ss_vmas
      then (case svs of
              [] \<Rightarrow> None
            | sv # _ \<Rightarrow>
                if is_anonymous_private sv
                then let (addr, M) = vm_mmap_anon K cm cursor (next_cursor - cursor) (sv_prot sv)
                                       (MAP_PRIVATE OR MAP_FIXED_NOREPLACE) (mem s);
                         s1 = s\<lparr>mem := M\<rparr>
                     in Some (if IS_ERR addr \<or> addr \<noteq> cursor then Inl (0, s1) else Inr s1)
                else Some (Inr s))
      else Some (Inr s))"

definition vma_pos :: "'s mem_state_scheme \<Rightarrow> mm_id \<Rightarrow> nat option \<Rightarrow> bool \<Rightarrow> u64 option" where
  "vma_pos s m vma_iter in_vmas =
     (case vma_iter of
        None \<Rightarrow> Some ULONG_MAX
      | Some i \<Rightarrow> map_option (\<lambda>v. if in_vmas then vm_end v else vm_start v) (vma_of s m i))"

fun ss_vma_pos :: "snapshot_vma list \<Rightarrow> bool \<Rightarrow> u64" where
  "ss_vma_pos [] in_ss_vmas = ULONG_MAX"
| "ss_vma_pos (sv # svs) in_ss_vmas = (if in_ss_vmas then sv_end sv else sv_start sv)"

partial_function (option) restore_loop ::
  "'k kernel_scheme \<Rightarrow> mm_id \<Rightarrow> mm_id \<Rightarrow> nat option \<Rightarrow> snapshot_vma list \<Rightarrow> bool \<Rightarrow> bool \<Rightarrow> u64
   \<Rightarrow> 's mem_state_scheme \<Rightarrow> (int \<times> 's mem_state_scheme) option" where
  "restore_loop K m cm vma_iter svs in_ss_vmas in_vmas cursor s =
     (if vma_iter = None \<and> svs = [] then Some (0, s)
      else do {
        next_vma_pos \<leftarrow> vma_pos s m vma_iter in_vmas;
        let next_vma_iter = Option.bind vma_iter (vm_next s m);
        let next_ss_vma_pos = ss_vma_pos svs in_ss_vmas;
        let next_cursor = min next_vma_pos next_ss_vma_pos;
        out \<leftarrow> restore_gap K cm svs in_ss_vmas in_vmas cursor next_cursor s;
        (case out of
           Inl result \<Rightarrow> Some result
         | Inr s1 \<Rightarrow>
             let in_vmas' = (if next_cursor = next_vma_pos then \<not> in_vmas else in_vmas);
                 vma_iter' = (if next_cursor = next_vma_pos \<and> \<not> in_vmas' then next_vma_iter else vma_iter);
                 in_ss' = (if next_cursor = next_ss_vma_pos then \<not> in_ss_vmas else in_ss_vmas);
                 svs' = (if next_cursor = next_ss_vma_pos \<and> \<not> in_ss' then tl svs else svs)
             in restore_loop K m cm vma_iter' svs' in_ss' in_vmas' next_cursor s1) })"

definition restore_vmas ::
  "'k kernel_scheme \<Rightarrow> nat \<Rightarrow> 's mem_state_scheme \<Rightarrow> (int \<times> 's mem_state_scheme) option" where
  "restore_vmas K d s =
     do { data \<leftarrow> td_heap s d;
          let m = task_mm (tasks s (tsk data));
          restore_loop K m (task_mm (tasks s (current s))) (first_vma s m) (all_vmas (ss data))
            False False 0 s }"

section \<open>Recovering and cleaning\<close>

definition recover_memory_snapshot ::
  "'k kernel_scheme \<Rightarrow> nat \<Rightarrow> 's mem_state_scheme \<Rightarrow> (int \<times> 's mem_state_scheme) option" where
  "recover_memory_snapshot K d s =
     do { data \<leftarrow> td_heap s d;
          let m = task_mm (tasks s (tsk data));
          (res, s1) \<leftarrow> (if config_has (config data) AFL_SNAPSHOT_MMAP then restore_vmas K d s else Some (0, s));
          if res \<noteq> 0 then Some (res, s1)
          else do {
            data1 \<leftarrow> td_heap s1 d;
            (data2, s2) \<leftarrow> recover_dirty_pages K m (task_mm (tasks s1 (current s1)))
                              (dirty_pages (ss data1)) data1 s1;
            Some (0, put_td d data2 s2) } }"

text \<open>
  The areas and pages are freed. The dirty list still links the pages: its keys no longer have an
  entry in the table, so whatever looks one up, as the dump of a debug build does, gets \<^term>\<open>None\<close>.
\<close>

definition clean_snapshot_vmas :: "task_data \<Rightarrow> task_data" where
  "clean_snapshot_vmas = upd_ss (\<lambda>x. x\<lparr>all_vmas := [], snapshotted_vmas := []\<rparr>)"

definition clean_memory_snapshot ::
  "'k kernel_scheme \<Rightarrow> nat \<Rightarrow> 's mem_state_scheme \<Rightarrow> 's mem_state_scheme option" where
  "clean_memory_snapshot K d s =
     do { data \<leftarrow> td_heap s d;
          let s1 = invalidate_task_data_cache K (tsk data) s;
          let data1 = clean_snapshot_vmas data;
          let data2 = upd_ss (\<lambda>x. x\<lparr>ss_pages := (\<lambda>_. [])\<rparr>) data1;
          Some (put_td d data2 s1) }"

section \<open>The break\<close>

lemma restore_brk_unmap:
  assumes "m = task_mm (tasks s (current s))" and "brk = mm_brk (mms (mem s) m)"
    and "PAGE_ALIGN brk \<noteq> PAGE_ALIGN b" and "b \<le> brk" and "vm_munmap K m b (brk - b) s = Some (r, s1)"
  shows "restore_brk K b s =
    (if r < 0 then Some (- 1, s1)
     else Some (0, s1\<lparr>mem := upd_mm m (\<lambda>mm. mm\<lparr>mm_brk := b\<rparr>) (mem s1)\<rparr>))"
  using assms by (simp add: restore_brk_def Let_def)

text \<open>An unaligned break never comes down.\<close>

lemma restore_brk_unaligned:
  assumes "sys_inv K G s" and "no_oom K" and "munmap_pages_law K" and "munmap_einval_law K"
    and "range_walk_law K"
    and "m = task_mm (tasks s (current s))" and "\<not> page_aligned b" and "b \<le> mm_brk (mms (mem s) m)"
    and "PAGE_ALIGN (mm_brk (mms (mem s) m)) \<noteq> PAGE_ALIGN b"
  shows "\<exists>s'. restore_brk K b s = Some (- 1, s') \<and> mem s' = mem s \<and> sys_inv K G s'"
proof -
  obtain r s1 where mu: "vm_munmap K m b (mm_brk (mms (mem s) m) - b) s = Some (r, s1)"
    and inv1: "sys_inv K G s1" and r: "do_munmap K m b (mm_brk (mms (mem s) m) - b) (mem s) = (r, mem s1)"
    by (rule sys_inv_unmap [OF assms(1-5)])
  have "r = - EINVAL \<and> mem s1 = mem s" using r assms(4,7) by (simp add: munmap_einval_law_def)
  then show ?thesis
    using restore_brk_unmap [OF assms(6) refl assms(9,8) mu] inv1 by (simp add: EINVAL_def)
qed

text \<open>C34. A break that is not page-aligned is never restored downwards across a page boundary:
  the hook runs, \<open>munmap\<close> refuses the unaligned address, and the function fails with the
  break and every page as they were.\<close>

theorem restore_brk_unaligned_fails:
  assumes "sys_inv K G s" and "no_oom K" and "munmap_pages_law K" and "munmap_einval_law K"
    and "range_walk_law K"
    and "m = task_mm (tasks s (current s))" and "\<not> page_aligned b" and "b \<le> mm_brk (mms (mem s) m)"
    and "PAGE_ALIGN (mm_brk (mms (mem s) m)) \<noteq> PAGE_ALIGN b"
  shows "\<exists>s'. restore_brk K b s = Some (- 1, s') \<and> mem s' = mem s \<and> sys_inv K G s'"
  using assms by (rule restore_brk_unaligned)

lemma demo_brk:
  "task_mm (tasks demo_mem_state (current demo_mem_state)) = 0"
  "mm_brk (mms (mem demo_mem_state) 0) = 0x3000" "PAGE_ALIGN 0x3000 = 0x3000"
  "PAGE_ALIGN 0x1800 = 0x2000" "PAGE_ALIGN 0x2000 = 0x2000" "\<not> page_aligned 0x1800" "page_aligned 0x2000"
  by (simp_all add: demo_mem_state_def demo_mem_def demo_mm_def PAGE_ALIGN_def page_aligned_def offset_in_page_def)

lemma ref_unmap_laws:
  "munmap_pages_law ref_kernel" "munmap_einval_law ref_kernel" "range_walk_law ref_kernel"
  using ref_memory_laws(1) by (simp_all add: memory_laws_def)

theorem restore_brk_unaligned_fails_witness:
  "\<exists>s'. restore_brk ref_kernel 0x1800 demo_mem_state = Some (- 1, s') \<and> mem s' = mem demo_mem_state"
  using restore_brk_unaligned_fails [OF demo_sys_inv ref_no_oom ref_unmap_laws refl, of "0x1800"]
  by (auto simp: demo_brk)

text \<open>C28. With a page-aligned break the restore succeeds whenever \<open>munmap\<close> does: the break is
  the snapshotted one, the pages between the two breaks have no entry any more, no other page
  has changed, and the invariant of every snapshot holds, so the bytes of the unmapped pages
  have been saved.\<close>

theorem restore_brk_shrinks:
  assumes "sys_inv K G s" and "no_oom K" and "munmap_pages_law K" and "munmap_einval_law K"
    and "range_walk_law K"
    and "m = task_mm (tasks s (current s))" and "b < mm_brk (mms (mem s) m)"
    and "PAGE_ALIGN (mm_brk (mms (mem s) m)) \<noteq> PAGE_ALIGN b"
    and "fst (do_munmap K m b (mm_brk (mms (mem s) m) - b) (mem s)) = 0"
  shows "\<exists>s'. restore_brk K b s = Some (0, s') \<and> mm_brk (mms (mem s') m) = b \<and>
     (\<forall>a \<in> {b ..< mm_brk (mms (mem s) m)}. \<not> pte_present (pte_of (mem s') m a)) \<and>
     (\<forall>a. a \<notin> {b ..< mm_brk (mms (mem s) m)} \<longrightarrow> user_view K m (mem s') a = user_view K m (mem s) a) \<and>
     sys_inv K G s'"
proof -
  let ?brk = "mm_brk (mms (mem s) m)"
  obtain r s1 where mu: "vm_munmap K m b (?brk - b) s = Some (r, s1)"
    and inv1: "sys_inv K G s1" and run: "do_munmap K m b (?brk - b) (mem s) = (r, mem s1)"
    by (rule sys_inv_unmap [OF assms(1-5)])
  have r: "r = 0" using run assms(9) by simp
  let ?f = "\<lambda>mm. mm\<lparr>mm_brk := b\<rparr>"
  let ?s2 = "s1\<lparr>mem := upd_mm m ?f (mem s1)\<rparr>"
  have res: "restore_brk K b s = Some (0, ?s2)"
    using restore_brk_unmap [OF assms(6) refl assms(8) less_imp_le [OF assms(7)] mu] r by simp
  have inv2: "sys_inv K G ?s2" by (rule sys_inv_areas [OF inv1]) simp_all
  have pte: "pte_of (mem ?s2) m a = pte_of (mem s1) m a" for a by simp
  note law = munmap_pages_lawD [OF assms(3) sys_invD(3) [OF assms(1)] run]
  have "\<not> pte_present (pte_of (mem ?s2) m a)" if "a \<in> {b ..< ?brk}" for a
    using law(5) [OF r, of a] that unfolding pte by auto
  moreover have "user_view K m (mem ?s2) a = user_view K m (mem s) a" if "a \<notin> {b ..< ?brk}" for a
    using law(3,4) [of m a] that by (simp add: user_view_def content_def)
  ultimately show ?thesis using res inv2 by (intro exI [of _ ?s2]) simp
qed

theorem restore_brk_shrinks_witness:
  "\<exists>s'. restore_brk ref_kernel 0x2000 demo_mem_state = Some (0, s') \<and> mm_brk (mms (mem s') 0) = 0x2000 \<and>
     user_view ref_kernel 0 (mem s') 0x1000 = demo_page"
proof -
  have "fst (do_munmap ref_kernel 0 0x2000 (mm_brk (mms (mem demo_mem_state) 0) - 0x2000) (mem demo_mem_state)) = 0"
    by (simp add: demo_brk ref_munmap_def)
  then have "\<exists>s'. restore_brk ref_kernel 0x2000 demo_mem_state = Some (0, s') \<and> mm_brk (mms (mem s') 0) = 0x2000 \<and>
     (\<forall>a. a \<notin> {0x2000 ..< 0x3000} \<longrightarrow> user_view ref_kernel 0 (mem s') a = user_view ref_kernel 0 (mem demo_mem_state) a)"
    using restore_brk_shrinks [OF demo_sys_inv ref_no_oom ref_unmap_laws demo_brk(1) [symmetric], of "0x2000"]
    by (auto simp: demo_brk)
  moreover have "user_view ref_kernel 0 (mem demo_mem_state) 0x1000 = demo_page"
    by (simp add: user_view_def content_def demo_mem_state_def demo_mem_def demo_mm_def)
  ultimately show ?thesis by auto
qed

section \<open>An area across a hole\<close>

text \<open>
  The process of theory \<open>Memory_Restore\<close> with other areas: \<open>now\<close> lists the current ones,
  \<open>then\<close> the anonymous private ones of the snapshot.
\<close>

definition area :: "nat \<Rightarrow> u64 \<Rightarrow> u64 \<Rightarrow> vm_area" where
  "area i st en = \<lparr>vma_id = i, vm_start = st, vm_end = en, vm_flags = 3, vma_is_anonymous = True\<rparr>"

definition restore_state :: "vm_area list \<Rightarrow> (u64 \<times> u64) list \<Rightarrow> mem_state" where
  "restore_state now old =
     demo_mem_state\<lparr>
       td_heap := [100 \<mapsto> upd_ss (\<lambda>x. x\<lparr>all_vmas := map (\<lambda>(st, en). \<lparr>sv_id = 1, sv_start = st, sv_end = en,
                     is_anonymous_private = True, sv_prot = 7\<rparr>) old\<rparr>) demo_data],
       mem := upd_mm 0 (\<lambda>mm. mm\<lparr>mm_mmap := now\<rparr>) demo_mem\<rparr>"

definition ranges_after :: "(int \<times> mem_state) option \<Rightarrow> (int \<times> (u64 \<times> u64) list) option" where
  "ranges_after out =
     map_option (\<lambda>(r, s). (r, map (\<lambda>v. (vm_start v, vm_end v)) (mm_mmap (mms (mem s) 0)))) out"

lemmas restore_defs =
  ranges_after_def restore_state_def area_def restore_vmas_def restore_loop.simps first_vma_def
  vma_pos_def vma_of_def vm_next_def restore_gap_def vm_munmap_def do_munmap_hook_def
  ref_range_walk_def ref_munmap_def page_aligned_def offset_in_page_def cut_area_def fresh_id_def
  ref_mmap_def IS_ERR_def ULONG_MAX_def min_def

text \<open>\<open>restore_vmas\<close> fails silently when one current area spans the hole between two
  areas of the snapshot, as after an \<open>mmap\<close> into the hole that the kernel merges with its
  neighbours: it unmaps the hole, its cursor runs backwards when the cut area shrinks, and it
  maps the hole again. The function reports success with the new memory still mapped. With
  three separate areas the same call unmaps it.\<close>

theorem restore_vmas_straddle:
  "ranges_after (restore_vmas ref_kernel 100
     (restore_state [area 1 0x1000 0x4000] [(0x1000, 0x2000), (0x3000, 0x4000)])) =
     Some (0, [(0x1000, 0x2000), (0x2000, 0x3000), (0x3000, 0x4000)]) \<and>
   ranges_after (restore_vmas ref_kernel 100
     (restore_state [area 1 0x1000 0x2000, area 2 0x2000 0x3000, area 3 0x3000 0x4000]
        [(0x1000, 0x2000), (0x3000, 0x4000)])) =
     Some (0, [(0x1000, 0x2000), (0x3000, 0x4000)])"
  by (simp add: restore_defs run_defs)

text \<open>When \<open>vm_mmap\<close> cannot restore a missing area, the loop is left at once and
  \<open>restore_vmas\<close> returns 0: the caller goes on as if the areas were restored, and later
  areas are not looked at.\<close>

theorem restore_vmas_hides_mmap_failure:
  "ranges_after (restore_vmas (ref_kernel\<lparr>vm_mmap_anon := (\<lambda>_ _ _ _ _ M. (- 12, M))\<rparr>) 100
     (restore_state [area 1 0x8000 0x9000] [(0x1000, 0x2000)])) =
     Some (0, [(0x8000, 0x9000)])"
  by (simp add: restore_defs run_defs)

text \<open>Without the option \<open>MMAP\<close>, and called by the task that owns the data, the function is the
  loop over the dirty pages.\<close>

lemma recover_memory_pages:
  assumes "td_heap s d = Some data" and "\<not> config_has (config data) AFL_SNAPSHOT_MMAP"
    and "task_mm (tasks s (tsk data)) = m" and "task_mm (tasks s (current s)) = m"
  shows "recover_memory_snapshot K d s = map_option (\<lambda>s'. (0, s')) (recover_process K m d s)"
  using assms by (auto simp: recover_memory_snapshot_def recover_process_def Let_def split: Option.bind_splits)

end
