(* ===== verification/Files.thy ===== *)
theory Files
  imports Memory_Restore
begin

text \<open>
  \<open>src/files.c\<close>: the snapshot of the open files. Taking it duplicates the descriptor table
  and records the position of every open file; restoring it seeks every file back and gives
  a fresh duplicate of the table to all threads that share the caller's table.

  \<open>struct files_struct\<close> is reference counted; \<open>struct file\<close> objects are shared by all
  tables that hold them, so their positions live in a separate map.
\<close>

section \<open>State and kernel functions\<close>

record file_obj =
  f_pos :: int
  f_seekable :: bool
  f_maxbytes :: int

record files_struct =
  fs_count :: nat
  fs_max_fds :: nat
  fs_fds :: "nat \<Rightarrow> nat option"

record files_state = mem_state +
  files_structs :: "nat \<Rightarrow> files_struct option"
  file_objects :: "nat \<Rightarrow> file_obj"

datatype whence = SEEK_SET | SEEK_CUR

text \<open>\<open>dup_fd\<close> answers an error code or the contents of the new table.\<close>

record files_kernel = kernel +
  dup_fd :: "files_struct \<Rightarrow> int + files_struct"
  vfs_llseek :: "file_obj \<Rightarrow> int \<Rightarrow> whence \<Rightarrow> int \<times> file_obj"

text \<open>The calls of \<open>iterate_fd\<close>: the open descriptors in ascending order.\<close>

definition open_fds :: "files_struct \<Rightarrow> (nat \<times> nat) list" where
  "open_fds fs = map (\<lambda>fd. (fd, the (fs_fds fs fd))) (filter (\<lambda>fd. fs_fds fs fd \<noteq> None) [0 ..< fs_max_fds fs])"

text \<open>
  Documented behaviour: the duplicate holds the same files under the same numbers and one
  reference. Seeking by nothing reports the position, or \<open>- ESPIPE\<close>, and moves nothing;
  seeking a seekable file to a position within its limits goes there.
\<close>

definition ESPIPE :: int where "ESPIPE = 29"

definition position :: "file_obj \<Rightarrow> int" where
  "position f = (if f_seekable f then f_pos f else - ESPIPE)"

definition dup_fd_law :: "'k files_kernel_scheme \<Rightarrow> bool" where
  "dup_fd_law K \<longleftrightarrow>
     (\<forall>fs new. dup_fd K fs = Inr new \<longrightarrow> fs_count new = 1 \<and> open_fds new = open_fds fs) \<and>
     (\<forall>fs e. dup_fd K fs = Inl e \<longrightarrow> e < 0)"

definition llseek_law :: "'k files_kernel_scheme \<Rightarrow> bool" where
  "llseek_law K \<longleftrightarrow>
     (\<forall>f. vfs_llseek K f 0 SEEK_CUR = (position f, f)) \<and>
     (\<forall>f off. f_seekable f \<longrightarrow> 0 \<le> off \<longrightarrow> off \<le> f_maxbytes f \<longrightarrow>
        vfs_llseek K f off SEEK_SET = (off, f\<lparr>f_pos := off\<rparr>))"

definition put_files_struct :: "nat \<Rightarrow> 's files_state_scheme \<Rightarrow> 's files_state_scheme option" where
  "put_files_struct i s =
     do { fs \<leftarrow> files_structs s i;
          Some (s\<lparr>files_structs := (files_structs s)(i :=
             if fs_count fs = 1 then None else Some (fs\<lparr>fs_count := fs_count fs - 1\<rparr>))\<rparr>) }"

text \<open>A new table gets the next object number.\<close>

definition dup_files ::
  "'k files_kernel_scheme \<Rightarrow> nat \<Rightarrow> 's files_state_scheme \<Rightarrow> ((int + nat) \<times> 's files_state_scheme) option" where
  "dup_files K i s =
     do { fs \<leftarrow> files_structs s i;
          (case dup_fd K fs of
             Inl e \<Rightarrow> Some (Inl e, s)
           | Inr new \<Rightarrow>
               let n = alloc_next s
               in Some (Inr n, s\<lparr>alloc_next := Suc n, files_structs := (files_structs s)(n \<mapsto> new)\<rparr>)) }"

section \<open>Saving and restoring offsets\<close>

text \<open>The callbacks work on the offset array and the files; a descriptor beyond the array is an
  access out of bounds.\<close>

definition save_file_offset ::
  "'k files_kernel_scheme \<Rightarrow> nat \<times> nat \<Rightarrow> int list \<times> (nat \<Rightarrow> file_obj)
   \<Rightarrow> (int \<times> int list \<times> (nat \<Rightarrow> file_obj)) option" where
  "save_file_offset K c x =
     (let (fd, f) = c; (offsets, files) = x; (pos, f1) = vfs_llseek K (files f) 0 SEEK_CUR
      in if fd < length offsets then Some (0, offsets[fd := pos], files(f := f1)) else None)"

definition restore_file_offset ::
  "'k files_kernel_scheme \<Rightarrow> int list \<Rightarrow> nat \<times> nat \<Rightarrow> (nat \<Rightarrow> file_obj) \<Rightarrow> (int \<times> (nat \<Rightarrow> file_obj)) option" where
  "restore_file_offset K offsets c files =
     (let (fd, f) = c in
      if \<not> fd < length offsets then None
      else if offsets ! fd < 0 then Some (0, files)
      else let (res, f1) = vfs_llseek K (files f) (offsets ! fd) SEEK_SET;
               files' = files(f := f1)
           in if res < 0 then Some (to_int32 res, files')
              else if res \<noteq> offsets ! fd then Some (1, files')
              else Some (0, files'))"

section \<open>The three operations\<close>

definition set_files :: "nat option \<Rightarrow> int list option \<Rightarrow> task_data \<Rightarrow> task_data" where
  "set_files f offs = upd_ss (\<lambda>x. x\<lparr>ss_files := \<lparr>sf_files = f, sf_offsets = offs\<rparr>\<rparr>)"

definition take_files_snapshot ::
  "'k files_kernel_scheme \<Rightarrow> nat \<Rightarrow> 's files_state_scheme \<Rightarrow> (int \<times> 's files_state_scheme) option" where
  "take_files_snapshot K d s =
     do { data \<leftarrow> td_heap s d;
          if \<not> config_has (config data) AFL_SNAPSHOT_FDS
          then Some (0, put_td d (set_files None None data) s)
          else do {
            (copy, s1) \<leftarrow> dup_files K (task_files (tasks s (current s))) s;
            (case copy of
               Inl e \<Rightarrow> Some (e, s1)
             | Inr n \<Rightarrow>
                 do { fs \<leftarrow> files_structs s1 n;
                      let (arr, s2) = kmalloc K s1;
                      (case arr of
                         None \<Rightarrow> do { s3 \<leftarrow> put_files_struct n s2; Some (- ENOMEM, s3) }
                       | Some _ \<Rightarrow>
                           do { (e, offsets, files) \<leftarrow> run_calls (save_file_offset K) (open_fds fs)
                                  (replicate (fs_max_fds fs) (- 1), file_objects s2);
                                let s3 = s2\<lparr>file_objects := files\<rparr>;
                                if e \<noteq> 0 then do { s4 \<leftarrow> put_files_struct n s3; Some (e, s4) }
                                else Some (0, put_td d (set_files (Some n) (Some offsets) data) s3) }) }) } }"

text \<open>\<open>for_each_thread\<close> visits the threads of the group in order, the leader first.\<close>

definition give_files ::
  "nat \<Rightarrow> nat \<Rightarrow> task \<Rightarrow> 's files_state_scheme \<Rightarrow> 's files_state_scheme option" where
  "give_files restored old t s =
     (if task_files (tasks s t) \<noteq> old then Some s
      else do {
        fs \<leftarrow> files_structs s restored;
        let s1 = (if t \<noteq> current s
                  then s\<lparr>files_structs := (files_structs s)(restored \<mapsto> fs\<lparr>fs_count := fs_count fs + 1\<rparr>)\<rparr>
                  else s);
        put_files_struct (task_files (tasks s t))
          (s1\<lparr>tasks := (tasks s1)(t := (tasks s1 t)\<lparr>task_files := restored\<rparr>)\<rparr>) })"

fun give_files_all ::
  "nat \<Rightarrow> nat \<Rightarrow> task list \<Rightarrow> 's files_state_scheme \<Rightarrow> 's files_state_scheme option" where
  "give_files_all restored old [] s = Some s"
| "give_files_all restored old (t # ts) s =
     do { s1 \<leftarrow> give_files restored old t s; give_files_all restored old ts s1 }"

definition recover_files_snapshot ::
  "'k files_kernel_scheme \<Rightarrow> nat \<Rightarrow> task list \<Rightarrow> 's files_state_scheme \<Rightarrow> (int \<times> 's files_state_scheme) option" where
  "recover_files_snapshot K d threads s =
     do { data \<leftarrow> td_heap s d;
          if \<not> config_has (config data) AFL_SNAPSHOT_FDS then Some (0, s)
          else case (sf_files (ss_files (ss data)), sf_offsets (ss_files (ss data))) of
            (Some i, Some offsets) \<Rightarrow>
              do { (copy, s1) \<leftarrow> dup_files K i s;
                   (case copy of
                      Inl e \<Rightarrow> Some (e, s1)
                    | Inr n \<Rightarrow>
                        do { fs \<leftarrow> files_structs s1 n;
                             (e, files) \<leftarrow> run_calls (restore_file_offset K offsets) (open_fds fs) (file_objects s1);
                             let s2 = s1\<lparr>file_objects := files\<rparr>;
                             if e \<noteq> 0 then do { s3 \<leftarrow> put_files_struct n s2; Some (e, s3) }
                             else do { s3 \<leftarrow> give_files_all n (task_files (tasks s2 (current s2))) threads s2;
                                       Some (0, s3) } }) }
          | _ \<Rightarrow> Some (- EINVAL, s) }"

definition clean_files_snapshot ::
  "nat \<Rightarrow> 's files_state_scheme \<Rightarrow> 's files_state_scheme option" where
  "clean_files_snapshot d s =
     do { data \<leftarrow> td_heap s d;
          s1 \<leftarrow> (case sf_files (ss_files (ss data)) of
                    None \<Rightarrow> Some s
                  | Some i \<Rightarrow> put_files_struct i s);
          Some (put_td d (set_files None None data) s1) }"

section \<open>The two iterations\<close>

lemma open_fds_iff: "(fd, f) \<in> set (open_fds fs) \<longleftrightarrow> fd < fs_max_fds fs \<and> fs_fds fs fd = Some f"
  by (force simp: open_fds_def)

lemma distinct_open_fds: "distinct (map fst (open_fds fs))"
  by (simp add: open_fds_def comp_def)

text \<open>The array after the positions of \<open>cs\<close> have been written into it.\<close>

definition record_positions :: "(nat \<Rightarrow> file_obj) \<Rightarrow> (nat \<times> nat) list \<Rightarrow> int list \<Rightarrow> int list" where
  "record_positions files = fold (\<lambda>(fd, f) offs. offs[fd := position (files f)])"

lemma length_record_positions [simp]: "length (record_positions files cs offs) = length offs"
  by (induction cs arbitrary: offs) (auto simp: record_positions_def)

lemma record_positions_nth:
  assumes "distinct (map fst cs)" and "fd < length offs"
  shows "record_positions files cs offs ! fd =
    (case map_of cs fd of None \<Rightarrow> offs ! fd | Some f \<Rightarrow> position (files f))"
  using assms
proof (induction cs arbitrary: offs)
  case Nil
  then show ?case by (simp add: record_positions_def)
next
  case (Cons c cs)
  obtain fd' f' where c: "c = (fd', f')" by (cases c)
  have "record_positions files (c # cs) offs = record_positions files cs (offs[fd' := position (files f')])"
    by (simp add: record_positions_def c)
  then have *: "record_positions files (c # cs) offs ! fd =
      (case map_of cs fd of None \<Rightarrow> offs[fd' := position (files f')] ! fd | Some f \<Rightarrow> position (files f))"
    using Cons.IH [of "offs[fd' := position (files f')]"] Cons.prems by simp
  show ?case
  proof (cases "fd = fd'")
    case True
    then have "map_of cs fd = None" using Cons.prems(1) c by (simp add: map_of_eq_None_iff)
    with * True c Cons.prems(2) show ?thesis by simp
  next
    case False
    with * c show ?thesis by (simp cong: option.case_cong)
  qed
qed

lemma save_file_offsets:
  assumes "llseek_law K" and "\<forall>c \<in> set cs. fst c < length offs"
  shows "run_calls (save_file_offset K) cs (offs, files) = Some (0, record_positions files cs offs, files)"
  using assms(2)
proof (induction cs arbitrary: offs)
  case Nil
  then show ?case by (simp add: record_positions_def)
next
  case (Cons c cs)
  then have "save_file_offset K c (offs, files) = Some (0, offs[fst c := position (files (snd c))], files)"
    using assms(1) by (simp add: save_file_offset_def llseek_law_def split_beta)
  then show ?case using Cons by (simp add: record_positions_def split_beta)
qed

text \<open>The files after the seeks, where \<open>p f\<close> is the recorded position of file \<open>f\<close>.\<close>

definition seek_back :: "(nat \<Rightarrow> int) \<Rightarrow> nat set \<Rightarrow> (nat \<Rightarrow> file_obj) \<Rightarrow> nat \<Rightarrow> file_obj" where
  "seek_back p F files f = (if f \<in> F \<and> 0 \<le> p f then (files f)\<lparr>f_pos := p f\<rparr> else files f)"

lemma restore_file_offsets:
  assumes "llseek_law K"
    and "\<forall>(fd, f) \<in> set cs. fd < length offs \<and> offs ! fd = p f \<and>
           (0 \<le> p f \<longrightarrow> f_seekable (files f) \<and> p f \<le> f_maxbytes (files f))"
  shows "run_calls (restore_file_offset K offs) cs files = Some (0, seek_back p (snd ` set cs) files)"
  using assms(2)
proof (induction cs arbitrary: files)
  case Nil
  then show ?case by (simp add: seek_back_def fun_eq_iff)
next
  case (Cons c cs)
  obtain fd f where c: "c = (fd, f)" by (cases c)
  let ?files1 = "seek_back p {f} files"
  have one: "restore_file_offset K offs c files = Some (0, ?files1)"
  proof (cases "0 \<le> p f")
    case True
    with Cons.prems c have "vfs_llseek K (files f) (p f) SEEK_SET = (p f, (files f)\<lparr>f_pos := p f\<rparr>)"
      using assms(1) by (simp add: llseek_law_def)
    moreover have "?files1 = files(f := (files f)\<lparr>f_pos := p f\<rparr>)"
      using True by (auto simp: seek_back_def)
    ultimately show ?thesis using Cons.prems c True by (simp add: restore_file_offset_def)
  next
    case False
    then have "?files1 = files" by (auto simp: seek_back_def)
    with Cons.prems c False show ?thesis by (simp add: restore_file_offset_def)
  qed
  have "\<forall>(fd, f) \<in> set cs. fd < length offs \<and> offs ! fd = p f \<and>
      (0 \<le> p f \<longrightarrow> f_seekable (?files1 f) \<and> p f \<le> f_maxbytes (?files1 f))"
    using Cons.prems by (auto simp: seek_back_def)
  then have "run_calls (restore_file_offset K offs) cs ?files1 = Some (0, seek_back p (snd ` set cs) ?files1)"
    by (rule Cons.IH)
  moreover have "seek_back p (snd ` set cs) ?files1 = seek_back p (snd ` set (c # cs)) files"
    by (auto simp: seek_back_def c)
  ultimately show ?case using one by simp
qed

section \<open>Handing out the restored table\<close>

definition sharing :: "nat \<Rightarrow> 's files_state_scheme \<Rightarrow> task list \<Rightarrow> task list" where
  "sharing old s = filter (\<lambda>t. task_files (tasks s t) = old)"

text \<open>The number of references that are left: a table without references is freed.\<close>

definition drop_refs :: "nat \<Rightarrow> files_struct \<Rightarrow> files_struct option" where
  "drop_refs k fs = (if fs_count fs = k then None else Some (fs\<lparr>fs_count := fs_count fs - k\<rparr>))"

lemma give_files_shared:
  assumes "task_files (tasks s t) = old" and "old \<noteq> n" and "files_structs s n = Some new"
    and "files_structs s old = Some fs"
  shows "give_files n old t s = Some (s\<lparr>
     files_structs := (files_structs s)(n \<mapsto> new\<lparr>fs_count := fs_count new + of_bool (t \<noteq> current s)\<rparr>, old := drop_refs 1 fs),
     tasks := (tasks s)(t := (tasks s t)\<lparr>task_files := n\<rparr>)\<rparr>)"
  using assms by (auto simp: give_files_def put_files_struct_def drop_refs_def fun_upd_triv fun_eq_iff)

lemma give_files_all_ok:
  assumes "distinct ts" and "old \<noteq> n" and "files_structs s n = Some new"
    and "files_structs s old = Some fs \<and> length (sharing old s ts) \<le> fs_count fs \<or> sharing old s ts = []"
  shows "\<exists>s'. give_files_all n old ts s = Some s' \<and>
     s' = s\<lparr>files_structs := files_structs s', tasks := tasks s'\<rparr> \<and>
     (\<forall>t. tasks s' t = (if t \<in> set (sharing old s ts) then (tasks s t)\<lparr>task_files := n\<rparr> else tasks s t)) \<and>
     files_structs s' n =
       Some (new\<lparr>fs_count := fs_count new + length (filter (\<lambda>t. t \<noteq> current s) (sharing old s ts))\<rparr>) \<and>
     (sharing old s ts \<noteq> [] \<longrightarrow> files_structs s' old = drop_refs (length (sharing old s ts)) fs) \<and>
     (sharing old s ts = [] \<longrightarrow> files_structs s' old = files_structs s old) \<and>
     (\<forall>i. i \<noteq> n \<longrightarrow> i \<noteq> old \<longrightarrow> files_structs s' i = files_structs s i)"
  using assms
proof (induction ts arbitrary: s new fs)
  case Nil
  then show ?case by (simp add: sharing_def)
next
  case (Cons t ts)
  show ?case
  proof (cases "task_files (tasks s t) = old")
    case False
    then have "give_files n old t s = Some s" and "sharing old s (t # ts) = sharing old s ts"
      by (simp_all add: give_files_def sharing_def)
    then show ?thesis using Cons.IH [of s new fs] Cons.prems by simp
  next
    case True
    let ?new1 = "new\<lparr>fs_count := fs_count new + of_bool (t \<noteq> current s)\<rparr>"
    let ?s1 = "s\<lparr>files_structs := (files_structs s)(n \<mapsto> ?new1, old := drop_refs 1 fs),
     tasks := (tasks s)(t := (tasks s t)\<lparr>task_files := n\<rparr>)\<rparr>"
    have sh: "sharing old s (t # ts) = t # sharing old s ts" using True by (simp add: sharing_def)
    with Cons.prems have fs: "files_structs s old = Some fs"
      and cnt: "Suc (length (sharing old s ts)) \<le> fs_count fs" by auto
    have step: "give_files n old t s = Some ?s1"
      by (rule give_files_shared [OF True Cons.prems(2,3) fs])
    have sh1: "sharing old ?s1 ts = sharing old s ts"
      unfolding sharing_def using Cons.prems(1) by (intro filter_cong) auto
    have new1: "files_structs ?s1 n = Some ?new1" using Cons.prems(2) by simp
    have tnot: "t \<notin> set (sharing old s ts)" using Cons.prems(1) by (simp add: sharing_def)
    let ?fs1 = "fs\<lparr>fs_count := fs_count fs - 1\<rparr>"
    have "files_structs ?s1 old = Some ?fs1 \<and> length (sharing old ?s1 ts) \<le> fs_count ?fs1 \<or> sharing old ?s1 ts = []"
    proof (cases "sharing old s ts")
      case Nil
      then show ?thesis using sh1 by simp
    next
      case (Cons u us)
      then have "files_structs ?s1 old = Some ?fs1" using cnt by (simp add: drop_refs_def)
      moreover have "length (sharing old ?s1 ts) \<le> fs_count ?fs1" unfolding sh1 using cnt by simp
      ultimately show ?thesis by simp
    qed
    from Cons.IH [OF _ Cons.prems(2) new1 this] Cons.prems(1) obtain s' where
        run: "give_files_all n old ts ?s1 = Some s'"
      and core: "s' = ?s1\<lparr>files_structs := files_structs s', tasks := tasks s'\<rparr>"
      and ts': "\<And>u. tasks s' u = (if u \<in> set (sharing old s ts) then (tasks ?s1 u)\<lparr>task_files := n\<rparr> else tasks ?s1 u)"
      and n': "files_structs s' n = Some (?new1\<lparr>fs_count := fs_count ?new1 + length (filter (\<lambda>t. t \<noteq> current s) (sharing old s ts))\<rparr>)"
      and o1: "sharing old s ts \<noteq> [] \<longrightarrow> files_structs s' old = drop_refs (length (sharing old s ts)) ?fs1"
      and o2: "sharing old s ts = [] \<longrightarrow> files_structs s' old = files_structs ?s1 old"
      and oth: "\<forall>i. i \<noteq> n \<longrightarrow> i \<noteq> old \<longrightarrow> files_structs s' i = files_structs ?s1 i"
      unfolding sh1 by auto
    have "files_structs s' old = drop_refs (length (t # sharing old s ts)) fs"
    proof (cases "sharing old s ts")
      case Nil
      then show ?thesis using o2 by simp
    next
      case (Cons u us)
      then show ?thesis using o1 cnt by (auto simp: drop_refs_def)
    qed
    moreover have "s' = s\<lparr>files_structs := files_structs s', tasks := tasks s'\<rparr>" by (subst core) simp
    moreover have "\<forall>u. tasks s' u = (if u \<in> set (t # sharing old s ts) then (tasks s u)\<lparr>task_files := n\<rparr> else tasks s u)"
      using ts' by auto
    moreover have "files_structs s' n = Some (new\<lparr>fs_count := fs_count new + length (filter (\<lambda>t. t \<noteq> current s) (t # sharing old s ts))\<rparr>)"
      using n' by simp
    moreover have "\<forall>i. i \<noteq> n \<longrightarrow> i \<noteq> old \<longrightarrow> files_structs s' i = files_structs s i" using oth by simp
    moreover have "give_files_all n old (t # ts) s = Some s'" using step run by simp
    ultimately show ?thesis unfolding sh by blast
  qed
qed

section \<open>Taking the snapshot\<close>

lemma dup_files_ok:
  "files_structs s i = Some fs \<Longrightarrow> dup_fd K fs = Inr new \<Longrightarrow>
   dup_files K i s = Some (Inr (alloc_next s),
     s\<lparr>alloc_next := Suc (alloc_next s), files_structs := (files_structs s)(alloc_next s \<mapsto> new)\<rparr>)"
  by (simp add: dup_files_def Let_def)

lemma take_files_snapshot_ok:
  assumes law: "llseek_law K" and td: "td_heap s d = Some data" and cfg: "config_has (config data) AFL_SNAPSHOT_FDS"
    and fs: "files_structs s (task_files (tasks s (current s))) = Some fs" and dup: "dup_fd K fs = Inr new"
    and mem: "kmalloc_ok K (Suc (alloc_next s))"
  shows "take_files_snapshot K d s = Some (0,
     put_td d (set_files (Some (alloc_next s))
       (Some (record_positions (file_objects s) (open_fds new) (replicate (fs_max_fds new) (- 1)))) data)
     (s\<lparr>files_structs := (files_structs s)(alloc_next s \<mapsto> new), alloc_next := Suc (Suc (alloc_next s))\<rparr>))"
proof -
  have "\<forall>c \<in> set (open_fds new). fst c < length (replicate (fs_max_fds new) (- 1 :: int))"
    by (auto simp: open_fds_iff)
  note save = save_file_offsets [OF law this]
  show ?thesis
    using td cfg mem
    by (simp add: take_files_snapshot_def dup_files_ok [OF fs dup] kmalloc_def Let_def save)
qed

lemma take_files_snapshot_failed:
  assumes "dup_fd_law K" and "td_heap s d = Some data" and "config_has (config data) AFL_SNAPSHOT_FDS"
    and "files_structs s (task_files (tasks s (current s))) = Some fs"
    and "(\<exists>e. dup_fd K fs = Inl e) \<or> \<not> kmalloc_ok K (Suc (alloc_next s))"
    and "files_structs s (alloc_next s) = None"
  shows "\<exists>e s'. take_files_snapshot K d s = Some (e, s') \<and> e < 0 \<and> td_heap s' = td_heap s \<and>
    files_structs s' = files_structs s \<and> file_objects s' = file_objects s"
proof (cases "dup_fd K fs")
  case (Inl e)
  then have "e < 0" using assms(1) by (simp add: dup_fd_law_def)
  with Inl assms show ?thesis by (simp add: take_files_snapshot_def dup_files_def)
next
  case (Inr new)
  with assms(1,5) have "\<not> kmalloc_ok K (Suc (alloc_next s))" and "fs_count new = 1"
    by (auto simp: dup_fd_law_def)
  moreover have "(files_structs s)(alloc_next s := None) = files_structs s"
    using assms(6) by (simp add: fun_upd_idem)
  ultimately show ?thesis using assms(2,3)
    by (simp add: take_files_snapshot_def dup_files_ok [OF assms(4) Inr] kmalloc_def
        put_files_struct_def ENOMEM_def)
qed

lemma recorded_positions:
  assumes "length offs = fs_max_fds new"
    and "offs = record_positions files (open_fds new) (replicate (fs_max_fds new) (- 1))"
    and "(fd, f) \<in> set (open_fds new)"
  shows "fd < length offs" and "offs ! fd = position (files f)"
proof -
  show fd: "fd < length offs" using assms by (simp add: open_fds_iff)
  have "map_of (open_fds new) fd = Some f"
    using assms(3) by (simp add: distinct_open_fds)
  with fd show "offs ! fd = position (files f)"
    by (simp add: assms(2) record_positions_nth distinct_open_fds)
qed

section \<open>The round trip\<close>

lemma set_files_simps [simp]:
  "config (set_files f offs data) = config data" "tsk (set_files f offs data) = tsk data"
  "ss_files (ss (set_files f offs data)) = \<lparr>sf_files = f, sf_offsets = offs\<rparr>"
  "have_snapshot (set_files f offs data) = have_snapshot data"
  "had_snapshot (set_files f offs data) = had_snapshot data"
  by (simp_all add: set_files_def status_defs)

text \<open>What the snapshot knows: \<open>F\<close> are the files that were open, \<open>p\<close> their positions.\<close>

definition files_saved :: "nat \<Rightarrow> (nat \<times> nat) list \<Rightarrow> (nat \<Rightarrow> int) \<Rightarrow> 's files_state_scheme \<Rightarrow> bool" where
  "files_saved d fds p s \<longleftrightarrow>
     (\<exists>data i offs fs. td_heap s d = Some data \<and> config_has (config data) AFL_SNAPSHOT_FDS \<and>
        ss_files (ss data) = \<lparr>sf_files = Some i, sf_offsets = Some offs\<rparr> \<and> files_structs s i = Some fs \<and>
        fs_count fs = 1 \<and> open_fds fs = fds \<and> (\<forall>(fd, f) \<in> set fds. fd < length offs \<and> offs ! fd = p f))"

lemma recover_files_snapshot_ok:
  assumes laws: "llseek_law K" "dup_fd_law K" and saved: "files_saved d fds p s"
    and dups: "\<And>fs. open_fds fs = fds \<Longrightarrow> \<exists>new. dup_fd K fs = Inr new"
    and seek: "\<And>fd f. (fd, f) \<in> set fds \<Longrightarrow> 0 \<le> p f \<Longrightarrow>
           f_seekable (file_objects s f) \<and> p f \<le> f_maxbytes (file_objects s f)"
    and old: "old = task_files (tasks s (current s))" "old < alloc_next s" "files_structs s old = Some ofs"
      "length (sharing old s threads) \<le> fs_count ofs"
    and threads: "distinct threads" "current s \<in> set threads"
  shows "\<exists>s' new. recover_files_snapshot K d threads s = Some (0, s') \<and>
     file_objects s' = seek_back p (snd ` set fds) (file_objects s) \<and>
     (\<forall>t. tasks s' t = (if t \<in> set (sharing old s threads)
                         then (tasks s t)\<lparr>task_files := alloc_next s\<rparr> else tasks s t)) \<and>
     files_structs s' (alloc_next s) = Some new \<and> open_fds new = fds \<and>
     fs_count new = length (sharing old s threads) \<and>
     files_structs s' old = drop_refs (length (sharing old s threads)) ofs \<and>
     (\<forall>i. i \<noteq> alloc_next s \<longrightarrow> i \<noteq> old \<longrightarrow> files_structs s' i = files_structs s i) \<and>
     s' = s\<lparr>files_structs := files_structs s', tasks := tasks s', file_objects := file_objects s',
            alloc_next := Suc (alloc_next s)\<rparr>"
proof -
  from saved obtain data i offs fs where td: "td_heap s d = Some data"
    and cfg: "config_has (config data) AFL_SNAPSHOT_FDS"
    and sf: "ss_files (ss data) = \<lparr>sf_files = Some i, sf_offsets = Some offs\<rparr>"
    and fs: "files_structs s i = Some fs" "open_fds fs = fds"
    and offs: "\<forall>(fd, f) \<in> set fds. fd < length offs \<and> offs ! fd = p f"
    unfolding files_saved_def by blast
  from dups [OF fs(2)] obtain new where dup: "dup_fd K fs = Inr new" ..
  then have new: "fs_count new = 1" "open_fds new = fds" using laws(2) fs(2) by (simp_all add: dup_fd_law_def)
  let ?n = "alloc_next s"
  let ?s1 = "s\<lparr>alloc_next := Suc ?n, files_structs := (files_structs s)(?n \<mapsto> new)\<rparr>"
  let ?s2 = "?s1\<lparr>file_objects := seek_back p (snd ` set fds) (file_objects s)\<rparr>"
  have "run_calls (restore_file_offset K offs) fds (file_objects s) =
      Some (0, seek_back p (snd ` set fds) (file_objects s))"
    using offs seek by (intro restore_file_offsets [OF laws(1)]) auto
  then have run: "recover_files_snapshot K d threads s =
      map_option (\<lambda>s'. (0, s')) (give_files_all ?n old threads ?s2)"
    using td cfg sf new(2) old(1)
    by (auto simp: recover_files_snapshot_def dup_files_ok [OF fs(1) dup] split: Option.bind_splits)
  have sh: "sharing old ?s2 threads = sharing old s threads" by (simp add: sharing_def)
  have fresh: "old \<noteq> ?n" using old(2) by simp
  have n2: "files_structs ?s2 ?n = Some new" by simp
  have o2: "files_structs ?s2 old = Some ofs \<and> length (sharing old ?s2 threads) \<le> fs_count ofs \<or>
      sharing old ?s2 threads = []" unfolding sh using old(3,4) fresh by simp
  from give_files_all_ok [OF threads(1) fresh n2 o2] obtain s' where
      give: "give_files_all ?n old threads ?s2 = Some s'"
    and core: "s' = ?s2\<lparr>files_structs := files_structs s', tasks := tasks s'\<rparr>"
    and tasks': "\<forall>t. tasks s' t = (if t \<in> set (sharing old s threads) then (tasks s t)\<lparr>task_files := ?n\<rparr> else tasks s t)"
    and n': "files_structs s' ?n = Some (new\<lparr>fs_count := fs_count new + length (filter (\<lambda>t. t \<noteq> current s) (sharing old s threads))\<rparr>)"
    and o': "sharing old s threads \<noteq> [] \<longrightarrow> files_structs s' old = drop_refs (length (sharing old s threads)) ofs"
    and other: "\<forall>i. i \<noteq> ?n \<longrightarrow> i \<noteq> old \<longrightarrow> files_structs s' i = files_structs s i"
    unfolding sh by auto
  have cur: "current s \<in> set (sharing old s threads)" using threads(2) old(1) by (simp add: sharing_def)
  have "fs_count new + length (filter (\<lambda>t. t \<noteq> current s) (sharing old s threads)) = length (sharing old s threads)"
  proof -
    have "distinct (sharing old s threads)" using threads(1) by (simp add: sharing_def)
    then have "length (filter (\<lambda>t. t \<noteq> current s) (sharing old s threads)) =
        card (set (sharing old s threads) - {current s})"
      by (simp flip: distinct_card add: set_minus_filter_out)
    moreover have "card (set (sharing old s threads)) = length (sharing old s threads)"
      using \<open>distinct (sharing old s threads)\<close> by (rule distinct_card)
    ultimately show ?thesis using card_Suc_Diff1 [OF finite_set cur] new(1) by simp
  qed
  moreover have "open_fds (new\<lparr>fs_count := k\<rparr>) = fds" for k using new(2) by (simp add: open_fds_def)
  moreover have "file_objects s' = seek_back p (snd ` set fds) (file_objects s)" by (subst core, simp)
  moreover have "s' = s\<lparr>files_structs := files_structs s', tasks := tasks s', file_objects := file_objects s',
            alloc_next := Suc (alloc_next s)\<rparr>" by (subst core, simp, subst core, simp)
  moreover have "files_structs s' old = drop_refs (length (sharing old s threads)) ofs"
    using o' cur by (cases "sharing old s threads") auto
  ultimately show ?thesis using run give tasks' n' other by simp
qed

section \<open>Properties\<close>

text \<open>C13. The round trip of the open files: after \<open>take_files_snapshot\<close> has succeeded, and
  whatever has been done to the process since (files read, written, seeked, closed and opened
  under any descriptor) as long as the snapshot's own data is untouched and a seekable file has
  not been cut below its old position, \<open>recover_files_snapshot\<close> succeeds. Every file that was
  open is at its old position, no other file has moved, and every thread that shared the
  caller's table has one new table with the old descriptors, whose reference count is the number
  of these threads; the old table has lost as many references, and is freed when none is left.\<close>

theorem files_roundtrip:
  assumes "llseek_law K" and "dup_fd_law K"
    and "td_heap s d = Some data" and "config_has (config data) AFL_SNAPSHOT_FDS"
    and "files_structs s (task_files (tasks s (current s))) = Some fs"
    and "take_files_snapshot K d s = Some (0, s1)"
    and "td_heap s2 d = td_heap s1 d" and "files_structs s2 (alloc_next s) = files_structs s1 (alloc_next s)"
    and "\<And>fd f. (fd, f) \<in> set (open_fds fs) \<Longrightarrow> f_seekable (file_objects s f) \<Longrightarrow>
           0 \<le> f_pos (file_objects s f) \<and> f_seekable (file_objects s2 f) \<and>
           f_pos (file_objects s f) \<le> f_maxbytes (file_objects s2 f)"
    and "\<And>fs'. open_fds fs' = open_fds fs \<Longrightarrow> \<exists>new. dup_fd K fs' = Inr new"
    and "old = task_files (tasks s2 (current s2))" and "old < alloc_next s2"
    and "files_structs s2 old = Some ofs" and "length (sharing old s2 threads) \<le> fs_count ofs"
    and "distinct threads" and "current s2 \<in> set threads"
  shows "\<exists>s3 new. recover_files_snapshot K d threads s2 = Some (0, s3) \<and>
     (\<forall>f. file_objects s3 f =
        (if f \<in> snd ` set (open_fds fs) \<and> f_seekable (file_objects s f)
         then (file_objects s2 f)\<lparr>f_pos := f_pos (file_objects s f)\<rparr> else file_objects s2 f)) \<and>
     (\<forall>t. task_files (tasks s3 t) =
        (if t \<in> set (sharing old s2 threads) then alloc_next s2 else task_files (tasks s2 t))) \<and>
     files_structs s3 (alloc_next s2) = Some new \<and> open_fds new = open_fds fs \<and>
     fs_count new = length (sharing old s2 threads) \<and>
     files_structs s3 old = drop_refs (length (sharing old s2 threads)) ofs"
proof -
  let ?p = "\<lambda>f. position (file_objects s f)"
  let ?n = "alloc_next s"
  from assms(10) [OF refl] obtain new where dup: "dup_fd K fs = Inr new" ..
  have new: "fs_count new = 1" "open_fds new = open_fds fs" using dup assms(2) by (simp_all add: dup_fd_law_def)
  let ?offs = "record_positions (file_objects s) (open_fds new) (replicate (fs_max_fds new) (- 1))"
  have mem: "kmalloc_ok K (Suc (alloc_next s))"
    using assms(3,4,6) by (auto simp: take_files_snapshot_def dup_files_ok [OF assms(5) dup] kmalloc_def
        put_files_struct_def ENOMEM_def split: if_splits)
  from take_files_snapshot_ok [OF assms(1,3,4,5) dup mem] assms(6)
  have s1: "s1 = put_td d (set_files (Some ?n) (Some ?offs) data)
     (s\<lparr>files_structs := (files_structs s)(?n \<mapsto> new), alloc_next := Suc (Suc ?n)\<rparr>)" by simp
  have pos: "fd < length ?offs \<and> ?offs ! fd = ?p f" if "(fd, f) \<in> set (open_fds new)" for fd f
    using recorded_positions [of ?offs new "file_objects s", OF _ refl that] by simp
  have "files_structs s1 ?n = Some new" by (simp add: s1 put_td_def)
  then have "files_saved d (open_fds fs) ?p s2"
    unfolding files_saved_def
    using assms(4,7,8) new pos
    by (auto simp: s1 intro!: exI [of _ ?n] exI [of _ ?offs])
  moreover have "f_seekable (file_objects s2 f) \<and> ?p f \<le> f_maxbytes (file_objects s2 f)"
    if "(fd, f) \<in> set (open_fds fs)" "0 \<le> ?p f" for fd f
    using assms(9) [OF that(1)] that(2) by (auto simp: position_def ESPIPE_def split: if_splits)
  ultimately obtain s3 new' where
      rec: "recover_files_snapshot K d threads s2 = Some (0, s3)"
    and files: "file_objects s3 = seek_back ?p (snd ` set (open_fds fs)) (file_objects s2)"
    and ts: "\<forall>t. tasks s3 t = (if t \<in> set (sharing old s2 threads)
                         then (tasks s2 t)\<lparr>task_files := alloc_next s2\<rparr> else tasks s2 t)"
    and rest: "files_structs s3 (alloc_next s2) = Some new'" "open_fds new' = open_fds fs"
      "fs_count new' = length (sharing old s2 threads)"
      "files_structs s3 old = drop_refs (length (sharing old s2 threads)) ofs"
    using recover_files_snapshot_ok [OF assms(1,2) _ assms(10) _ assms(11-16)] by blast
  have "file_objects s3 f =
      (if f \<in> snd ` set (open_fds fs) \<and> f_seekable (file_objects s f)
       then (file_objects s2 f)\<lparr>f_pos := f_pos (file_objects s f)\<rparr> else file_objects s2 f)" for f
    using assms(9) by (auto simp: files seek_back_def position_def ESPIPE_def)
  with rec ts rest show ?thesis by (intro exI [of _ s3] exI [of _ new']) simp
qed

text \<open>A concrete kernel, and a process of two threads with a file at position 5 and a pipe.\<close>

definition ref_llseek :: "file_obj \<Rightarrow> int \<Rightarrow> whence \<Rightarrow> int \<times> file_obj" where
  "ref_llseek f off wh =
     (let target = (case wh of SEEK_SET \<Rightarrow> off | SEEK_CUR \<Rightarrow> f_pos f + off)
      in if \<not> f_seekable f then (- ESPIPE, f)
         else if wh = SEEK_CUR \<and> off = 0 then (f_pos f, f)
         else if target < 0 \<or> f_maxbytes f < target then (- EINVAL, f)
         else (target, f\<lparr>f_pos := target\<rparr>))"

definition ref_files_kernel :: files_kernel where
  "ref_files_kernel = kernel.extend ref_kernel
     (files_kernel.fields (\<lambda>fs. Inr (fs\<lparr>fs_count := 1\<rparr>)) ref_llseek)"

definition demo_files :: "int \<Rightarrow> nat \<Rightarrow> file_obj" where
  "demo_files pos i = \<lparr>f_pos = (if i = 1 then pos else 0), f_seekable = (i = 1), f_maxbytes = 1000\<rparr>"

definition demo_fds :: files_struct where
  "demo_fds = \<lparr>fs_count = 2, fs_max_fds = 4, fs_fds = [0 \<mapsto> 1, 2 \<mapsto> 2]\<rparr>"

definition demo_files_state :: files_state where
  "demo_files_state = mem_state.extend (demo_mem_state\<lparr>td_heap := [100 \<mapsto> demo_data\<lparr>config := 4\<rparr>]\<rparr>)
     (files_state.fields [0 \<mapsto> demo_fds] (demo_files 5))"

lemma ref_files_kernel_simps [simp]:
  "dup_fd ref_files_kernel fs = Inr (fs\<lparr>fs_count := 1\<rparr>)" "vfs_llseek ref_files_kernel = ref_llseek"
  "kmalloc_ok ref_files_kernel n"
  by (simp_all add: ref_files_kernel_def ref_kernel_def kernel.defs files_kernel.defs)

lemma ref_files_laws: "llseek_law ref_files_kernel" "dup_fd_law ref_files_kernel"
  by (auto simp: llseek_law_def dup_fd_law_def ref_llseek_def position_def open_fds_def)

lemma demo_files_state_simps [simp]:
  "td_heap demo_files_state = [100 \<mapsto> demo_data\<lparr>config := 4\<rparr>]"
  "files_structs demo_files_state = [0 \<mapsto> demo_fds]" "file_objects demo_files_state = demo_files 5"
  "task_files (tasks demo_files_state t) = 0" "current demo_files_state = 7" "alloc_next demo_files_state = 200"
  by (simp_all add: demo_files_state_def demo_mem_state_def mem_state.defs files_state.defs)

lemma demo_open_fds: "open_fds demo_fds = [(0, 1), (2, 2)]"
  by (simp add: open_fds_def demo_fds_def upt_rec)

text \<open>The file has been read up to position 90 when the snapshot is restored.\<close>

theorem files_roundtrip_witness:
  "\<exists>s1 s3 new. take_files_snapshot ref_files_kernel 100 demo_files_state = Some (0, s1) \<and>
     recover_files_snapshot ref_files_kernel 100 [7, 8] (s1\<lparr>file_objects := demo_files 90\<rparr>) = Some (0, s3) \<and>
     file_objects s3 1 = demo_files 5 1 \<and> task_files (tasks s3 7) = 202 \<and> task_files (tasks s3 8) = 202 \<and>
     files_structs s3 202 = Some new \<and> fs_count new = 2 \<and> open_fds new = [(0, 1), (2, 2)] \<and>
     files_structs s3 0 = None"
proof -
  have td: "td_heap demo_files_state 100 = Some (demo_data\<lparr>config := 4\<rparr>)" by simp
  have cfg: "config_has (config (demo_data\<lparr>config := 4\<rparr>)) AFL_SNAPSHOT_FDS"
    by (simp add: config_has_def AFL_SNAPSHOT_FDS_def)
  have fs: "files_structs demo_files_state (task_files (tasks demo_files_state (current demo_files_state))) = Some demo_fds"
    by simp
  let ?fs1 = "demo_fds\<lparr>fs_count := 1\<rparr>"
  define s1 where "s1 = put_td 100 (set_files (Some 200)
       (Some (record_positions (demo_files 5) (open_fds ?fs1) (replicate (fs_max_fds ?fs1) (- 1)))) (demo_data\<lparr>config := 4\<rparr>))
     (demo_files_state\<lparr>files_structs := [0 \<mapsto> demo_fds, 200 \<mapsto> ?fs1], alloc_next := 202\<rparr>)"
  have take: "take_files_snapshot ref_files_kernel 100 demo_files_state = Some (0, s1)"
    using take_files_snapshot_ok [OF ref_files_laws(1) td cfg fs, of ?fs1] by (simp add: s1_def)
  let ?s2 = "s1\<lparr>file_objects := demo_files 90\<rparr>"
  have s1: "current s1 = 7" "alloc_next s1 = 202" "files_structs s1 = [0 \<mapsto> demo_fds, 200 \<mapsto> ?fs1]"
    "\<And>t. task_files (tasks s1 t) = 0"
    by (simp_all add: s1_def put_td_def)
  have sh: "sharing 0 ?s2 [7, 8] = [7, 8]" by (simp add: sharing_def s1)
  have "\<exists>s3 new. recover_files_snapshot ref_files_kernel 100 [7, 8] ?s2 = Some (0, s3) \<and>
     (\<forall>f. file_objects s3 f =
        (if f \<in> snd ` set (open_fds demo_fds) \<and> f_seekable (file_objects demo_files_state f)
         then (file_objects ?s2 f)\<lparr>f_pos := f_pos (file_objects demo_files_state f)\<rparr> else file_objects ?s2 f)) \<and>
     (\<forall>t. task_files (tasks s3 t) =
        (if t \<in> set (sharing 0 ?s2 [7, 8]) then alloc_next ?s2 else task_files (tasks ?s2 t))) \<and>
     files_structs s3 (alloc_next ?s2) = Some new \<and> open_fds new = open_fds demo_fds \<and>
     fs_count new = length (sharing 0 ?s2 [7, 8]) \<and>
     files_structs s3 0 = drop_refs (length (sharing 0 ?s2 [7, 8])) demo_fds"
    by (rule files_roundtrip [OF ref_files_laws td cfg fs take])
      (auto simp: s1 sh demo_open_fds demo_files_def demo_fds_def)
  then obtain s3 new where rec: "recover_files_snapshot ref_files_kernel 100 [7, 8] ?s2 = Some (0, s3)"
    and files: "\<forall>f. file_objects s3 f =
        (if f \<in> snd ` set (open_fds demo_fds) \<and> f_seekable (file_objects demo_files_state f)
         then (file_objects ?s2 f)\<lparr>f_pos := f_pos (file_objects demo_files_state f)\<rparr> else file_objects ?s2 f)"
    and ts: "\<forall>t. task_files (tasks s3 t) =
        (if t \<in> set (sharing 0 ?s2 [7, 8]) then alloc_next ?s2 else task_files (tasks ?s2 t))"
    and rest: "files_structs s3 (alloc_next ?s2) = Some new" "open_fds new = open_fds demo_fds"
     "fs_count new = length (sharing 0 ?s2 [7, 8])"
     "files_structs s3 0 = drop_refs (length (sharing 0 ?s2 [7, 8])) demo_fds"
    by blast
  from files [rule_format, of 1] have "file_objects s3 1 = demo_files 5 1"
    by (simp add: demo_open_fds demo_files_def)
  moreover have "task_files (tasks s3 7) = 202" and "task_files (tasks s3 8) = 202"
    using ts by (simp_all add: sh s1)
  moreover have "files_structs s3 202 = Some new" and "fs_count new = 2"
    and "open_fds new = [(0, 1), (2, 2)]"
    using rest by (simp_all add: sh s1 demo_open_fds)
  moreover have "files_structs s3 0 = None" using rest(4) by (simp add: sh drop_refs_def demo_fds_def)
  ultimately show ?thesis using take rec by blast
qed

end
