(* ===== verification/Threads.thy ===== *)
theory Threads
  imports Files
begin

text \<open>
  \<open>src/threads.c\<close>: when a snapshot is restored, every other thread of the process gets
  SIGKILL. The walk over the thread group holds a reference on the thread it stands on; it
  stops early at a thread that is already dead.
\<close>

section \<open>State and kernel functions\<close>

record threads_state = files_state +
  sent_signals :: "(nat \<times> task) list"

definition SIGKILL :: nat where "SIGKILL = 9"

definition send_sig :: "nat \<Rightarrow> task \<Rightarrow> 's threads_state_scheme \<Rightarrow> 's threads_state_scheme" where
  "send_sig sig t s = s\<lparr>sent_signals := sent_signals s @ [(sig, t)]\<rparr>"

definition set_usage :: "task \<Rightarrow> nat \<Rightarrow> 's mem_state_scheme \<Rightarrow> 's mem_state_scheme" where
  "set_usage t n s = s\<lparr>tasks := (tasks s)(t := (tasks s t)\<lparr>task_usage := n\<rparr>)\<rparr>"

definition get_task_struct :: "task \<Rightarrow> 's mem_state_scheme \<Rightarrow> 's mem_state_scheme" where
  "get_task_struct t s = set_usage t (task_usage (tasks s t) + 1) s"

definition put_task_struct :: "task \<Rightarrow> 's mem_state_scheme \<Rightarrow> 's mem_state_scheme option" where
  "put_task_struct t s =
     (if task_usage (tasks s t) = 0 then None else Some (set_usage t (task_usage (tasks s t) - 1) s))"

definition thread_group_leader :: "task \<Rightarrow> 's mem_state_scheme \<Rightarrow> bool" where
  "thread_group_leader t s \<longleftrightarrow> task_group_leader (tasks s t) = t"

section \<open>threads.c\<close>

definition next_tid :: "task \<Rightarrow> 's mem_state_scheme \<Rightarrow> (task option \<times> 's mem_state_scheme) option" where
  "next_tid start s =
     (let (pos, s1) =
        (if task_pid_alive (tasks s start)
         then let pos = task_next_thread (tasks s start)
              in if thread_group_leader pos s then (None, s) else (Some pos, get_task_struct pos s)
         else (None, s))
      in do { s2 \<leftarrow> put_task_struct start s1; Some (pos, s2) })"

partial_function (option) kill_threads ::
  "task \<Rightarrow> task option \<Rightarrow> 's threads_state_scheme \<Rightarrow> 's threads_state_scheme option" where
  "kill_threads me t s =
     (case t of
        None \<Rightarrow> Some s
      | Some t \<Rightarrow>
          do { (t', s1) \<leftarrow> next_tid t (if t \<noteq> me then send_sig SIGKILL t s else s);
               kill_threads me t' s1 })"

definition recover_threads_snapshot ::
  "nat \<Rightarrow> 's threads_state_scheme \<Rightarrow> 's threads_state_scheme option" where
  "recover_threads_snapshot d s =
     do { data \<leftarrow> td_heap s d;
          let t = task_group_leader (tasks s (tsk data));
          kill_threads (tsk data) (Some t) (get_task_struct t s) }"

section \<open>The thread ring\<close>

text \<open>From thread \<open>t\<close> the ring goes through \<open>ts\<close> back to the leader.\<close>

fun ring_from :: "(task \<Rightarrow> task_struct) \<Rightarrow> task \<Rightarrow> task \<Rightarrow> task list \<Rightarrow> bool" where
  "ring_from T l t [] \<longleftrightarrow> task_next_thread (T t) = l"
| "ring_from T l t (u # us) \<longleftrightarrow>
     task_next_thread (T t) = u \<and> task_group_leader (T u) \<noteq> u \<and> ring_from T l u us"

definition thread_ring :: "(task \<Rightarrow> task_struct) \<Rightarrow> task list \<Rightarrow> bool" where
  "thread_ring T ts \<longleftrightarrow>
     (\<exists>l us. ts = l # us \<and> distinct ts \<and> task_group_leader (T l) = l \<and> ring_from T l l us)"

fun visited :: "(task \<Rightarrow> task_struct) \<Rightarrow> task list \<Rightarrow> task list" where
  "visited T [] = []"
| "visited T (t # ts) = t # (if task_pid_alive (T t) then visited T ts else [])"

definition same_links :: "(task \<Rightarrow> task_struct) \<Rightarrow> (task \<Rightarrow> task_struct) \<Rightarrow> bool" where
  "same_links T T' \<longleftrightarrow>
     (\<forall>t. task_next_thread (T' t) = task_next_thread (T t) \<and>
          task_group_leader (T' t) = task_group_leader (T t) \<and> task_pid_alive (T' t) = task_pid_alive (T t))"

lemma ring_from_cong: "same_links T T' \<Longrightarrow> ring_from T' l t ts = ring_from T l t ts"
  by (induction ts arbitrary: t) (simp_all add: same_links_def)

lemma visited_cong: "same_links T T' \<Longrightarrow> visited T' ts = visited T ts"
  by (induction ts) (simp_all add: same_links_def)

lemma thread_ring_cong: "same_links T T' \<Longrightarrow> thread_ring T' ts = thread_ring T ts"
  unfolding thread_ring_def by (simp add: ring_from_cong) (simp add: same_links_def)

lemma same_links_usage: "same_links T (T(t := (T t)\<lparr>task_usage := n\<rparr>))"
  by (simp add: same_links_def)

lemma kill_threads_simps:
  "kill_threads me None s = Some s"
  "kill_threads me (Some t) s =
     do { (t', s1) \<leftarrow> next_tid t (if t \<noteq> me then send_sig SIGKILL t s else s); kill_threads me t' s1 }"
  by (subst kill_threads.simps, simp)+

lemma kill_threads_ok:
  assumes "ring_from (tasks s) l t ts" and "task_group_leader (tasks s l) = l" and "distinct (t # ts)"
    and "task_usage (tasks s t) > 0"
  shows "kill_threads me (Some t) s =
    Some (set_usage t (task_usage (tasks s t) - 1)
      (s\<lparr>sent_signals := sent_signals s @
           map (Pair SIGKILL) (filter (\<lambda>u. u \<noteq> me) (visited (tasks s) (t # ts)))\<rparr>))"
  using assms
proof (induction ts arbitrary: t s)
  case Nil
  define s0 where "s0 = (if t \<noteq> me then send_sig SIGKILL t s else s)"
  have s0: "s0 = s\<lparr>sent_signals := sent_signals s @ map (Pair SIGKILL) (filter (\<lambda>u. u \<noteq> me) [t])\<rparr>"
    by (simp add: s0_def send_sig_def)
  have "next_tid t s0 = Some (None, set_usage t (task_usage (tasks s t) - 1) s0)"
    using Nil by (simp add: next_tid_def thread_group_leader_def put_task_struct_def s0)
  then have "kill_threads me (Some t) s = Some (set_usage t (task_usage (tasks s t) - 1) s0)"
    by (simp add: kill_threads_simps flip: s0_def)
  then show ?case by (simp add: s0 set_usage_def)
next
  case (Cons u us)
  define mine where "mine = map (Pair SIGKILL) (filter (\<lambda>u. u \<noteq> me) [t])"
  define s0 where "s0 = (if t \<noteq> me then send_sig SIGKILL t s else s)"
  have s0: "s0 = s\<lparr>sent_signals := sent_signals s @ mine\<rparr>" by (simp add: s0_def send_sig_def mine_def)
  have step: "kill_threads me (Some t) s = do { (t', s1) \<leftarrow> next_tid t s0; kill_threads me t' s1 }"
    by (simp add: kill_threads_simps(2) flip: s0_def)
  have ne: "u \<noteq> t" using Cons.prems(3) by auto
  have u: "task_next_thread (tasks s t) = u" "task_group_leader (tasks s u) \<noteq> u"
    using Cons.prems(1) by simp_all
  show ?case
  proof (cases "task_pid_alive (tasks s t)")
    case False
    then have "next_tid t s0 = Some (None, set_usage t (task_usage (tasks s t) - 1) s0)"
      using Cons.prems(4) by (simp add: next_tid_def put_task_struct_def s0)
    then have "kill_threads me (Some t) s = Some (set_usage t (task_usage (tasks s t) - 1) s0)"
      by (simp add: step kill_threads_simps(1))
    then show ?thesis using False by (simp add: s0 mine_def set_usage_def)
  next
    case True
    define T1 where "T1 = (tasks s)(u := (tasks s u)\<lparr>task_usage := task_usage (tasks s u) + 1\<rparr>,
        t := (tasks s t)\<lparr>task_usage := task_usage (tasks s t) - 1\<rparr>)"
    define s1 where "s1 = s\<lparr>tasks := T1, sent_signals := sent_signals s @ mine\<rparr>"
    have "next_tid t s0 = Some (Some u, s1)"
      using True u ne Cons.prems(4)
      by (simp add: next_tid_def thread_group_leader_def get_task_struct_def put_task_struct_def
          set_usage_def s0 s1_def T1_def)
    then have step: "kill_threads me (Some t) s = kill_threads me (Some u) s1"
      by (simp add: step)
    have links: "same_links (tasks s) T1" unfolding T1_def by (simp add: same_links_def)
    have tasks1: "tasks s1 = T1" by (simp add: s1_def)
    have "kill_threads me (Some u) s1 = Some (set_usage u (task_usage (tasks s1 u) - 1)
        (s1\<lparr>sent_signals := sent_signals s1 @
          map (Pair SIGKILL) (filter (\<lambda>u. u \<noteq> me) (visited (tasks s1) (u # us)))\<rparr>))"
    proof (rule Cons.IH)
      show "ring_from (tasks s1) l u us" using Cons.prems(1) by (simp add: tasks1 ring_from_cong [OF links])
      show "task_group_leader (tasks s1 l) = l" using links Cons.prems(2) by (simp add: tasks1 same_links_def)
      show "distinct (u # us)" using Cons.prems(3) by simp
      show "0 < task_usage (tasks s1 u)" using ne by (simp add: tasks1 T1_def)
    qed
    moreover have "T1(u := (T1 u)\<lparr>task_usage := task_usage (T1 u) - 1\<rparr>) =
        (tasks s)(t := (tasks s t)\<lparr>task_usage := task_usage (tasks s t) - 1\<rparr>)"
      using ne by (simp add: T1_def fun_eq_iff)
    ultimately show ?thesis
      unfolding step tasks1 visited_cong [OF links]
      using True by (simp add: s1_def set_usage_def mine_def)
  qed
qed

lemma recover_threads_ok:
  assumes "td_heap s d = Some data" and "thread_ring (tasks s) ts"
    and "task_group_leader (tasks s (tsk data)) = hd ts"
  shows "recover_threads_snapshot d s =
     Some (s\<lparr>sent_signals := sent_signals s @
       map (Pair SIGKILL) (filter (\<lambda>u. u \<noteq> tsk data) (visited (tasks s) ts))\<rparr>)"
proof -
  from assms(2) obtain l us where ts: "ts = l # us" "distinct ts"
    and ring: "task_group_leader (tasks s l) = l" "ring_from (tasks s) l l us"
    unfolding thread_ring_def by blast
  let ?s1 = "get_task_struct l s"
  have links: "same_links (tasks s) (tasks ?s1)"
    by (simp add: get_task_struct_def set_usage_def same_links_def)
  have "kill_threads (tsk data) (Some l) ?s1 = Some (set_usage l (task_usage (tasks ?s1 l) - 1)
      (?s1\<lparr>sent_signals := sent_signals ?s1 @
        map (Pair SIGKILL) (filter (\<lambda>u. u \<noteq> tsk data) (visited (tasks ?s1) (l # us)))\<rparr>))"
  proof (rule kill_threads_ok)
    show "ring_from (tasks ?s1) l l us" using ring(2) by (simp add: ring_from_cong [OF links])
    show "task_group_leader (tasks ?s1 l) = l" using links ring(1) by (simp add: same_links_def)
    show "distinct (l # us)" using ts by simp
    show "0 < task_usage (tasks ?s1 l)" by (simp add: get_task_struct_def set_usage_def)
  qed
  then show ?thesis
    using assms(1,3) unfolding visited_cong [OF links]
    by (simp add: recover_threads_snapshot_def ts(1) get_task_struct_def set_usage_def)
qed

lemma visited_all: "\<forall>t \<in> set ts. task_pid_alive (T t) \<Longrightarrow> visited T ts = ts"
  by (induction ts) auto

text \<open>C14. Restoring the threads: of the threads the walk reaches (all of them, when none has died
  already), every one but the owner of the snapshot gets exactly one SIGKILL, in the order of the
  ring, no thread outside the group gets any, the walk ends, and every reference it took has been
  given back.\<close>

theorem recover_threads_kills_others:
  assumes "td_heap s d = Some data" and "thread_ring (tasks s) ts"
    and "task_group_leader (tasks s (tsk data)) = hd ts"
  shows "recover_threads_snapshot d s =
     Some (s\<lparr>sent_signals := sent_signals s @
       map (Pair SIGKILL) (filter (\<lambda>u. u \<noteq> tsk data) (visited (tasks s) ts))\<rparr>)"
  using assms by (rule recover_threads_ok)

text \<open>A process of three threads; thread 7 leads the group, and thread 8 holds the snapshot. Its
  last thread is dead.\<close>

definition demo_thread :: "task \<Rightarrow> task_struct" where
  "demo_thread t =
     \<lparr>task_mm = 0, task_files = 0, task_group_leader = 7,
      task_next_thread = (if t = 9 then 7 else t + 1), task_pid_alive = (t \<noteq> 9), task_usage = 1,
      task_regs = \<lparr>ip = 0, gprs = []\<rparr>\<rparr>"

definition demo_threads_state :: threads_state where
  "demo_threads_state = files_state.extend
     (demo_files_state\<lparr>tasks := demo_thread, td_heap := [100 \<mapsto> demo_data\<lparr>tsk := 8\<rparr>]\<rparr>)
     (threads_state.fields [])"

lemma demo_threads_state_simps:
  "tasks demo_threads_state = demo_thread" "td_heap demo_threads_state = [100 \<mapsto> demo_data\<lparr>tsk := 8\<rparr>]"
  "sent_signals demo_threads_state = []"
  by (simp_all add: demo_threads_state_def files_state.defs threads_state.defs)

theorem recover_threads_kills_others_witness:
  "map_option sent_signals (recover_threads_snapshot 100 demo_threads_state) = Some [(9, 7), (9, 9)]"
proof -
  have "thread_ring (tasks demo_threads_state) [7, 8, 9]"
    by (simp add: thread_ring_def demo_threads_state_simps demo_thread_def)
  then show ?thesis
    using recover_threads_kills_others [of demo_threads_state 100 "demo_data\<lparr>tsk := 8\<rparr>" "[7, 8, 9]"]
    by (simp add: demo_threads_state_simps demo_thread_def SIGKILL_def)
qed

end
