(* ===== verification/Vmrange.thy ===== *)
theory Vmrange
  imports Task_Data Kernel_Instance
begin

text \<open>
  The allow and block lists of \<open>src/memory.c\<close>: \<open>exclude_vmrange\<close> and
  \<open>include_vmrange\<close> add a range, \<open>intersect_blocklist\<close> and \<open>intersect_allowlist\<close>
  search one, and \<open>snapshot_walk_check_range\<close> decides, while the page tables are walked,
  which parts of the address space the snapshot covers.

  The lists are kept at pointer level, because the two functions that add a range call
  \<open>list_add\<close> with its arguments exchanged.
\<close>

section \<open>Adding a range\<close>

definition new_vmrange ::
  "nat \<Rightarrow> u64 \<Rightarrow> u64 \<Rightarrow> 's list_state_scheme \<Rightarrow> 's list_state_scheme" where
  "new_vmrange n st en s =
     s\<lparr>vmranges := (vmranges s)(n \<mapsto> \<lparr>vr_start = st, vr_end = en\<rparr>),
       lheap := INIT_LIST_HEAD (Vmrange_node n) (lheap s)\<rparr>"

text \<open>
  \<open>ensure_task_data\<close> may return NULL; the address of a list head inside it is then written
  to, and the kernel crashes.
\<close>

definition exclude_vmrange ::
  "'k kernel_scheme \<Rightarrow> u64 \<Rightarrow> u64 \<Rightarrow> 's td_state_scheme \<Rightarrow> 's td_state_scheme option" where
  "exclude_vmrange K st en s =
     do { (data, s1) \<leftarrow> ensure_task_data K (current s) s;
          (case kmalloc K s1 of
             (None, s2) \<Rightarrow> Some s2
           | (Some n, s2) \<Rightarrow>
               (let s3 = new_vmrange n st en s2 in
                case data of
                  None \<Rightarrow> None
                | Some d \<Rightarrow>
                    Some (s3\<lparr>lheap := list_add (Blocklist d) (Vmrange_node n) (lheap s3)\<rparr>))) }"

definition include_vmrange ::
  "'k kernel_scheme \<Rightarrow> u64 \<Rightarrow> u64 \<Rightarrow> 's td_state_scheme \<Rightarrow> 's td_state_scheme option" where
  "include_vmrange K st en s =
     do { (data, s1) \<leftarrow> ensure_task_data K (current s) s;
          (case kmalloc K s1 of
             (None, s2) \<Rightarrow> Some s2
           | (Some n, s2) \<Rightarrow>
               (let s3 = new_vmrange n st en s2 in
                case data of
                  None \<Rightarrow> None
                | Some d \<Rightarrow>
                    Some (s3\<lparr>lheap := list_add (Allowlist d) (Vmrange_node n) (lheap s3)\<rparr>))) }"

section \<open>Searching the lists\<close>

text \<open>\<open>list_entry\<close>: the range around a list node.\<close>

definition vmrange_at :: "'s list_state_scheme \<Rightarrow> lnode \<Rightarrow> vmrange option" where
  "vmrange_at s l = (case l of Vmrange_node n \<Rightarrow> vmranges s n | _ \<Rightarrow> None)"

definition overlaps :: "u64 \<Rightarrow> u64 \<Rightarrow> vmrange \<Rightarrow> bool" where
  "overlaps st en r \<longleftrightarrow> en > vr_start r \<and> st < vr_end r"

definition overlaps_at :: "'s list_state_scheme \<Rightarrow> u64 \<Rightarrow> u64 \<Rightarrow> lnode \<Rightarrow> bool option" where
  "overlaps_at s st en l = map_option (overlaps st en) (vmrange_at s l)"

definition intersect_blocklist ::
  "nat \<Rightarrow> u64 \<Rightarrow> u64 \<Rightarrow> 's list_state_scheme \<Rightarrow> vmrange option option" where
  "intersect_blocklist d st en s =
     do { found \<leftarrow> list_find (lheap s) (Blocklist d) (overlaps_at s st en);
          Some (Option.bind found (vmrange_at s)) }"

definition intersect_allowlist ::
  "nat \<Rightarrow> u64 \<Rightarrow> u64 \<Rightarrow> 's list_state_scheme \<Rightarrow> vmrange option option" where
  "intersect_allowlist d st en s =
     do { found \<leftarrow> list_find (lheap s) (Allowlist d) (overlaps_at s st en);
          Some (Option.bind found (vmrange_at s)) }"

section \<open>The decision taken at every step of the page walk\<close>

text \<open>\<open>struct snapshot_walk_data\<close>; its pointer to the task data is the argument \<open>d\<close>.\<close>

record walk_data =
  next_allowed_address :: u64
  next_blocked_address :: u64

definition init_walk_data :: walk_data where
  "init_walk_data = \<lparr>next_allowed_address = 0, next_blocked_address = 0\<rparr>"

definition snapshot_walk_check_range ::
  "nat \<Rightarrow> u32 \<Rightarrow> u64 \<Rightarrow> u64 \<Rightarrow> walk_data \<Rightarrow> 's list_state_scheme
   \<Rightarrow> (page_walk_action \<times> walk_data) option" where
  "snapshot_walk_check_range d cfg addr nxt wd s =
     (if nxt < next_blocked_address wd then Some (ACTION_CONTINUE, wd)
      else if nxt < next_allowed_address wd then Some (ACTION_SUBTREE, wd)
      else do {
        blocked \<leftarrow> intersect_blocklist d addr nxt s;
        (case blocked of
           Some b \<Rightarrow>
             if vr_start b \<le> addr \<and> vr_end b \<ge> nxt
             then Some (ACTION_CONTINUE, wd\<lparr>next_blocked_address := vr_end b\<rparr>)
             else do {
               allowed \<leftarrow> intersect_allowlist d addr nxt s;
               (case allowed of
                  Some a \<Rightarrow>
                    Some (ACTION_SUBTREE,
                      if vr_start a \<le> addr \<and> vr_end a \<ge> nxt
                      then wd\<lparr>next_allowed_address := vr_end a\<rparr> else wd)
                | None \<Rightarrow>
                    if config_has cfg AFL_SNAPSHOT_BLOCK
                    then Some (ACTION_CONTINUE, wd\<lparr>next_blocked_address := nxt\<rparr>)
                    else Some (ACTION_SUBTREE, wd)) }
         | None \<Rightarrow>
             do {
               allowed \<leftarrow> intersect_allowlist d addr nxt s;
               (case allowed of
                  Some a \<Rightarrow>
                    Some (ACTION_SUBTREE,
                      if vr_start a \<le> addr \<and> vr_end a \<ge> nxt
                      then wd\<lparr>next_allowed_address := vr_end a\<rparr> else wd)
                | None \<Rightarrow>
                    if config_has cfg AFL_SNAPSHOT_BLOCK
                    then Some (ACTION_CONTINUE, wd\<lparr>next_blocked_address := nxt\<rparr>)
                    else Some (ACTION_SUBTREE, wd\<lparr>next_allowed_address := nxt\<rparr>)) }) })"

section \<open>What the lists hold\<close>

text \<open>\<open>range_list s head rs\<close>: the list at \<open>head\<close> links nodes whose ranges are \<open>rs\<close>.\<close>

definition range_list :: "'s list_state_scheme \<Rightarrow> lnode \<Rightarrow> vmrange list \<Rightarrow> bool" where
  "range_list s head rs \<longleftrightarrow>
     (\<exists>ns. dlist (lheap s) head (map Vmrange_node ns) \<and>
           map (vmranges s) ns = map Some rs \<and> (\<forall>n \<in> set ns. n < alloc_next s))"

text \<open>Both lists of every live task data are well formed.\<close>

definition lists_ok :: "'s td_state_scheme \<Rightarrow> bool" where
  "lists_ok s \<longleftrightarrow>
     (\<forall>d. td_heap s d \<noteq> None \<longrightarrow>
        (\<exists>rs. length rs \<le> 1 \<and> range_list s (Allowlist d) rs) \<and>
        (\<exists>rs. length rs \<le> 1 \<and> range_list s (Blocklist d) rs))"

lemma find_overlaps_map:
  assumes "map (vmranges s) ns = map Some rs"
  shows "Option.bind (find (\<lambda>l. overlaps st en (the (vmrange_at s l))) (map Vmrange_node ns)) (vmrange_at s) =
         find (overlaps st en) rs"
  using assms
proof (induction ns arbitrary: rs)
  case (Cons n ns)
  then obtain r rs' where rs: "rs = r # rs'" "vmranges s n = Some r" "map (vmranges s) ns = map Some rs'"
    by (cases rs) auto
  with Cons.IH [of rs'] show ?case by (simp add: vmrange_at_def)
qed simp

lemma range_list_find:
  assumes "range_list s head rs"
  shows "\<exists>found. list_find (lheap s) head (overlaps_at s st en) = Some found \<and>
     Option.bind found (vmrange_at s) = find (overlaps st en) rs"
proof -
  obtain ns where d: "dlist (lheap s) head (map Vmrange_node ns)" and r: "map (vmranges s) ns = map Some rs"
    using assms by (auto simp: range_list_def)
  have "vmranges s n \<noteq> None" if "n \<in> set ns" for n
    using r that by (metis imageE image_set in_set_conv_nth length_map list.set_map nth_map option.distinct(1))
  then have "overlaps_at s st en l = Some (overlaps st en (the (vmrange_at s l)))"
    if "l \<in> set (map Vmrange_node ns)" for l
    using that by (fastforce simp: overlaps_at_def vmrange_at_def)
  then have "list_find (lheap s) head (overlaps_at s st en) =
      Some (find (\<lambda>l. overlaps st en (the (vmrange_at s l))) (map Vmrange_node ns))"
    by (rule list_find_dlist [OF d])
  with find_overlaps_map [OF r, of st en] show ?thesis by blast
qed

lemma intersect_blocklist_eq [heap_simps]:
  "range_list s (Blocklist d) bl \<Longrightarrow> intersect_blocklist d st en s = Some (find (overlaps st en) bl)"
  by (auto simp: intersect_blocklist_def dest: range_list_find [of _ _ _ st en])

lemma intersect_allowlist_eq [heap_simps]:
  "range_list s (Allowlist d) al \<Longrightarrow> intersect_allowlist d st en s = Some (find (overlaps st en) al)"
  by (auto simp: intersect_allowlist_def dest: range_list_find [of _ _ _ st en])

lemma range_list_init:
  "range_list (s\<lparr>lheap := INIT_LIST_HEAD head (lheap s)\<rparr>) head []"
  by (simp add: range_list_def dlist_init)

text \<open>A list is unaffected by what happens to fresh nodes and to other heads.\<close>

definition is_head :: "lnode \<Rightarrow> bool" where
  "is_head l \<longleftrightarrow> (case l of Allowlist _ \<Rightarrow> True | Blocklist _ \<Rightarrow> True | _ \<Rightarrow> False)"

lemma is_head_simps [simp]:
  "is_head (Allowlist d)" "is_head (Blocklist d)" "\<not> is_head (Vmrange_node n)"
  by (simp_all add: is_head_def)

lemma range_list_new_node:
  assumes "range_list s head rs" and "is_head head" and "alloc_next s \<le> n" and "n < alloc_next s'"
    and "vmranges s' = vmranges s" and "lheap s' = lheap s"
  shows "range_list (new_vmrange n st en s') head rs"
proof -
  from assms(1) obtain ns where d: "dlist (lheap s) head (map Vmrange_node ns)"
    and r: "map (vmranges s) ns = map Some rs" and l: "\<forall>k \<in> set ns. k < alloc_next s"
    by (auto simp: range_list_def)
  have n: "n \<notin> set ns" using l assms(3) by (auto dest: leD)
  have "dlist (INIT_LIST_HEAD (Vmrange_node n) (lheap s)) head (map Vmrange_node ns)"
    using d n assms(2) by (intro dlist_init_frame) auto
  moreover have "map ((vmranges s)(n \<mapsto> \<lparr>vr_start = st, vr_end = en\<rparr>)) ns = map (vmranges s) ns"
    using n by (intro map_cong) auto
  moreover have "\<forall>k \<in> set ns. k < alloc_next s'" using l assms(3,4) by auto
  ultimately show ?thesis
    unfolding range_list_def new_vmrange_def using r assms(5,6) by (intro exI [of _ ns]) simp
qed

lemma range_list_exchanged:
  "n < alloc_next s \<Longrightarrow> is_head head \<Longrightarrow>
   range_list ((new_vmrange n st en s)\<lparr>lheap := list_add head (Vmrange_node n) (lheap (new_vmrange n st en s))\<rparr>)
     head [\<lparr>vr_start = st, vr_end = en\<rparr>]"
  unfolding range_list_def new_vmrange_def
  by (rule exI [of _ "[n]"]) (auto intro!: dlist_list_add_exchanged)

lemma range_list_exchanged_other:
  assumes "range_list s head' rs" and "is_head head" and "is_head head'" and "head' \<noteq> head"
    and "alloc_next s \<le> n" and "n < alloc_next s'" and "vmranges s' = vmranges s" and "lheap s' = lheap s"
  shows "range_list ((new_vmrange n st en s')\<lparr>lheap :=
           list_add head (Vmrange_node n) (lheap (new_vmrange n st en s'))\<rparr>) head' rs"
proof -
  from assms(1) obtain ns where d: "dlist (lheap s) head' (map Vmrange_node ns)"
    and r: "map (vmranges s) ns = map Some rs" and l: "\<forall>k \<in> set ns. k < alloc_next s"
    by (auto simp: range_list_def)
  have n: "n \<notin> set ns" using l assms(5) by (auto dest: leD)
  have "dlist (list_add head (Vmrange_node n) (INIT_LIST_HEAD (Vmrange_node n) (lheap s)))
          head' (map Vmrange_node ns)"
    using d n assms(2,3,4) by (intro list_add_exchanged_frame) auto
  moreover have "map ((vmranges s)(n \<mapsto> \<lparr>vr_start = st, vr_end = en\<rparr>)) ns = map (vmranges s) ns"
    using n by (intro map_cong) auto
  moreover have "\<forall>k \<in> set ns. k < alloc_next s'" using l assms(5,6) by auto
  ultimately show ?thesis
    unfolding range_list_def new_vmrange_def using r assms(7,8) by (intro exI [of _ ns]) simp
qed

section \<open>Effect of adding a range\<close>

lemma range_list_init_other:
  assumes "range_list s head rs" and "is_head head" and "is_head l" and "l \<noteq> head"
    and "vmranges s' = vmranges s" and "alloc_next s \<le> alloc_next s'"
    and "lheap s' = INIT_LIST_HEAD l (lheap s)"
  shows "range_list s' head rs"
proof -
  from assms(1) obtain ns where d: "dlist (lheap s) head (map Vmrange_node ns)"
    and r: "map (vmranges s) ns = map Some rs" and l: "\<forall>k \<in> set ns. k < alloc_next s"
    by (auto simp: range_list_def)
  have "dlist (lheap s') head (map Vmrange_node ns)"
    unfolding assms(7) using d assms(3,4) by (intro dlist_init_frame) auto
  with r l assms(5,6) show ?thesis unfolding range_list_def by (intro exI [of _ ns]) auto
qed

lemma range_list_init_self:
  "lheap s' = INIT_LIST_HEAD l h \<Longrightarrow> range_list s' l []"
  by (simp add: range_list_def dlist_init)

lemma range_list_cong:
  "lheap s' = lheap s \<Longrightarrow> vmranges s' = vmranges s \<Longrightarrow> alloc_next s \<le> alloc_next s' \<Longrightarrow>
   range_list s head rs \<Longrightarrow> range_list s' head rs"
  unfolding range_list_def by (metis less_le_trans)

lemma lists_ok_cong:
  assumes "lheap s' = lheap s" and "vmranges s' = vmranges s" and "alloc_next s \<le> alloc_next s'"
    and "\<And>d. td_heap s' d \<noteq> None \<Longrightarrow> td_heap s d \<noteq> None"
  shows "lists_ok s \<Longrightarrow> lists_ok s'"
  using assms(4) range_list_cong [OF assms(1-3)] unfolding lists_ok_def by metis

text \<open>\<open>ensure_task_data\<close> gives new task data two empty lists and leaves the others alone.\<close>

lemma ensure_lists:
  assumes ok: "registry_ok s" and e: "ensure_task_data K t s = Some (r, s')"
  shows "is_head head \<Longrightarrow> head \<noteq> Allowlist (alloc_next s) \<Longrightarrow> head \<noteq> Blocklist (alloc_next s) \<Longrightarrow>
           range_list s head rs \<Longrightarrow> range_list s' head rs"
    and "registry_map s t = None \<Longrightarrow> r = Some d \<Longrightarrow>
           d = alloc_next s \<and> range_list s' (Allowlist d) [] \<and> range_list s' (Blocklist d) []"
    and "lists_ok s \<Longrightarrow> lists_ok s'"
    and "alloc_next s \<le> alloc_next s'"
proof -
  consider (found) d where "registry_map s t = Some d"
    | (oom) "registry_map s t = None" "\<not> kmalloc_ok K (alloc_next s)"
    | (fresh) "registry_map s t = None" "kmalloc_ok K (alloc_next s)"
    by (cases "registry_map s t") auto
  note cases3 = this
  let ?A = "Allowlist (alloc_next s)" and ?B = "Blocklist (alloc_next s)"
  have fr: "td_heap s' = (td_heap s)(alloc_next s \<mapsto> new_task_data t) \<and> r = Some (alloc_next s) \<and>
       lheap s' = INIT_LIST_HEAD ?B (INIT_LIST_HEAD ?A (lheap s)) \<and> vmranges s' = vmranges s \<and>
       alloc_next s' = Suc (alloc_next s)"
    if "registry_map s t = None" "kmalloc_ok K (alloc_next s)"
    by (rule ensure_task_data_new [OF ok that]) (use e in auto)
  have oo: "s' = s\<lparr>alloc_next := Suc (alloc_next s)\<rparr> \<and> r = None"
    if "registry_map s t = None" "\<not> kmalloc_ok K (alloc_next s)"
    using e by (simp add: ensure_task_data_oom [OF ok that])
  have fo: "s' = s \<and> r = Some d" if "registry_map s t = Some d" for d
    using e by (simp add: ensure_task_data_found [OF ok that])
  show mono: "alloc_next s \<le> alloc_next s'"
    using cases3 by cases (auto dest: fo oo fr)
  show frame: "range_list s' head rs"
    if "is_head head" "head \<noteq> ?A" "head \<noteq> ?B" "range_list s head rs" for head rs
    using cases3
  proof cases
    case (found d) with fo [OF found] that show ?thesis by simp
  next
    case oom
    with oo [OF oom] that show ?thesis by (auto intro: range_list_cong [rotated -1])
  next
    case fresh
    define s1 where "s1 = s\<lparr>lheap := INIT_LIST_HEAD ?A (lheap s)\<rparr>"
    have "range_list s1 head rs"
      using that by (rule_tac range_list_init_other [of s _ _ ?A]) (auto simp: s1_def)
    then show ?thesis
      using that fr [OF fresh] by (rule_tac range_list_init_other [of s1 _ _ ?B]) (auto simp: s1_def)
  qed
  have newl: "d = alloc_next s \<and> range_list s' (Allowlist d) [] \<and> range_list s' (Blocklist d) []"
    if n: "registry_map s t = None" "r = Some d" for d
  proof -
    have k: "kmalloc_ok K (alloc_next s)" using oo [OF n(1)] n(2) by (cases "kmalloc_ok K (alloc_next s)") auto
    define s1 where "s1 = s\<lparr>lheap := INIT_LIST_HEAD ?A (lheap s)\<rparr>"
    have "range_list s1 ?A []" by (simp add: s1_def range_list_init)
    then have "range_list s' ?A []"
      using fr [OF n(1) k] by (rule_tac range_list_init_other [of s1 _ _ ?B]) (auto simp: s1_def)
    moreover have "range_list s' ?B []"
      using fr [OF n(1) k] by (auto intro: range_list_init_self)
    ultimately show ?thesis using n(2) fr [OF n(1) k] by simp
  qed
  then show "registry_map s t = None \<Longrightarrow> r = Some d \<Longrightarrow>
           d = alloc_next s \<and> range_list s' (Allowlist d) [] \<and> range_list s' (Blocklist d) []" .
  assume lo: "lists_ok s"
  show "lists_ok s'"
    using cases3
  proof cases
    case (found d) with fo [OF found] lo show ?thesis by simp
  next
    case oom
    with oo [OF oom] lo show ?thesis by (auto intro: lists_ok_cong [rotated -1])
  next
    case fresh
    have "(\<exists>rs. length rs \<le> 1 \<and> range_list s' (Allowlist d) rs) \<and>
          (\<exists>rs. length rs \<le> 1 \<and> range_list s' (Blocklist d) rs)" if d: "td_heap s' d \<noteq> None" for d
    proof (cases "d = alloc_next s")
      case True
      with newl [OF fresh(1), of d] fr [OF fresh] show ?thesis by force
    next
      case False
      with d fr [OF fresh] have "td_heap s d \<noteq> None" by simp
      then obtain al bl where "length al \<le> 1" "range_list s (Allowlist d) al"
        "length bl \<le> 1" "range_list s (Blocklist d) bl"
        using lo by (auto simp: lists_ok_def)
      then show ?thesis using False frame [of "Allowlist d" al] frame [of "Blocklist d" bl] by auto
    qed
    then show ?thesis by (simp add: lists_ok_def)
  qed
qed

text \<open>Allocating a node and linking it, as both functions do once they have their list.\<close>

definition publish_range ::
  "lnode \<Rightarrow> u64 \<Rightarrow> u64 \<Rightarrow> 's list_state_scheme \<Rightarrow> 's list_state_scheme" where
  "publish_range head st en s =
     (let n = alloc_next s; s3 = new_vmrange n st en (s\<lparr>alloc_next := Suc n\<rparr>)
      in s3\<lparr>lheap := list_add head (Vmrange_node n) (lheap s3)\<rparr>)"

lemma publish_range_simps [simp]:
  "td_heap (publish_range head st en s) = td_heap s"
  "task_data_list (publish_range head st en s) = task_data_list s"
  "rcu_pending (publish_range head st en s) = rcu_pending s"
  "last_task (publish_range head st en s) = last_task s"
  "last_task_data (publish_range head st en s) = last_task_data s"
  "this_cpu (publish_range head st en s) = this_cpu s"
  "current (publish_range head st en s) = current s"
  "alloc_next (publish_range head st en s) = Suc (alloc_next s)"
  "owner_of (publish_range head st en s) = owner_of s"
  by (simp_all add: publish_range_def new_vmrange_def Let_def owner_of_def fun_eq_iff)

lemma publish_range_registry [simp]:
  "registry_map (publish_range head st en s) = registry_map s"
  "registry_ok s \<Longrightarrow> registry_ok (publish_range head st en s)"
  by (rule registry_map_cong) (auto intro: registry_ok_cong [rotated -1])

lemma publish_range_self:
  "is_head head \<Longrightarrow> range_list (publish_range head st en s) head [\<lparr>vr_start = st, vr_end = en\<rparr>]"
  unfolding publish_range_def Let_def by (rule range_list_exchanged) simp_all

lemma publish_range_other:
  "is_head head \<Longrightarrow> is_head head' \<Longrightarrow> head' \<noteq> head \<Longrightarrow> range_list s head' rs \<Longrightarrow>
   range_list (publish_range head st en s) head' rs"
  unfolding publish_range_def Let_def by (rule range_list_exchanged_other [of s]) simp_all

lemma publish_range_lists_ok:
  assumes "lists_ok s" and "is_head head"
  shows "lists_ok (publish_range head st en s)"
proof -
  have "\<exists>rs'. length rs' \<le> 1 \<and> range_list (publish_range head st en s) head' rs'"
    if "length rs \<le> 1" "range_list s head' rs" "is_head head'" for head' rs
    using that assms(2) publish_range_self [of head st en s]
      publish_range_other [of head head' s rs st en]
    by (cases "head' = head") (auto intro: exI [of _ "[\<lparr>vr_start = st, vr_end = en\<rparr>]"])
  with assms(1) show ?thesis unfolding lists_ok_def by (metis publish_range_simps(1) is_head_simps(1,2))
qed

lemma ensure_no_oom:
  assumes "registry_ok s" and "t \<noteq> 0" and "no_oom K"
  obtains d s1 where "ensure_task_data K t s = Some (Some d, s1)" and "registry_ok s1"
    and "registry_map s1 = (registry_map s)(t \<mapsto> d)"
proof -
  obtain r s1 where e: "ensure_task_data K t s = Some (r, s1)"
    using reg.ensure_returns [of s t K] assms(1,2) by auto
  moreover have "r \<noteq> None"
  proof (cases "registry_map s t")
    case None
    with e assms(1,3) show ?thesis by (auto simp: ensure_task_data_def get_task_data_map Let_def)
  next
    case (Some d)
    with e have "Some (r, s1) = Some (Some d, s)"
      using ensure_task_data_found [OF assms(1) Some] by metis
    then show ?thesis by simp
  qed
  ultimately show ?thesis using that ensure_registry [OF assms(1,2) e] by auto
qed

lemma exclude_vmrange_run:
  "no_oom K \<Longrightarrow> ensure_task_data K (current s) s = Some (Some d, s1) \<Longrightarrow>
   exclude_vmrange K st en s = Some (publish_range (Blocklist d) st en s1)"
  by (simp add: exclude_vmrange_def publish_range_def Let_def)

lemma include_vmrange_run:
  "no_oom K \<Longrightarrow> ensure_task_data K (current s) s = Some (Some d, s1) \<Longrightarrow>
   include_vmrange K st en s = Some (publish_range (Allowlist d) st en s1)"
  by (simp add: include_vmrange_def publish_range_def Let_def)

text \<open>C36. After \<open>exclude_vmrange\<close> the calling task has task data whose block list holds exactly
  the new range, whatever it held before: an earlier range is forgotten. The allow list and
  the lists of every other task are as they were, and the registry stays well formed.\<close>

theorem exclude_vmrange_replaces:
  assumes "registry_ok s" and "lists_ok s" and "current s \<noteq> 0" and "no_oom K"
  shows "\<exists>d s'. exclude_vmrange K st en s = Some s' \<and>
           registry_map s' = (registry_map s)(current s \<mapsto> d) \<and>
           (\<forall>d'. registry_map s (current s) = Some d' \<longrightarrow> d = d') \<and>
           range_list s' (Blocklist d) [\<lparr>vr_start = st, vr_end = en\<rparr>] \<and>
           (\<forall>al. range_list s (Allowlist d) al \<and> registry_map s (current s) = Some d \<longrightarrow>
              range_list s' (Allowlist d) al) \<and>
           (\<forall>t e al bl. t \<noteq> current s \<and> registry_map s t = Some e \<and>
              range_list s (Allowlist e) al \<and> range_list s (Blocklist e) bl \<longrightarrow>
              range_list s' (Allowlist e) al \<and> range_list s' (Blocklist e) bl) \<and>
           registry_ok s' \<and> lists_ok s'"
proof -
  obtain d s1 where e: "ensure_task_data K (current s) s = Some (Some d, s1)"
    and ok1: "registry_ok s1" and m: "registry_map s1 = (registry_map s)(current s \<mapsto> d)"
    using assms(1,3,4) by (rule ensure_no_oom)
  let ?s = "publish_range (Blocklist d) st en s1"
  have keep: "range_list ?s head rs"
    if "registry_map s t = Some k" "head = Allowlist k \<or> head = Blocklist k \<and> k \<noteq> d"
      "range_list s head rs" for t k head rs
  proof -
    have "k < alloc_next s"
      using that(1) registry_ok_used [OF assms(1)] by (auto simp: registry_map_eq_Some_iff [OF assms(1)])
    then have "range_list s1 head rs"
      using that(2,3) by (intro ensure_lists(1) [OF assms(1) e]) auto
    then show ?thesis using that(2) by (intro publish_range_other) auto
  qed
  have known: "d = d'" if "registry_map s (current s) = Some d'" for d'
    using e ensure_task_data_found [OF assms(1) that, of K] by simp
  have other: "k \<noteq> d" if "t \<noteq> current s" "registry_map s t = Some k" for t k
  proof
    assume "k = d"
    then have "registry_map s1 t = Some d" "registry_map s1 (current s) = Some d"
      using that m by simp_all
    then show False using that(1) by (auto simp: registry_map_eq_Some_iff [OF ok1])
  qed
  show ?thesis
    using exclude_vmrange_run [OF assms(4) e, of st en] m ok1
      publish_range_self [of "Blocklist d" st en s1]
      publish_range_lists_ok [OF ensure_lists(3) [OF assms(1) e assms(2)], of "Blocklist d" st en]
    by (intro exI [of _ d] exI [of _ ?s]) (auto intro: keep known dest: other)
qed

text \<open>A task whose block list already holds a range, next to a second task.\<close>

definition two_tasks :: td_state where
  "two_tasks =
     \<lparr>alloc_next = 300,
      lheap = list_add (Blocklist 100) (Vmrange_node 200) \<lparr>next_of = (\<lambda>n. n), prev_of = (\<lambda>n. n)\<rparr>,
      vmranges = [200 \<mapsto> \<lparr>vr_start = 0x1000, vr_end = 0x2000\<rparr>],
      td_heap = [100 \<mapsto> new_task_data 7, 101 \<mapsto> new_task_data 8], task_data_list = [100, 101],
      last_task = (\<lambda>_. 0), last_task_data = (\<lambda>_. None), this_cpu = 0, current = 7, rcu_pending = []\<rparr>"

lemma two_tasks_lists:
  "range_list two_tasks (Allowlist 100) []" "range_list two_tasks (Blocklist 100) [\<lparr>vr_start = 0x1000, vr_end = 0x2000\<rparr>]"
  "range_list two_tasks (Allowlist 101) []" "range_list two_tasks (Blocklist 101) []"
proof -
  show "range_list two_tasks (Allowlist 100) []" "range_list two_tasks (Allowlist 101) []"
    "range_list two_tasks (Blocklist 101) []"
    by (simp_all add: range_list_def two_tasks_def dlist_def list_add_def list_link_def Let_def)
  show "range_list two_tasks (Blocklist 100) [\<lparr>vr_start = 0x1000, vr_end = 0x2000\<rparr>]"
    unfolding range_list_def
    by (rule exI [of _ "[200]"]) (simp add: two_tasks_def dlist_def list_add_def list_link_def Let_def)
qed

lemma two_tasks_ok: "registry_ok two_tasks" "lists_ok two_tasks" "registry_map two_tasks 7 = Some 100"
proof -
  show "registry_ok two_tasks" "registry_map two_tasks 7 = Some 100"
    by (simp_all add: registry_ok_def registry_map_def owner_of_def two_tasks_def)
  have "d = 100 \<or> d = 101" if "td_heap two_tasks d \<noteq> None" for d
    using that by (auto simp: two_tasks_def split: if_splits)
  then show "lists_ok two_tasks"
    using two_tasks_lists unfolding lists_ok_def by (metis le_0_eq le_numeral_extra(4) length_Cons list.size(3) One_nat_def less_eq_nat.simps(1))
qed

theorem exclude_vmrange_replaces_witness:
  "\<exists>s'. exclude_vmrange ref_kernel 0x5000 0x6000 two_tasks = Some s' \<and>
     range_list two_tasks (Blocklist 100) [\<lparr>vr_start = 0x1000, vr_end = 0x2000\<rparr>] \<and>
     range_list s' (Blocklist 100) [\<lparr>vr_start = 0x5000, vr_end = 0x6000\<rparr>]"
proof -
  have "current two_tasks = 7" by (simp add: two_tasks_def)
  with exclude_vmrange_replaces [OF two_tasks_ok(1,2) _ ref_no_oom, where st = "0x5000" and en = "0x6000"]
    two_tasks_ok(3) two_tasks_lists(2)
  show ?thesis by auto
qed

end
