(* ===== verification/Walk_Decision.thy ===== *)
theory Walk_Decision
  imports Vmrange Kernel_Instance
begin

text \<open>
  The decisions of \<open>snapshot_walk_check_range\<close> over a whole page walk. The function
  remembers two addresses between calls and answers from them on its fast paths; the
  invariant \<open>walk_data_ok\<close> says what the remembered addresses promise, and the main
  theorem that, for page-aligned allow and block lists that do not overlap, every decision
  of a walk with ascending addresses agrees with \<open>want_page\<close>, which looks at one page only.
\<close>

section \<open>The specification: one page at a time\<close>

definition covers :: "u64 \<Rightarrow> vmrange \<Rightarrow> bool" where
  "covers p r \<longleftrightarrow> vr_start r \<le> p \<and> p < vr_end r"

definition want_page :: "u32 \<Rightarrow> vmrange list \<Rightarrow> vmrange list \<Rightarrow> u64 \<Rightarrow> bool" where
  "want_page cfg al bl p \<longleftrightarrow>
     \<not> list_ex (covers p) bl \<and> (list_ex (covers p) al \<or> \<not> config_has cfg AFL_SNAPSHOT_BLOCK)"

definition ranges_aligned :: "vmrange list \<Rightarrow> bool" where
  "ranges_aligned rs \<longleftrightarrow> list_all (\<lambda>r. page_aligned (vr_start r) \<and> page_aligned (vr_end r)) rs"

definition ranges_disjoint :: "vmrange list \<Rightarrow> vmrange list \<Rightarrow> bool" where
  "ranges_disjoint al bl \<longleftrightarrow>
     list_all (\<lambda>a. list_all (\<lambda>b. vr_end a \<le> vr_start b \<or> vr_end b \<le> vr_start a) bl) al"

text \<open>What the walk data remembers, for the pages from \<open>lo\<close> on.\<close>

definition walk_data_ok :: "u32 \<Rightarrow> vmrange list \<Rightarrow> vmrange list \<Rightarrow> u64 \<Rightarrow> walk_data \<Rightarrow> bool" where
  "walk_data_ok cfg al bl lo wd \<longleftrightarrow>
     (\<forall>p. lo \<le> p \<longrightarrow> p < next_blocked_address wd \<longrightarrow> \<not> want_page cfg al bl p) \<and>
     (\<forall>p. lo \<le> p \<longrightarrow> p < next_allowed_address wd \<longrightarrow> want_page cfg al bl p)"

section \<open>Ranges and pages\<close>

lemma covers_overlaps: "addr \<le> p \<Longrightarrow> p < nxt \<Longrightarrow> covers p r \<Longrightarrow> overlaps addr nxt r"
  by (auto simp: covers_def overlaps_def intro: le_less_trans less_le_trans)

lemma overlaps_page:
  assumes "page_aligned p" and "page_aligned (vr_start r)" and "page_aligned (vr_end r)"
    and "overlaps p (p + 4096) r"
  shows "vr_start r \<le> p" and "p + 4096 \<le> vr_end r" and "covers p r"
proof -
  show le: "vr_start r \<le> p"
  proof (rule ccontr)
    assume "\<not> vr_start r \<le> p"
    then have "p + 4096 \<le> vr_start r"
      by (intro aligned_next_le(1) [OF assms(1,2)]) simp
    with assms(4) show False by (auto simp: overlaps_def dest: leD)
  qed
  have lt: "p < vr_end r" using assms(4) by (simp add: overlaps_def)
  with assms(1,3) show "p + 4096 \<le> vr_end r" by (rule aligned_next_le(1))
  from le lt show "covers p r" by (simp add: covers_def)
qed

lemma find_overlaps_None_covers:
  assumes "find (overlaps addr nxt) rs = None" and "addr \<le> p" and "p < nxt"
  shows "\<not> list_ex (covers p) rs"
  using assms covers_overlaps by (auto simp: find_None_set list_ex_iff)

lemma find_overlaps_covers_page:
  assumes "find (overlaps p (p + 4096)) rs = Some r" and "page_aligned p" and "ranges_aligned rs"
  shows "list_ex (covers p) rs" and "vr_start r \<le> p" and "p + 4096 \<le> vr_end r"
proof -
  from find_SomeD [OF assms(1)] have o: "overlaps p (p + 4096) r" and r: "r \<in> set rs" by auto
  with assms(3) have "page_aligned (vr_start r)" "page_aligned (vr_end r)"
    by (auto simp: ranges_aligned_def list_all_iff)
  from overlaps_page [OF assms(2) this o] r
  show "list_ex (covers p) rs" and "vr_start r \<le> p" and "p + 4096 \<le> vr_end r"
    by (auto simp: list_ex_iff)
qed

lemma disjoint_covers:
  assumes "ranges_disjoint al bl" and "list_ex (covers p) al"
  shows "\<not> list_ex (covers p) bl"
  using assms by (fastforce simp: ranges_disjoint_def list_all_iff list_ex_iff covers_def)

section \<open>One decision\<close>

definition decision_ok ::
  "u32 \<Rightarrow> vmrange list \<Rightarrow> vmrange list \<Rightarrow> u64 \<Rightarrow> u64 \<Rightarrow> page_walk_action \<Rightarrow> bool" where
  "decision_ok cfg al bl addr nxt act \<longleftrightarrow>
     (act = ACTION_CONTINUE \<longrightarrow> (\<forall>p. addr \<le> p \<longrightarrow> p < nxt \<longrightarrow> \<not> want_page cfg al bl p)) \<and>
     (act \<noteq> ACTION_CONTINUE \<longrightarrow> page_aligned addr \<longrightarrow> nxt = addr + 4096 \<longrightarrow> want_page cfg al bl addr)"

lemma walk_data_okD:
  "walk_data_ok cfg al bl lo wd \<Longrightarrow> lo \<le> p \<Longrightarrow> p < next_blocked_address wd \<Longrightarrow> \<not> want_page cfg al bl p"
  "walk_data_ok cfg al bl lo wd \<Longrightarrow> lo \<le> p \<Longrightarrow> p < next_allowed_address wd \<Longrightarrow> want_page cfg al bl p"
  by (simp_all add: walk_data_ok_def)

lemma walk_data_ok_mono: "walk_data_ok cfg al bl lo wd \<Longrightarrow> lo \<le> hi \<Longrightarrow> walk_data_ok cfg al bl hi wd"
  unfolding walk_data_ok_def by (meson order_trans)

lemma walk_data_ok_blocked:
  "walk_data_ok cfg al bl lo wd \<Longrightarrow> (\<And>p. lo \<le> p \<Longrightarrow> p < x \<Longrightarrow> \<not> want_page cfg al bl p) \<Longrightarrow>
   walk_data_ok cfg al bl lo (wd\<lparr>next_blocked_address := x\<rparr>)"
  by (simp add: walk_data_ok_def)

lemma walk_data_ok_allowed:
  "walk_data_ok cfg al bl lo wd \<Longrightarrow> (\<And>p. lo \<le> p \<Longrightarrow> p < x \<Longrightarrow> want_page cfg al bl p) \<Longrightarrow>
   walk_data_ok cfg al bl lo (wd\<lparr>next_allowed_address := x\<rparr>)"
  by (simp add: walk_data_ok_def)

text \<open>The part of the function after the block list was found not to cover the interval.\<close>

definition check_allow ::
  "u32 \<Rightarrow> vmrange option \<Rightarrow> vmrange option \<Rightarrow> u64 \<Rightarrow> u64 \<Rightarrow> walk_data \<Rightarrow> page_walk_action \<times> walk_data" where
  "check_allow cfg blocked allowed addr nxt wd =
     (case allowed of
        Some a \<Rightarrow> (ACTION_SUBTREE,
          if vr_start a \<le> addr \<and> vr_end a \<ge> nxt then wd\<lparr>next_allowed_address := vr_end a\<rparr> else wd)
      | None \<Rightarrow>
          if config_has cfg AFL_SNAPSHOT_BLOCK
          then (ACTION_CONTINUE, wd\<lparr>next_blocked_address := nxt\<rparr>)
          else (ACTION_SUBTREE,
            if blocked = None then wd\<lparr>next_allowed_address := nxt\<rparr> else wd))"

lemma check_range_eq:
  assumes "range_list s (Allowlist d) al" and "range_list s (Blocklist d) bl"
  shows "snapshot_walk_check_range d cfg addr nxt wd s = Some
     (if nxt < next_blocked_address wd then (ACTION_CONTINUE, wd)
      else if nxt < next_allowed_address wd then (ACTION_SUBTREE, wd)
      else case find (overlaps addr nxt) bl of
        None \<Rightarrow> check_allow cfg None (find (overlaps addr nxt) al) addr nxt wd
      | Some b \<Rightarrow>
          if vr_start b \<le> addr \<and> vr_end b \<ge> nxt
          then (ACTION_CONTINUE, wd\<lparr>next_blocked_address := vr_end b\<rparr>)
          else check_allow cfg (Some b) (find (overlaps addr nxt) al) addr nxt wd)"
  by (auto simp: snapshot_walk_check_range_def check_allow_def
        intersect_blocklist_eq [OF assms(2)] intersect_allowlist_eq [OF assms(1)] split: option.splits)

lemma check_allow_ok:
  assumes wd: "walk_data_ok cfg al bl addr wd" and "addr < nxt"
    and al: "ranges_aligned al" and bl: "ranges_aligned bl" and dis: "ranges_disjoint al bl"
    and blocked: "blocked = find (overlaps addr nxt) bl"
    and part: "\<And>b. blocked = Some b \<Longrightarrow> \<not> (vr_start b \<le> addr \<and> vr_end b \<ge> nxt)"
    and res: "check_allow cfg blocked (find (overlaps addr nxt) al) addr nxt wd = (act, wd')"
  shows "decision_ok cfg al bl addr nxt act" and "walk_data_ok cfg al bl addr wd'"
proof -
  have page: "blocked = None" if "page_aligned addr" "nxt = addr + 4096"
    using that part blocked find_overlaps_covers_page(2,3) [of addr bl _] bl
    by (cases blocked) (auto dest: sym)
  have "decision_ok cfg al bl addr nxt act \<and> walk_data_ok cfg al bl addr wd'"
  proof (cases "find (overlaps addr nxt) al")
    case (Some a)
    have w: "want_page cfg al bl p" if "vr_start a \<le> addr" "addr \<le> p" "p < vr_end a" for p
    proof -
      have "list_ex (covers p) al"
        using that find_SomeD [OF Some] order_trans by (fastforce simp: covers_def list_ex_iff)
      with disjoint_covers [OF dis this] show ?thesis by (simp add: want_page_def)
    qed
    have "want_page cfg al bl addr" if "page_aligned addr" "nxt = addr + 4096"
      using find_overlaps_covers_page(1) [of addr al a] Some that al dis
      by (auto simp: want_page_def dest: disjoint_covers)
    moreover have "walk_data_ok cfg al bl addr (wd\<lparr>next_allowed_address := vr_end a\<rparr>)"
      if "vr_start a \<le> addr"
      using wd w that by (intro walk_data_ok_allowed) auto
    ultimately show ?thesis
      using res wd Some by (auto simp: check_allow_def decision_ok_def split: if_splits)
  next
    case None
    note na = find_overlaps_None_covers [OF None]
    have nb: "\<not> list_ex (covers p) bl" if "blocked = None" "addr \<le> p" "p < nxt" for p
      using find_overlaps_None_covers [of addr nxt bl p] that blocked by simp
    have cont: "\<not> want_page cfg al bl p"
      if "config_has cfg AFL_SNAPSHOT_BLOCK" "addr \<le> p" "p < nxt" for p
      using na that by (simp add: want_page_def)
    have sub: "want_page cfg al bl p"
      if "\<not> config_has cfg AFL_SNAPSHOT_BLOCK" "blocked = None" "addr \<le> p" "p < nxt" for p
      using nb that by (simp add: want_page_def)
    show ?thesis
      using res None wd page cont sub \<open>addr < nxt\<close>
      by (auto simp: check_allow_def decision_ok_def intro!: walk_data_ok_blocked walk_data_ok_allowed
            split: if_splits)
  qed
  then show "decision_ok cfg al bl addr nxt act" and "walk_data_ok cfg al bl addr wd'" by simp_all
qed

lemma check_range_ok:
  assumes lists: "range_list s (Allowlist d) al" "range_list s (Blocklist d) bl"
    and al: "ranges_aligned al" and bl: "ranges_aligned bl" and dis: "ranges_disjoint al bl"
    and wd: "walk_data_ok cfg al bl lo wd" and lo: "lo \<le> addr" and lt: "addr < nxt"
  obtains act wd' where "snapshot_walk_check_range d cfg addr nxt wd s = Some (act, wd')"
    and "decision_ok cfg al bl addr nxt act" and "walk_data_ok cfg al bl addr wd'"
proof -
  have wd1: "walk_data_ok cfg al bl addr wd" using wd lo by (rule walk_data_ok_mono)
  consider (fastb) "nxt < next_blocked_address wd"
    | (fasta) "\<not> nxt < next_blocked_address wd" "nxt < next_allowed_address wd"
    | (whole) b where "\<not> nxt < next_blocked_address wd" "\<not> nxt < next_allowed_address wd"
        "find (overlaps addr nxt) bl = Some b" "vr_start b \<le> addr" "vr_end b \<ge> nxt"
    | (slow) "\<not> nxt < next_blocked_address wd" "\<not> nxt < next_allowed_address wd"
        "\<And>b. find (overlaps addr nxt) bl = Some b \<Longrightarrow> \<not> (vr_start b \<le> addr \<and> vr_end b \<ge> nxt)"
    by (cases "find (overlaps addr nxt) bl") fastforce+
  then show ?thesis
  proof cases
    case fastb
    have "decision_ok cfg al bl addr nxt ACTION_CONTINUE"
      using fastb walk_data_okD(1) [OF wd1] by (auto simp: decision_ok_def)
    then show ?thesis using fastb wd1 check_range_eq [OF lists, of cfg addr nxt wd] that by simp
  next
    case fasta
    have "decision_ok cfg al bl addr nxt ACTION_SUBTREE"
      using fasta walk_data_okD(2) [OF wd1] lt by (auto simp: decision_ok_def)
    then show ?thesis using fasta wd1 check_range_eq [OF lists, of cfg addr nxt wd] that by simp
  next
    case (whole b)
    have nw: "\<not> want_page cfg al bl p" if "addr \<le> p" "p < vr_end b" for p
      using that whole(4) find_SomeD [OF whole(3)]
      by (auto simp: want_page_def list_ex_iff covers_def)
    have "decision_ok cfg al bl addr nxt ACTION_CONTINUE"
      using nw whole(5) by (auto simp: decision_ok_def)
    moreover have "walk_data_ok cfg al bl addr (wd\<lparr>next_blocked_address := vr_end b\<rparr>)"
      using wd1 nw by (rule walk_data_ok_blocked)
    ultimately show ?thesis
      using whole check_range_eq [OF lists, of cfg addr nxt wd] that by simp
  next
    case slow
    obtain act wd' where c: "check_allow cfg (find (overlaps addr nxt) bl)
        (find (overlaps addr nxt) al) addr nxt wd = (act, wd')" by fastforce
    have "snapshot_walk_check_range d cfg addr nxt wd s = Some (act, wd')"
      using slow c check_range_eq [OF lists, of cfg addr nxt wd]
      by (cases "find (overlaps addr nxt) bl") auto
    then show ?thesis
      using that check_allow_ok [OF wd1 lt al bl dis refl slow(3) c] by blast
  qed
qed

section \<open>A whole walk\<close>

text \<open>The answers to a sequence of calls, threading the walk data as the callbacks do.\<close>

fun check_calls ::
  "nat \<Rightarrow> u32 \<Rightarrow> walk_call list \<Rightarrow> walk_data \<Rightarrow> 's list_state_scheme \<Rightarrow> page_walk_action list option" where
  "check_calls d cfg [] wd s = Some []"
| "check_calls d cfg (c # cs) wd s =
     do { (act, wd') \<leftarrow> snapshot_walk_check_range d cfg (walk_addr c) (walk_next c) wd s;
          acts \<leftarrow> check_calls d cfg cs wd' s;
          Some (act # acts) }"

definition ascending :: "walk_call list \<Rightarrow> bool" where
  "ascending cs \<longleftrightarrow> sorted (map walk_addr cs) \<and> list_all (\<lambda>c. walk_addr c < walk_next c) cs"

lemma init_walk_data_ok: "walk_data_ok cfg al bl lo init_walk_data"
  by (simp add: walk_data_ok_def init_walk_data_def)

lemma check_calls_ok:
  assumes "range_list s (Allowlist d) al" and "range_list s (Blocklist d) bl"
    and "ranges_aligned al" and "ranges_aligned bl" and "ranges_disjoint al bl"
    and "ascending cs" and "walk_data_ok cfg al bl lo wd" and "\<forall>c \<in> set cs. lo \<le> walk_addr c"
  shows "\<exists>acts. check_calls d cfg cs wd s = Some acts \<and>
           list_all2 (\<lambda>c act. decision_ok cfg al bl (walk_addr c) (walk_next c) act) cs acts"
  using assms(6-8)
proof (induction cs arbitrary: wd lo)
  case Nil
  then show ?case by simp
next
  case (Cons c cs)
  from Cons.prems have lo: "lo \<le> walk_addr c" and lt: "walk_addr c < walk_next c"
    and asc: "ascending cs" "\<forall>c' \<in> set cs. walk_addr c \<le> walk_addr c'"
    by (auto simp: ascending_def)
  obtain act wd' where
    "snapshot_walk_check_range d cfg (walk_addr c) (walk_next c) wd s = Some (act, wd')"
    "decision_ok cfg al bl (walk_addr c) (walk_next c) act"
    "walk_data_ok cfg al bl (walk_addr c) wd'"
    by (rule check_range_ok [OF assms(1-5) Cons.prems(2) lo lt])
  moreover from Cons.IH [OF asc(1) this(3) asc(2)] obtain acts where
    "check_calls d cfg cs wd' s = Some acts"
    "list_all2 (\<lambda>c act. decision_ok cfg al bl (walk_addr c) (walk_next c) act) cs acts" by blast
  ultimately show ?case by (intro exI [of _ "act # acts"]) simp
qed

text \<open>C15. Throughout a page walk with ascending addresses, and for page-aligned allow and block
  lists with no page in common, the cached fast paths never change a decision: a page table
  entry is skipped exactly when its page is not wanted, and an upper level entry is skipped
  only when no page below it is wanted.\<close>

theorem walk_decisions_correct:
  assumes "range_list s (Allowlist d) al" and "range_list s (Blocklist d) bl"
    and "ranges_aligned al" and "ranges_aligned bl" and "ranges_disjoint al bl"
    and "ascending cs"
  shows "\<exists>acts. check_calls d cfg cs init_walk_data s = Some acts \<and> length acts = length cs \<and>
           (\<forall>i < length cs.
              (acts ! i = ACTION_CONTINUE \<longrightarrow>
                 (\<forall>p. walk_addr (cs ! i) \<le> p \<longrightarrow> p < walk_next (cs ! i) \<longrightarrow> \<not> want_page cfg al bl p)) \<and>
              (page_aligned (walk_addr (cs ! i)) \<longrightarrow> walk_next (cs ! i) = walk_addr (cs ! i) + 4096 \<longrightarrow>
                 (acts ! i = ACTION_CONTINUE) = (\<not> want_page cfg al bl (walk_addr (cs ! i)))))"
proof -
  obtain acts where c: "check_calls d cfg cs init_walk_data s = Some acts"
    and a: "list_all2 (\<lambda>c act. decision_ok cfg al bl (walk_addr c) (walk_next c) act) cs acts"
    using check_calls_ok [OF assms init_walk_data_ok [of cfg al bl 0]] by auto
  have dec: "decision_ok cfg al bl (walk_addr (cs ! i)) (walk_next (cs ! i)) (acts ! i)"
    and lt: "walk_addr (cs ! i) < walk_next (cs ! i)" if "i < length cs" for i
    using a assms(6) that by (auto simp: list_all2_conv_all_nth ascending_def list_all_length)
  have "length acts = length cs" using a by (simp add: list_all2_lengthD)
  then show ?thesis using c dec lt by (intro exI [of _ acts]) (fastforce simp: decision_ok_def)
qed

text \<open>A state before the module has seen any task; the first object gets the address 100.\<close>

definition demo_state :: td_state where
  "demo_state =
     \<lparr>alloc_next = 100, lheap = \<lparr>next_of = id, prev_of = id\<rparr>, vmranges = (\<lambda>_. None),
      td_heap = (\<lambda>_. None), task_data_list = [], last_task = (\<lambda>_. 0), last_task_data = (\<lambda>_. None),
      this_cpu = 0, current = 7, rcu_pending = []\<rparr>"

text \<open>The state after \<open>include_vmrange\<close> of one range and \<open>exclude_vmrange\<close> of another.\<close>

definition demo_ranges :: "u64 \<Rightarrow> u64 \<Rightarrow> u64 \<Rightarrow> u64 \<Rightarrow> td_state" where
  "demo_ranges a b c e =
     the (do { s \<leftarrow> include_vmrange ref_kernel a b demo_state; exclude_vmrange ref_kernel c e s })"

lemma demo_ranges_lists:
  "range_list (demo_ranges a b c e) (Allowlist 100) [\<lparr>vr_start = a, vr_end = b\<rparr>]"
  "range_list (demo_ranges a b c e) (Blocklist 100) [\<lparr>vr_start = c, vr_end = e\<rparr>]"
proof -
  have k: "no_oom ref_kernel" by simp
  have ok: "registry_ok demo_state" by (simp add: registry_ok_def demo_state_def)
  obtain s1 where s1: "ensure_task_data ref_kernel 7 demo_state = Some (Some 100, s1)"
    using k by (simp add: ensure_task_data_def get_task_data_def demo_state_def Let_def)
  let ?s2 = "publish_range (Allowlist 100) a b s1"
  have "current s1 = 7" "registry_ok s1" "registry_map s1 7 = Some 100"
    using s1 ensure_registry [OF ok _ s1] k
    by (auto simp: ensure_task_data_def get_task_data_def demo_state_def Let_def put_td_def)
  then have e2: "ensure_task_data ref_kernel (current ?s2) ?s2 = Some (Some 100, ?s2)"
    by (simp add: ensure_task_data_found)
  have "include_vmrange ref_kernel a b demo_state = Some ?s2"
    using s1 by (intro include_vmrange_run [OF k]) (simp add: demo_state_def)
  then have eq: "demo_ranges a b c e = publish_range (Blocklist 100) c e ?s2"
    using exclude_vmrange_run [OF k e2] by (simp add: demo_ranges_def)
  show "range_list (demo_ranges a b c e) (Allowlist 100) [\<lparr>vr_start = a, vr_end = b\<rparr>]"
    unfolding eq by (intro publish_range_other publish_range_self) simp_all
  show "range_list (demo_ranges a b c e) (Blocklist 100) [\<lparr>vr_start = c, vr_end = e\<rparr>]"
    unfolding eq by (rule publish_range_self) simp
qed

theorem walk_decisions_correct_witness:
  "\<exists>acts. check_calls 100 0 [Pmd_entry 0 0x200000, Pte_entry 0x1000 0x2000, Pte_entry 0x3000 0x4000]
      init_walk_data (demo_ranges 0 0x2000 0x3000 0x4000) = Some acts \<and>
    acts ! 1 \<noteq> ACTION_CONTINUE \<and> acts ! 2 = ACTION_CONTINUE"
proof -
  let ?cs = "[Pmd_entry 0 0x200000, Pte_entry 0x1000 0x2000, Pte_entry 0x3000 0x4000]"
  let ?al = "[\<lparr>vr_start = 0, vr_end = 0x2000\<rparr>]" and ?bl = "[\<lparr>vr_start = 0x3000, vr_end = 0x4000\<rparr>]"
  have "ranges_aligned ?al" "ranges_aligned ?bl" "ranges_disjoint ?al ?bl" "ascending ?cs"
    by (simp_all add: ranges_aligned_def ranges_disjoint_def ascending_def page_aligned_def
          offset_in_page_def)
  from walk_decisions_correct [OF demo_ranges_lists this, of 0] obtain acts where
    acts: "check_calls 100 0 ?cs init_walk_data (demo_ranges 0 0x2000 0x3000 0x4000) = Some acts"
    and dec: "\<forall>i < length ?cs. page_aligned (walk_addr (?cs ! i)) \<longrightarrow>
        walk_next (?cs ! i) = walk_addr (?cs ! i) + 4096 \<longrightarrow>
        (acts ! i = ACTION_CONTINUE) = (\<not> want_page 0 ?al ?bl (walk_addr (?cs ! i)))" by blast
  from dec [rule_format, of 1] dec [rule_format, of 2]
  have "acts ! 1 \<noteq> ACTION_CONTINUE" "acts ! 2 = ACTION_CONTINUE"
    by (simp_all add: want_page_def covers_def config_has_def page_aligned_def offset_in_page_def)
  with acts show ?thesis by blast
qed

text \<open>C27. An excluded page inside an included range is not wanted, and the callback for the page skips
  it when the walk comes to it alone. When the walk has visited an entry of an upper level around
  the page before, an entry that lies in the included range and not in the excluded one, the fast
  path for allowed addresses lets the page through, unless it is the last one of the included range.\<close>

theorem overlapping_lists_inconsistent:
  assumes lists: "range_list s (Allowlist d) [a]" "range_list s (Blocklist d) [b]"
    and entry: "vr_start a \<le> lo" "hi \<le> vr_end a" "\<not> (vr_start b \<le> lo \<and> hi \<le> vr_end b)"
    and page: "lo \<le> p" "p < p + 4096" "p + 4096 \<le> hi" "p + 4096 < vr_end a"
    and blocked: "vr_start b \<le> p" "p + 4096 \<le> vr_end b"
  shows "\<not> want_page cfg [a] [b] p \<and>
     check_calls d cfg [Pte_entry p (p + 4096)] init_walk_data s = Some [ACTION_CONTINUE] \<and>
     check_calls d cfg [Pmd_entry lo hi, Pte_entry p (p + 4096)] init_walk_data s = Some [ACTION_SUBTREE, ACTION_SUBTREE]"
proof -
  have lt: "p < vr_end b" "lo < vr_end b" "vr_start b < hi" "vr_start b < p + 4096" "lo < vr_end a" "vr_start a < hi"
    using page blocked entry by (meson le_less_trans less_le_trans)+
  have not_wanted: "\<not> want_page cfg [a] [b] p" using blocked(1) lt(1) by (simp add: want_page_def covers_def)
  have alone: "snapshot_walk_check_range d cfg p (p + 4096) init_walk_data s =
      Some (ACTION_CONTINUE, init_walk_data\<lparr>next_blocked_address := vr_end b\<rparr>)"
    using lt(1,4) blocked by (simp add: check_range_eq [OF lists] init_walk_data_def overlaps_def)
  let ?wd = "init_walk_data\<lparr>next_allowed_address := vr_end a\<rparr>"
  have around: "snapshot_walk_check_range d cfg lo hi init_walk_data s = Some (ACTION_SUBTREE, ?wd)"
    using lt(2,3,5,6) entry by (simp add: check_range_eq [OF lists] init_walk_data_def overlaps_def check_allow_def)
  have "snapshot_walk_check_range d cfg p (p + 4096) ?wd s = Some (ACTION_SUBTREE, ?wd)"
    using page(4) by (simp add: check_range_eq [OF lists] init_walk_data_def)
  with not_wanted alone around show ?thesis by simp
qed

theorem overlapping_lists_inconsistent_witness:
  "check_calls 100 0 [Pte_entry 0x1000 0x2000] init_walk_data (demo_ranges 0 0x400000 0x1000 0x2000)
     = Some [ACTION_CONTINUE] \<and>
   check_calls 100 0 [Pmd_entry 0 0x200000, Pte_entry 0x1000 0x2000] init_walk_data
     (demo_ranges 0 0x400000 0x1000 0x2000) = Some [ACTION_SUBTREE, ACTION_SUBTREE]"
  using overlapping_lists_inconsistent [where p = "0x1000" and lo = 0 and hi = "0x200000" and cfg = 0,
      OF demo_ranges_lists [of 0 "0x400000" "0x1000" "0x2000"]]
  by (simp del: check_calls.simps)

end
