(* ===== verification/Take_Memory.thy ===== *)
theory Take_Memory
  imports Memory_Restore Walk_Decision
begin

text \<open>
  \<open>take_memory_snapshot\<close> of \<open>src/memory.c\<close>: it records every area of the calling
  process, chooses the areas to snapshot and walks their page tables, write-protecting the
  pages. The theorems show that it establishes the invariant of theory
  \<open>Memory_Invariant\<close> and which pages it tracks.
\<close>

section \<open>Recording an area\<close>

text \<open>
  The new object is uninitialised memory, and \<open>prot\<close> is only ever or-ed into. The C
  conditions \<open>vma->vm_flags | VM_READ ? PROT_READ : 0\<close> test the disjunction.
\<close>

definition snapshot_prot :: "u64 \<Rightarrow> u64 \<Rightarrow> u64" where
  "snapshot_prot garbage flags =
     (let p1 = garbage OR (if flags OR VM_READ \<noteq> 0 then PROT_READ else 0);
          p2 = p1 OR (if flags OR VM_WRITE \<noteq> 0 then PROT_WRITE else 0)
      in p2 OR (if flags OR VM_EXEC \<noteq> 0 then PROT_EXEC else 0))"

definition add_snapshot_vma ::
  "'k kernel_scheme \<Rightarrow> vm_area \<Rightarrow> task_data \<Rightarrow> 's alloc_state_scheme
   \<Rightarrow> snapshot_vma option \<times> task_data \<times> 's alloc_state_scheme" where
  "add_snapshot_vma K v data s =
     (case kmalloc K s of
        (None, s1) \<Rightarrow> (None, data, s1)
      | (Some n, s1) \<Rightarrow>
          let sv = \<lparr>sv_id = n, sv_start = vm_start v, sv_end = vm_end v,
                    is_anonymous_private = (vma_is_anonymous v \<and> vm_flags v AND VM_SHARED = 0),
                    sv_prot = snapshot_prot (kmalloc_garbage K n) (vm_flags v)\<rparr>
          in (Some sv, upd_ss (\<lambda>x. x\<lparr>all_vmas := all_vmas x @ [sv]\<rparr>) data, s1))"

section \<open>The callbacks of the page walk\<close>

text \<open>
  The walker sets the action to \<open>ACTION_SUBTREE\<close> before each call; only the callbacks for
  the two middle levels change it. The private data of the walk and the machine state are
  threaded together.
\<close>

definition snapshot_upper_entry ::
  "nat \<Rightarrow> u64 \<Rightarrow> u64 \<Rightarrow> walk_data \<times> 's mem_state_scheme
   \<Rightarrow> (int \<times> page_walk_action \<times> walk_data \<times> 's mem_state_scheme) option" where
  "snapshot_upper_entry d addr nxt x =
     (let (wd, s) = x in
      do { data \<leftarrow> td_heap s d;
           (act, wd') \<leftarrow> snapshot_walk_check_range d (config data) addr nxt wd s;
           Some (0, ACTION_SUBTREE, wd', s) })"

definition snapshot_middle_entry ::
  "nat \<Rightarrow> u64 \<Rightarrow> u64 \<Rightarrow> walk_data \<times> 's mem_state_scheme
   \<Rightarrow> (int \<times> page_walk_action \<times> walk_data \<times> 's mem_state_scheme) option" where
  "snapshot_middle_entry d addr nxt x =
     (let (wd, s) = x in
      do { data \<leftarrow> td_heap s d;
           (act, wd') \<leftarrow> snapshot_walk_check_range d (config data) addr nxt wd s;
           Some (0, act, wd', s) })"

definition snapshot_pte_entry ::
  "'k kernel_scheme \<Rightarrow> mm_id \<Rightarrow> nat \<Rightarrow> u64 \<Rightarrow> u64 \<Rightarrow> walk_data \<times> 's mem_state_scheme
   \<Rightarrow> (int \<times> page_walk_action \<times> walk_data \<times> 's mem_state_scheme) option" where
  "snapshot_pte_entry K m d addr nxt x =
     (let (wd, s) = x in
      do { data \<leftarrow> td_heap s d;
           (act, wd') \<leftarrow> snapshot_walk_check_range d (config data) addr nxt wd s;
           if act = ACTION_CONTINUE then Some (0, ACTION_SUBTREE, wd', s)
           else let (r, data', s') = make_snapshot_page K m addr data s
                in Some (r, ACTION_SUBTREE, wd', put_td d data' s') })"

fun snapshot_walk_ops ::
  "'k kernel_scheme \<Rightarrow> mm_id \<Rightarrow> nat \<Rightarrow> walk_call \<Rightarrow> walk_data \<times> 's mem_state_scheme
   \<Rightarrow> (int \<times> page_walk_action \<times> walk_data \<times> 's mem_state_scheme) option" where
  "snapshot_walk_ops K m d (Pgd_entry a n) x = snapshot_upper_entry d a n x"
| "snapshot_walk_ops K m d (P4d_entry a n) x = snapshot_upper_entry d a n x"
| "snapshot_walk_ops K m d (Pud_entry a n) x = snapshot_middle_entry d a n x"
| "snapshot_walk_ops K m d (Pmd_entry a n) x = snapshot_middle_entry d a n x"
| "snapshot_walk_ops K m d (Pte_entry a n) x = snapshot_pte_entry K m d a n x"

definition walk_page_vma ::
  "'k kernel_scheme \<Rightarrow> mm_id \<Rightarrow> nat \<Rightarrow> vm_area \<Rightarrow> walk_data \<times> 's mem_state_scheme
   \<Rightarrow> (int \<times> walk_data \<times> 's mem_state_scheme) option" where
  "walk_page_vma K m d v x =
     walk_loop (vma_walker K (mem (snd x)) m v) (snapshot_walk_ops K m d) [] x"

section \<open>Taking the snapshot\<close>

definition is_stack :: "mm_struct \<Rightarrow> vm_area \<Rightarrow> bool" where
  "is_stack mm v \<longleftrightarrow> vm_start v \<le> start_stack mm \<and> vm_end v \<ge> start_stack mm"

text \<open>The four reasons not to snapshot an area that the allow list does not touch.\<close>

definition skip_vma :: "mm_struct \<Rightarrow> u32 \<Rightarrow> vm_area \<Rightarrow> bool" where
  "skip_vma mm cfg v \<longleftrightarrow>
     vm_flags v AND VM_WRITE = 0 \<or> vm_flags v AND VM_SHARED \<noteq> 0 \<or>
     config_has cfg AFL_SNAPSHOT_BLOCK \<or> (config_has cfg AFL_SNAPSHOT_NOSTACK \<and> is_stack mm v)"

text \<open>One iteration of the loop over \<open>mm->mmap\<close>; a non-zero result leaves the loop.\<close>

definition take_vma ::
  "'k kernel_scheme \<Rightarrow> mm_id \<Rightarrow> nat \<Rightarrow> vm_area \<Rightarrow> walk_data \<times> 's mem_state_scheme
   \<Rightarrow> (int \<times> walk_data \<times> 's mem_state_scheme) option" where
  "take_vma K m d v x =
     (let (wd, s) = x in
      do { data \<leftarrow> td_heap s d;
           let (sv, data1, s1) = add_snapshot_vma K v data s;
           let s2 = put_td d data1 s1;
           (case sv of
              None \<Rightarrow> Some (- ENOMEM, wd, s2)
            | Some sv \<Rightarrow>
                do { allowed \<leftarrow> intersect_allowlist d (vm_start v) (vm_end v) s2;
                     if allowed = None \<and> skip_vma (mms (mem s2) m) (config data1) v
                     then Some (0, wd, s2)
                     else
                       let data2 = upd_ss (\<lambda>y. y\<lparr>snapshotted_vmas := snapshotted_vmas y @ [sv]\<rparr>) data1
                       in walk_page_vma K m d v (wd, put_td d data2 s2) }) })"

definition take_memory_snapshot ::
  "'k kernel_scheme \<Rightarrow> nat \<Rightarrow> 's mem_state_scheme \<Rightarrow> (int \<times> 's mem_state_scheme) option" where
  "take_memory_snapshot K d s =
     do { data \<leftarrow> td_heap s d;
          let s1 = invalidate_task_data_cache K (tsk data) s;
          let m = task_mm (tasks s1 (current s1));
          (r, wd, s2) \<leftarrow> run_calls (take_vma K m d) (mm_mmap (mms (mem s1) m)) (init_walk_data, s1);
          Some (r, s2) }"

section \<open>What the page walker guarantees\<close>

text \<open>The history of a walk: every call is the one the walker asked for.\<close>

definition walk_run :: "(walk_history \<Rightarrow> walk_call option) \<Rightarrow> walk_history \<Rightarrow> bool" where
  "walk_run w h \<longleftrightarrow> (\<forall>i < length h. w (take i h) = Some (fst (h ! i)))"

definition area_ok :: "vm_area \<Rightarrow> bool" where
  "area_ok v \<longleftrightarrow> page_aligned (vm_start v) \<and> page_aligned (vm_end v) \<and> vm_start v < vm_end v"

text \<open>
  A walk over an area visits ascending addresses inside it, calls \<open>pte_entry\<close> for whole
  pages, ends, and reaches every present page that no callback asked to skip.
\<close>

definition walks_area :: "'k kernel_scheme \<Rightarrow> mem \<Rightarrow> mm_id \<Rightarrow> vm_area \<Rightarrow> bool" where
  "walks_area K M m v \<longleftrightarrow>
     (\<exists>N. \<forall>h. walk_run (vma_walker K M m v) h \<longrightarrow> length h \<le> N) \<and>
     (\<forall>h. walk_run (vma_walker K M m v) h \<longrightarrow>
        ascending (map fst h) \<and>
        (\<forall>c \<in> set (map fst h). vm_start v \<le> walk_addr c \<and> walk_addr c < vm_end v) \<and>
        (\<forall>a n. Pte_entry a n \<in> set (map fst h) \<longrightarrow> page_aligned a \<and> n = a + PAGE_SIZE) \<and>
        (vma_walker K M m v h = None \<longrightarrow>
           (\<forall>b. pte_present (pte_of M m b) \<longrightarrow> vm_start v \<le> b \<longrightarrow> b < vm_end v \<longrightarrow>
              (\<exists>n. Pte_entry b n \<in> set (map fst h)) \<or>
              (\<exists>c. (c, ACTION_CONTINUE) \<in> set h \<and> walk_addr c \<le> b \<and> b < walk_next c))))"

definition vma_walker_law :: "'k kernel_scheme \<Rightarrow> bool" where
  "vma_walker_law K \<longleftrightarrow> (\<forall>M m v. mem_wf M \<longrightarrow> area_ok v \<longrightarrow> walks_area K M m v)"

text \<open>Induction over the calls of a walk whose callback never fails.\<close>

lemma walk_loop_rule:
  assumes "walk_run w h" and "P h x" and "\<And>h. walk_run w h \<Longrightarrow> length h \<le> N"
    and step: "\<And>h c x. walk_run w h \<Longrightarrow> w h = Some c \<Longrightarrow> P h x \<Longrightarrow>
           \<exists>act x'. ops c x = Some (0, act, x') \<and> P (h @ [(c, act)]) x'"
  shows "\<exists>x' h'. walk_loop w ops h x = Some (0, x') \<and> walk_run w h' \<and> w h' = None \<and> P h' x'"
  using assms(1,2)
proof (induction "N - length h" arbitrary: h x rule: less_induct)
  case less
  show ?case
  proof (cases "w h")
    case None
    with less.prems show ?thesis by (intro exI [of _ x] exI [of _ h]) (simp add: walk_loop_end)
  next
    case (Some c)
    from step [OF less.prems(1) Some less.prems(2)] obtain act x' where
      c: "ops c x = Some (0, act, x')" and P': "P (h @ [(c, act)]) x'" by blast
    have run': "walk_run w (h @ [(c, act)])"
      using less.prems(1) Some by (auto simp: walk_run_def nth_append less_Suc_eq)
    then have "Suc (length h) \<le> N" using assms(3) [of "h @ [(c, act)]"] by simp
    then have "N - length (h @ [(c, act)]) < N - length h" by simp
    from less.hyps [OF this run' P'] show ?thesis
      using c by (simp add: walk_loop_step [of w h c, OF Some])
  qed
qed

section \<open>Write-protecting pages\<close>

text \<open>\<open>wrprotected m M M'\<close>: \<open>M'\<close> is \<open>M\<close> with some pages of \<open>m\<close> write-protected.\<close>

definition wrprotected :: "mm_id \<Rightarrow> mem \<Rightarrow> mem \<Rightarrow> bool" where
  "wrprotected m M M' \<longleftrightarrow>
     (\<forall>n b. pte_of M' n b = pte_of M n b \<or> n = m \<and> pte_of M' n b = pte_wrprotect (pte_of M n b)) \<and>
     frames M' = frames M \<and> frame_anon M' = frame_anon M \<and> frame_top M' = frame_top M \<and>
     (\<forall>n. mms M' n = (mms M n)\<lparr>ptes := ptes (mms M' n)\<rparr>)"

lemma wrprotected_refl [simp]: "wrprotected m M M"
  by (simp add: wrprotected_def)

lemma pte_wrprotect_idem [simp]: "pte_wrprotect (pte_wrprotect p) = pte_wrprotect p"
  by (simp add: pte_wrprotect_def)

lemma wrprotected_step:
  assumes w: "wrprotected m M M'"
  shows "wrprotected m M (ptep_set_wrprotect m a M')"
proof -
  let ?M = "ptep_set_wrprotect m a M'"
  have t: "mms M' n = (mms M n)\<lparr>ptes := ptes (mms M' n)\<rparr>" for n
    using w by (simp add: wrprotected_def)
  have "(mms M' m)\<lparr>ptes := q\<rparr> = (mms M m)\<lparr>ptes := q\<rparr>" for q
    by (subst t) simp
  then have "mms ?M n = (mms M n)\<lparr>ptes := ptes (mms ?M n)\<rparr>" for n
    using t by (simp add: ptep_set_wrprotect_def set_pte_def)
  moreover have "pte_of ?M n b = pte_of M n b \<or> n = m \<and> pte_of ?M n b = pte_wrprotect (pte_of M n b)" for n b
    using w unfolding wrprotected_def by (cases "n = m \<and> b = a") (metis wrprotect_simps(1) pte_wrprotect_idem)+
  ultimately show ?thesis
    using w by (simp add: wrprotected_def ptep_set_wrprotect_def set_pte_def)
qed

lemma wrprotected_pte:
  assumes "wrprotected m M M'"
  shows "pte_present (pte_of M' n b) = pte_present (pte_of M n b)"
    and "pte_pfn (pte_of M' n b) = pte_pfn (pte_of M n b)"
    and "pte_rw (pte_of M' n b) \<Longrightarrow> pte_rw (pte_of M n b)"
    and "n \<noteq> m \<Longrightarrow> pte_of M' n b = pte_of M n b"
proof -
  have "pte_of M' n b = pte_of M n b \<or> n = m \<and> pte_of M' n b = pte_wrprotect (pte_of M n b)"
    using assms by (simp add: wrprotected_def)
  then show "pte_present (pte_of M' n b) = pte_present (pte_of M n b)"
    "pte_pfn (pte_of M' n b) = pte_pfn (pte_of M n b)"
    "pte_rw (pte_of M' n b) \<Longrightarrow> pte_rw (pte_of M n b)"
    "n \<noteq> m \<Longrightarrow> pte_of M' n b = pte_of M n b"
    by auto
qed

lemma wrprotected_same:
  assumes "wrprotected m M M'"
  shows "content M' n b = content M n b" and "anon_page M' n b = anon_page M n b"
    and "exclusive M' n b = exclusive M n b"
    and "mm_owner (mms M' n) = mm_owner (mms M n)" and "mm_mmap (mms M' n) = mm_mmap (mms M n)"
    and "start_stack (mms M' n) = start_stack (mms M n)" and "mm_brk (mms M' n) = mm_brk (mms M n)"
proof -
  show "content M' n b = content M n b" "anon_page M' n b = anon_page M n b"
    unfolding content_def anon_page_def wrprotected_pte(2) [OF assms]
    using assms by (simp_all add: wrprotected_def)
  show "exclusive M' n b = exclusive M n b"
    using wrprotected_pte(1,2) [OF assms] by (rule exclusive_same_pfns)
  have t: "mms M' n = (mms M n)\<lparr>ptes := ptes (mms M' n)\<rparr>" using assms by (simp add: wrprotected_def)
  show "mm_owner (mms M' n) = mm_owner (mms M n)" "mm_mmap (mms M' n) = mm_mmap (mms M n)"
    "start_stack (mms M' n) = start_stack (mms M n)" "mm_brk (mms M' n) = mm_brk (mms M n)"
    by (subst t, simp)+
qed

lemma wrprotected_wf: "wrprotected m M M' \<Longrightarrow> mem_wf M \<Longrightarrow> mem_wf M'"
proof -
  assume w: "wrprotected m M M'" and wf: "mem_wf M"
  have t: "mms M' n = (mms M n)\<lparr>ptes := ptes (mms M' n)\<rparr>" for n
    using w by (simp add: wrprotected_def)
  have "pgds (mms M' n) = pgds (mms M n)" "p4ds (mms M' n) = p4ds (mms M n)"
    "puds (mms M' n) = puds (mms M n)" "pmds (mms M' n) = pmds (mms M n)" for n
    by (subst t, simp)+
  moreover have "frame_top M' = frame_top M" using w by (simp add: wrprotected_def)
  ultimately show "mem_wf M'"
    using wf wrprotected_pte(3) [OF w]
    unfolding mem_wf_def wrprotected_pte(1,2) [OF w] wrprotected_same [OF w] by metis
qed

text \<open>Other processes do not notice.\<close>

lemma wrprotected_other:
  assumes "wrprotected m M M'" and "n \<noteq> m" and "page_inv K n orig U data M"
  shows "page_inv K n orig U data M'"
  using assms(3)
proof (rule page_inv_mem)
  fix b assume "page_ok_at K n orig U data M b"
  then show "page_ok_at K n orig U data M' b"
    by (rule page_ok_cong [rotated -1])
      (simp_all add: wrprotected_pte(4) [OF assms(1,2)] wrprotected_same [OF assms(1)])
qed

section \<open>Making one snapshot page\<close>

text \<open>The bytes the snapshot promises, read off the page table being built.\<close>

definition orig_of :: "'k kernel_scheme \<Rightarrow> mm_id \<Rightarrow> mem \<Rightarrow> task_data \<Rightarrow> u64 \<Rightarrow> page option" where
  "orig_of K m M data b =
     (case get_snapshot_page K b data of
        None \<Rightarrow> None
      | Some sp \<Rightarrow> if is_snapshot_page_none_pte sp then None else Some (content M m b))"

text \<open>
  The data of a snapshot in the making: its pages satisfy the invariant, nothing is dirty,
  and exactly the pages without an entry are marked so.
\<close>

definition pages_made :: "'k kernel_scheme \<Rightarrow> mm_id \<Rightarrow> mem \<Rightarrow> task_data \<Rightarrow> mem \<Rightarrow> bool" where
  "pages_made K m M0 data M \<longleftrightarrow>
     page_inv K m (orig_of K m M0 data) {} data M \<and> dirty_pages (ss data) = [] \<and>
     (\<forall>b sp. get_snapshot_page K b data = Some sp \<longrightarrow>
        is_snapshot_page_none_pte sp = (\<not> pte_present (pte_of M0 m b)))"

definition no_swap :: "mem \<Rightarrow> bool" where
  "no_swap M \<longleftrightarrow> (\<forall>m b. pte_present (pte_of M m b) \<or> pte_none (pte_of M m b))"

text \<open>The entry \<open>make_snapshot_page\<close> leaves for a page.\<close>

definition made_page :: "pte \<Rightarrow> snapshot_page \<Rightarrow> snapshot_page" where
  "made_page pte sp =
     (if pte_none pte then set_snapshot_page_none_pte (sp\<lparr>has_had_pte := False\<rparr>)
      else if pte_rw pte then set_snapshot_page_private (sp\<lparr>has_had_pte := True\<rparr>)
      else set_snapshot_page_cow (sp\<lparr>has_had_pte := True\<rparr>))"

lemma add_snapshot_page_reset:
  assumes ok: "pages_ok K data" and oom: "no_oom K"
  obtains data1 sp n where
    "add_snapshot_page K b True data s = (Some b, data1, s\<lparr>alloc_next := n\<rparr>)"
    and "alloc_next s \<le> n" and "pages_ok K data1"
    and "\<And>k. get_snapshot_page K k data1 = (if k = b then Some (reset_page sp) else get_snapshot_page K k data)"
    and "same_but_pages data data1" and "dirty_pages (ss data1) = dirty_pages (ss data)"
proof (cases "get_snapshot_page K b data")
  case None
  have "kmalloc_ok K (alloc_next s)" using oom by (simp add: no_oom_def)
  from add_snapshot_page_new [OF ok None this] obtain data1 sp where
    "add_snapshot_page K b True data s = (Some b, data1, s\<lparr>alloc_next := Suc (alloc_next s)\<rparr>)"
    "pages_ok K data1" "page_base sp = b" "page_data sp = None"
    "\<And>k. get_snapshot_page K k data1 = (if k = b then Some (reset_page sp) else get_snapshot_page K k data)"
    "same_but_pages data data1" "dirty_pages (ss data1) = dirty_pages (ss data)" by metis
  then show ?thesis using that [of data1 "Suc (alloc_next s)" sp] by simp
next
  case (Some sp)
  let ?data1 = "upd_snapshot_page K b reset_page data"
  have "add_snapshot_page K b True data s = (Some b, ?data1, s\<lparr>alloc_next := alloc_next s\<rparr>)"
    using add_snapshot_page_reuse [OF ok Some] by simp
  then show ?thesis
    using that [of ?data1 "alloc_next s" sp] ok Some by (simp add: page_simps)
qed

lemma make_snapshot_page_eq:
  assumes ok: "pages_ok K data" and oom: "no_oom K"
  obtains data' sp n fl where
    "make_snapshot_page K m b data s = (0, data', s\<lparr>alloc_next := n,
       mem := (if pte_rw (pte_of (mem s) m b) then ptep_set_wrprotect m b (mem s) else mem s), tlb_flushes := fl\<rparr>)"
    and "alloc_next s \<le> n" and "pages_ok K data'"
    and "\<And>k. get_snapshot_page K k data' =
           (if k = b then Some (made_page (pte_of (mem s) m b) (reset_page sp)) else get_snapshot_page K k data)"
    and "same_but_pages data data'" and "dirty_pages (ss data') = dirty_pages (ss data)"
proof -
  obtain data1 sp n where
    add: "add_snapshot_page K b True data s = (Some b, data1, s\<lparr>alloc_next := n\<rparr>)"
    and n: "alloc_next s \<le> n" and ok1: "pages_ok K data1"
    and get1: "\<And>k. get_snapshot_page K k data1 = (if k = b then Some (reset_page sp) else get_snapshot_page K k data)"
    and same1: "same_but_pages data data1" and list1: "dirty_pages (ss data1) = dirty_pages (ss data)"
    by (rule add_snapshot_page_reset [OF ok oom, of b s]) blast
  let ?pte = "pte_of (mem s) m b"
  have rw: "\<not> pte_rw ?pte" if "pte_none ?pte" using that by (simp add: pte_none_def)
  let ?data2 = "upd_snapshot_page K b (\<lambda>p. p\<lparr>has_had_pte := True\<rparr>) data1"
  have ok2: "pages_ok K ?data2" using ok1 by (simp add: page_simps)
  consider (none) "pte_none ?pte" | (rw) "\<not> pte_none ?pte" "pte_rw ?pte"
    | (ro) "\<not> pte_none ?pte" "\<not> pte_rw ?pte" by blast
  then show ?thesis
  proof cases
    case none
    let ?f = "\<lambda>p. set_snapshot_page_none_pte (p\<lparr>has_had_pte := False\<rparr>)"
    have "make_snapshot_page K m b data s =
        (0, upd_snapshot_page K b ?f data1, s\<lparr>alloc_next := n, mem := mem s, tlb_flushes := tlb_flushes s\<rparr>)"
      using none by (simp add: make_snapshot_page_def add Let_def)
    then show ?thesis
      using that [of "upd_snapshot_page K b ?f data1" "tlb_flushes s" n sp] none rw n ok1 get1 same1 list1
      by (simp add: page_simps made_page_def)
  next
    case rw
    let ?data3 = "upd_snapshot_page K b set_snapshot_page_private ?data2"
    let ?fl = "tlb_flushes s @ [(m, b AND PAGE_MASK, (b AND PAGE_MASK) + PAGE_SIZE)]"
    have "make_snapshot_page K m b data s =
        (0, ?data3, s\<lparr>alloc_next := n, mem := ptep_set_wrprotect m b (mem s), tlb_flushes := ?fl\<rparr>)"
      using rw by (simp add: make_snapshot_page_def add Let_def flush_tlb_def)
    then show ?thesis
      using that [of ?data3 ?fl n sp] rw n ok1 ok2 get1 same1 list1
      by (simp add: page_simps made_page_def)
  next
    case ro
    let ?data3 = "upd_snapshot_page K b set_snapshot_page_cow ?data2"
    have "make_snapshot_page K m b data s =
        (0, ?data3, s\<lparr>alloc_next := n, mem := mem s, tlb_flushes := tlb_flushes s\<rparr>)"
      using ro by (simp add: make_snapshot_page_def add Let_def)
    then show ?thesis
      using that [of ?data3 "tlb_flushes s" n sp] ro n ok1 ok2 get1 same1 list1
      by (simp add: page_simps made_page_def)
  qed
qed

lemma reset_made_page:
  "\<not> dirty (made_page pte (reset_page sp))" "\<not> has_been_copied (made_page pte (reset_page sp))"
  "\<not> in_dirty_list (made_page pte (reset_page sp))"
  "is_snapshot_page_none_pte (made_page pte (reset_page sp)) = pte_none pte"
  "is_snapshot_page_private (made_page pte (reset_page sp)) = (\<not> pte_none pte \<and> pte_rw pte)"
  by (simp_all add: made_page_def)

lemma make_snapshot_page_made:
  assumes made: "pages_made K m M0 data M" and w: "wrprotected m M0 M" and swap: "no_swap M0"
    and wf: "mem_wf M0" and al: "page_aligned b" and oom: "no_oom K" and M: "mem s = M"
  obtains data' n fl M' where
    "make_snapshot_page K m b data s = (0, data', s\<lparr>alloc_next := n, mem := M', tlb_flushes := fl\<rparr>)"
    and "alloc_next s \<le> n" and "pages_made K m M0 data' M'" and "wrprotected m M0 M'"
    and "same_but_pages data data'"
    and "\<And>k. get_snapshot_page K k data' \<noteq> None \<longleftrightarrow> k = b \<or> get_snapshot_page K k data \<noteq> None"
proof -
  have inv: "page_inv K m (orig_of K m M0 data) {} data M" and clean: "dirty_pages (ss data) = []"
    and none: "\<And>b sp. get_snapshot_page K b data = Some sp \<Longrightarrow>
        is_snapshot_page_none_pte sp = (\<not> pte_present (pte_of M0 m b))"
    using made by (simp_all add: pages_made_def)
  let ?M' = "if pte_rw (pte_of (mem s) m b) then ptep_set_wrprotect m b (mem s) else mem s"
  obtain data' sp n fl where
    run: "make_snapshot_page K m b data s = (0, data', s\<lparr>alloc_next := n, mem := ?M', tlb_flushes := fl\<rparr>)"
    and n: "alloc_next s \<le> n" and ok: "pages_ok K data'"
    and get: "\<And>k. get_snapshot_page K k data' =
           (if k = b then Some (made_page (pte_of (mem s) m b) (reset_page sp)) else get_snapshot_page K k data)"
    and same: "same_but_pages data data'" and list: "dirty_pages (ss data') = dirty_pages (ss data)"
    by (rule make_snapshot_page_eq [OF page_invD(1) [OF inv] oom, of m b s]) blast
  have w': "wrprotected m M0 ?M'"
    using w wrprotected_step [OF w, of b] by (simp add: M)
  have np: "pte_none (pte_of M m b) = (\<not> pte_present (pte_of M0 m b))"
  proof (cases "pte_present (pte_of M0 m b)")
    case True
    then show ?thesis using wrprotected_pte(1) [OF w, of m b] by auto
  next
    case False
    then have "pte_none (pte_of M0 m b)" using swap by (auto simp: no_swap_def)
    then have "pte_none (pte_of M m b)"
      using w unfolding wrprotected_def pte_none_def by (metis pte_wrprotect_def pte.update_convs(2))
    with False show ?thesis by simp
  qed
  have at: "page_ok K m (orig_of K m M0 data' b) False False (get_snapshot_page K b data') ?M' b"
  proof (cases "pte_present (pte_of M0 m b)")
    case True
    have rw: "exclusive M0 m b \<and> anon_page M0 m b" if "pte_rw (pte_of M m b)"
      using mem_wf_exclusive [OF wf True wrprotected_pte(3) [OF w that]] by simp
    have "pte_present (pte_of ?M' m b)" "content ?M' m b = content M0 m b"
      "\<not> pte_rw (pte_of ?M' m b)"
      using True wrprotected_pte(1) [OF w'] wrprotected_same(1) [OF w'] by (auto simp: M)
    then show ?thesis
      using True np al rw wrprotected_same(2,3) [OF w]
      by (simp add: page_ok_def get reset_made_page orig_of_def M)
  next
    case False
    then have "\<not> pte_present (pte_of ?M' m b)" using wrprotected_pte(1) [OF w'] by simp
    then show ?thesis
      using False np al by (simp add: page_ok_def get reset_made_page orig_of_def M untouched_def)
  qed
  have other: "page_ok K m (orig_of K m M0 data' k) False False (get_snapshot_page K k data') ?M' k"
    if "k \<noteq> b" for k
  proof -
    have "page_ok K m (orig_of K m M0 data k) False False (get_snapshot_page K k data) M k"
      using page_inv_at [OF inv, of k] clean by simp
    then have "page_ok K m (orig_of K m M0 data k) False False (get_snapshot_page K k data) ?M' k"
      by (rule page_ok_cong [rotated -1]) (use that in \<open>simp_all add: M\<close>)
    then show ?thesis using that by (simp add: orig_of_def get)
  qed
  have "page_ok K m (orig_of K m M0 data' k) False False (get_snapshot_page K k data') ?M' k" for k
    using at other [of k] by (cases "k = b") simp_all
  then have "page_inv K m (orig_of K m M0 data') {} data' ?M'"
    using ok clean list by (simp add: page_inv_def)
  then have "pages_made K m M0 data' ?M'"
    using clean list np none by (auto simp: pages_made_def get reset_made_page M split: if_splits)
  then show ?thesis
    using that [OF run n _ w' same] get by auto
qed

section \<open>Walking one area\<close>

text \<open>
  A state on the way: only the data of the snapshot, the entries of its pages, the
  allocator and the log of flushes have changed since \<open>s0\<close>. What is said about the contents of the
  snapshot needs a memory of private pages, without swap.
\<close>

definition taking ::
  "'k kernel_scheme \<Rightarrow> mm_id \<Rightarrow> nat \<Rightarrow> 's mem_state_scheme \<Rightarrow> 's mem_state_scheme \<Rightarrow> task_data \<Rightarrow> bool" where
  "taking K m d s0 s data \<longleftrightarrow>
     (\<exists>n fl M. s = s0\<lparr>td_heap := (td_heap s0)(d \<mapsto> data), alloc_next := n, mem := M, tlb_flushes := fl\<rparr> \<and>
        alloc_next s0 \<le> n \<and> wrprotected m (mem s0) M \<and> pages_ok K data \<and>
        (mem_wf (mem s0) \<and> no_swap (mem s0) \<longrightarrow> pages_made K m (mem s0) data M))"

lemma taking_make_page:
  assumes t: "taking K m d s0 s data" and al: "page_aligned b" and oom: "no_oom K"
  obtains data' s' where "make_snapshot_page K m b data s = (0, data', s')"
    and "taking K m d s0 (put_td d data' s') data'" and "same_but_pages data data'"
    and "\<And>k. get_snapshot_page K k data' \<noteq> None \<longleftrightarrow> k = b \<or> get_snapshot_page K k data \<noteq> None"
proof -
  obtain n fl M where s: "s = s0\<lparr>td_heap := (td_heap s0)(d \<mapsto> data), alloc_next := n, mem := M, tlb_flushes := fl\<rparr>"
    and n: "alloc_next s0 \<le> n" and w: "wrprotected m (mem s0) M" and ok: "pages_ok K data"
    and made: "mem_wf (mem s0) \<and> no_swap (mem s0) \<Longrightarrow> pages_made K m (mem s0) data M"
    using t by (auto simp: taking_def)
  have M: "mem s = M" by (simp add: s)
  let ?M' = "if pte_rw (pte_of (mem s) m b) then ptep_set_wrprotect m b (mem s) else mem s"
  obtain data' sp n' fl' where
    run: "make_snapshot_page K m b data s = (0, data', s\<lparr>alloc_next := n', mem := ?M', tlb_flushes := fl'\<rparr>)"
    and n': "alloc_next s \<le> n'" and ok': "pages_ok K data'"
    and get': "\<And>k. get_snapshot_page K k data' =
           (if k = b then Some (made_page (pte_of (mem s) m b) (reset_page sp)) else get_snapshot_page K k data)"
    and same: "same_but_pages data data'"
    by (rule make_snapshot_page_eq [OF ok oom, of m b s]) blast
  have w': "wrprotected m (mem s0) ?M'" using w wrprotected_step [OF w, of b] by (simp add: M)
  have get: "get_snapshot_page K k data' \<noteq> None \<longleftrightarrow> k = b \<or> get_snapshot_page K k data \<noteq> None" for k
    by (simp add: get')
  have made': "pages_made K m (mem s0) data' ?M'" if priv: "mem_wf (mem s0)" "no_swap (mem s0)"
  proof -
    obtain data2 n2 fl2 M2 where
      "make_snapshot_page K m b data s = (0, data2, s\<lparr>alloc_next := n2, mem := M2, tlb_flushes := fl2\<rparr>)"
      and "pages_made K m (mem s0) data2 M2"
      by (rule make_snapshot_page_made [OF made w priv(2,1) al oom M]) (use priv in auto)
    moreover from this(1) run have "data2 = data'" "M2 = ?M'" by (cases s, simp)+
    ultimately show ?thesis by simp
  qed
  have "put_td d data' (s\<lparr>alloc_next := n', mem := ?M', tlb_flushes := fl'\<rparr>) =
      s0\<lparr>td_heap := (td_heap s0)(d \<mapsto> data'), alloc_next := n', mem := ?M', tlb_flushes := fl'\<rparr>"
    by (simp add: put_td_def s)
  moreover have "alloc_next s0 \<le> n'" using n n' s by simp
  ultimately have "taking K m d s0 (put_td d data' (s\<lparr>alloc_next := n', mem := ?M', tlb_flushes := fl'\<rparr>)) data'"
    using made' w' ok' unfolding taking_def by blast
  with run same get show ?thesis using that by blast
qed

lemma taking_lists:
  assumes "taking K m d s0 s data" and "range_list s0 head rs"
  shows "range_list s head rs"
  using assms by (auto simp: taking_def intro: range_list_cong [rotated -1])

lemma taking_td: "taking K m d s0 s data \<Longrightarrow> td_heap s d = Some data"
  by (auto simp: taking_def)

text \<open>What the history of a walk says about the pages in the table.\<close>

definition walked_pages ::
  "'k kernel_scheme \<Rightarrow> u32 \<Rightarrow> vmrange list \<Rightarrow> vmrange list \<Rightarrow> walk_history \<Rightarrow> task_data \<Rightarrow> task_data \<Rightarrow> bool" where
  "walked_pages K cfg al bl h data0 data \<longleftrightarrow>
     (\<forall>b. get_snapshot_page K b data \<noteq> None \<longleftrightarrow>
        get_snapshot_page K b data0 \<noteq> None \<or>
        (\<exists>n. Pte_entry b n \<in> set (map fst h)) \<and> want_page cfg al bl b) \<and>
     (\<forall>c b. (c, ACTION_CONTINUE) \<in> set h \<longrightarrow> walk_addr c \<le> b \<longrightarrow> b < walk_next c \<longrightarrow>
        \<not> want_page cfg al bl b)"

lemma walked_pages_other:
  assumes "walked_pages K cfg al bl h data0 data" and "\<And>a n. c \<noteq> Pte_entry a n"
    and "act = ACTION_CONTINUE \<longrightarrow> (\<forall>p. walk_addr c \<le> p \<longrightarrow> p < walk_next c \<longrightarrow> \<not> want_page cfg al bl p)"
  shows "walked_pages K cfg al bl (h @ [(c, act)]) data0 data"
proof -
  have "Pte_entry b n \<noteq> c" for b n using assms(2) by metis
  then show ?thesis
    using assms(1,3) by (auto simp: walked_pages_def)
qed

lemma walked_pages_pte:
  assumes "walked_pages K cfg al bl h data0 data" and "act = ACTION_SUBTREE"
    and "\<And>k. get_snapshot_page K k data' \<noteq> None \<longleftrightarrow> k = a \<and> want_page cfg al bl a \<or> get_snapshot_page K k data \<noteq> None"
  shows "walked_pages K cfg al bl (h @ [(Pte_entry a n, act)]) data0 data'"
  using assms unfolding walked_pages_def by auto

text \<open>One callback of the walk.\<close>

lemma walk_op_step:
  assumes t: "taking K m d s0 s data" and oom: "no_oom K"
    and lists: "range_list s0 (Allowlist d) al" "range_list s0 (Blocklist d) bl"
    and al: "ranges_aligned al" and bl: "ranges_aligned bl" and dis: "ranges_disjoint al bl"
    and wd: "walk_data_ok (config data) al bl lo wd" and lo: "lo \<le> walk_addr c" "walk_addr c < walk_next c"
    and pte: "\<And>a n. c = Pte_entry a n \<Longrightarrow> page_aligned a \<and> n = a + PAGE_SIZE"
    and walked: "walked_pages K (config data) al bl h data0 data" and same0: "same_but_pages data0 data"
  shows "\<exists>act wd' s' data'. snapshot_walk_ops K m d c (wd, s) = Some (0, act, wd', s') \<and>
     taking K m d s0 s' data' \<and> walk_data_ok (config data) al bl (walk_addr c) wd' \<and>
     walked_pages K (config data) al bl (h @ [(c, act)]) data0 data' \<and> same_but_pages data0 data'"
proof -
  let ?cfg = "config data"
  obtain act wd' where check: "snapshot_walk_check_range d ?cfg (walk_addr c) (walk_next c) wd s = Some (act, wd')"
    and dec: "decision_ok ?cfg al bl (walk_addr c) (walk_next c) act"
    and wd': "walk_data_ok ?cfg al bl (walk_addr c) wd'"
    by (rule check_range_ok [OF taking_lists [OF t lists(1)] taking_lists [OF t lists(2)] al bl dis wd lo])
  have td: "td_heap s d = Some data" using t by (rule taking_td)
  have skip: "act = ACTION_CONTINUE \<longrightarrow> (\<forall>p. walk_addr c \<le> p \<longrightarrow> p < walk_next c \<longrightarrow> \<not> want_page ?cfg al bl p)"
    using dec by (simp add: decision_ok_def)
  show ?thesis
  proof (cases "\<exists>a n. c = Pte_entry a n")
    case False
    then have ne: "\<And>a n. c \<noteq> Pte_entry a n" by blast
    obtain act' where "snapshot_walk_ops K m d c (wd, s) = Some (0, act', wd', s)"
      and "act' = ACTION_CONTINUE \<longrightarrow> act = ACTION_CONTINUE"
      using ne check td
      by (cases c) (auto simp: snapshot_upper_entry_def snapshot_middle_entry_def)
    moreover have "walked_pages K ?cfg al bl (h @ [(c, act')]) data0 data"
      using walked ne by (rule walked_pages_other) (use calculation(2) skip in blast)
    ultimately show ?thesis using t wd' same0 by blast
  next
    case True
    then obtain a n where c: "c = Pte_entry a n" by blast
    with pte have a: "page_aligned a" "n = a + 4096" by (auto simp: PAGE_SIZE_def)
    show ?thesis
    proof (cases "act = ACTION_CONTINUE")
      case cont: True
      have "\<not> want_page ?cfg al bl a" using skip cont lo(2) c by auto
      then have "walked_pages K ?cfg al bl (h @ [(c, ACTION_SUBTREE)]) data0 data"
        unfolding c using walked by (intro walked_pages_pte) auto
      moreover have "snapshot_walk_ops K m d c (wd, s) = Some (0, ACTION_SUBTREE, wd', s)"
        using check td cont by (simp add: c snapshot_pte_entry_def)
      ultimately show ?thesis using t wd' same0 by blast
    next
      case False
      have want: "want_page ?cfg al bl a" using dec False a c by (simp add: decision_ok_def)
      obtain data' s' where make: "make_snapshot_page K m a data s = (0, data', s')"
        and t': "taking K m d s0 (put_td d data' s') data'" and same: "same_but_pages data data'"
        and get: "\<And>k. get_snapshot_page K k data' \<noteq> None \<longleftrightarrow> k = a \<or> get_snapshot_page K k data \<noteq> None"
        by (rule taking_make_page [OF t a(1) oom]) blast
      have "walked_pages K ?cfg al bl (h @ [(c, ACTION_SUBTREE)]) data0 data'"
        unfolding c using walked get want by (intro walked_pages_pte) auto
      moreover have "snapshot_walk_ops K m d c (wd, s) = Some (0, ACTION_SUBTREE, wd', put_td d data' s')"
        using check td make False by (simp add: c snapshot_pte_entry_def)
      ultimately show ?thesis
        using t' wd' same_but_pages_trans [OF same0 same] by blast
    qed
  qed
qed

text \<open>A walk over one area tracks exactly the wanted pages among the present ones.\<close>

lemma walk_page_vma_ok:
  assumes t: "taking K m d s0 s data0" and oom: "no_oom K" and area: "area_ok v"
    and law: "\<And>M v. wrprotected m (mem s0) M \<Longrightarrow> area_ok v \<Longrightarrow> walks_area K M m v"
    and lists: "range_list s0 (Allowlist d) al" "range_list s0 (Blocklist d) bl"
    and al: "ranges_aligned al" and bl: "ranges_aligned bl" and dis: "ranges_disjoint al bl"
    and wd: "walk_data_ok (config data0) al bl (vm_start v) wd"
  shows "\<exists>wd' s' data'. walk_page_vma K m d v (wd, s) = Some (0, wd', s') \<and>
     taking K m d s0 s' data' \<and> walk_data_ok (config data0) al bl (vm_end v) wd' \<and>
     same_but_pages data0 data' \<and>
     (\<forall>b. get_snapshot_page K b data0 \<noteq> None \<longrightarrow> get_snapshot_page K b data' \<noteq> None) \<and>
     (\<forall>b. get_snapshot_page K b data' \<noteq> None \<longrightarrow> get_snapshot_page K b data0 \<noteq> None \<or>
        (vm_start v \<le> b \<and> b < vm_end v \<and> want_page (config data0) al bl b)) \<and>
     (\<forall>b. pte_present (pte_of (mem s0) m b) \<longrightarrow> vm_start v \<le> b \<longrightarrow> b < vm_end v \<longrightarrow>
        want_page (config data0) al bl b \<longrightarrow> get_snapshot_page K b data' \<noteq> None)"
proof -
  let ?cfg = "config data0" and ?w = "vma_walker K (mem s) m v"
  obtain M where M: "mem s = M" "wrprotected m (mem s0) M" using t by (auto simp: taking_def)
  have walks: "walks_area K (mem s) m v" using M law area by simp
  then obtain N where N: "\<And>h. walk_run ?w h \<Longrightarrow> length h \<le> N" unfolding walks_area_def by blast
  have asc: "ascending (map fst h)" and inside: "\<And>c. c \<in> set (map fst h) \<Longrightarrow> vm_start v \<le> walk_addr c \<and> walk_addr c < vm_end v"
    and ptes: "\<And>a n. Pte_entry a n \<in> set (map fst h) \<Longrightarrow> page_aligned a \<and> n = a + PAGE_SIZE"
    and full: "\<And>b. ?w h = None \<Longrightarrow> pte_present (pte_of (mem s) m b) \<Longrightarrow> vm_start v \<le> b \<Longrightarrow> b < vm_end v \<Longrightarrow>
        (\<exists>n. Pte_entry b n \<in> set (map fst h)) \<or> (\<exists>c. (c, ACTION_CONTINUE) \<in> set h \<and> walk_addr c \<le> b \<and> b < walk_next c)"
    if "walk_run ?w h" for h
    using walks that unfolding walks_area_def by blast+
  define P where "P = (\<lambda>h (x :: walk_data \<times> 'b mem_state_scheme). \<exists>data. taking K m d s0 (snd x) data \<and>
     walk_data_ok ?cfg al bl (if h = [] then vm_start v else walk_addr (fst (last h))) (fst x) \<and>
     walked_pages K ?cfg al bl h data0 data \<and> same_but_pages data0 data)"
  have "\<exists>x' h'. walk_loop ?w (snapshot_walk_ops K m d) [] (wd, s) = Some (0, x') \<and>
      walk_run ?w h' \<and> ?w h' = None \<and> P h' x'"
  proof (rule walk_loop_rule [where P = P and N = N])
    show "walk_run ?w []" by (simp add: walk_run_def)
    show "P [] (wd, s)" using t wd by (auto simp: P_def walked_pages_def)
    show "\<And>h. walk_run ?w h \<Longrightarrow> length h \<le> N" by (rule N)
  next
    fix h c and x :: "walk_data \<times> 'b mem_state_scheme"
    assume run: "walk_run ?w h" and c: "?w h = Some c" and P: "P h x"
    obtain wd1 s1 where x: "x = (wd1, s1)" by (cases x)
    obtain data where t1: "taking K m d s0 s1 data"
      and wd1: "walk_data_ok ?cfg al bl (if h = [] then vm_start v else walk_addr (fst (last h))) wd1"
      and walked: "walked_pages K ?cfg al bl h data0 data" and same: "same_but_pages data0 data"
      using P by (auto simp: P_def x)
    have run': "walk_run ?w (h @ [(c, act)])" for act
      using run c by (auto simp: walk_run_def nth_append less_Suc_eq)
    have lo: "(if h = [] then vm_start v else walk_addr (fst (last h))) \<le> walk_addr c" "walk_addr c < walk_next c"
      using asc [OF run', of ACTION_SUBTREE] inside [OF run', of c ACTION_SUBTREE] last_in_set [of h]
      by (auto simp: ascending_def sorted_append)
    have pte: "page_aligned a \<and> n = a + PAGE_SIZE" if "c = Pte_entry a n" for a n
      using ptes [OF run', of a n ACTION_SUBTREE] that by simp
    have cfg: "config data = ?cfg" using same by (simp add: same_but_pages_def)
    have "\<exists>act wd' s' data'. snapshot_walk_ops K m d c (wd1, s1) = Some (0, act, wd', s') \<and>
       taking K m d s0 s' data' \<and> walk_data_ok ?cfg al bl (walk_addr c) wd' \<and>
       walked_pages K ?cfg al bl (h @ [(c, act)]) data0 data' \<and> same_but_pages data0 data'"
      using walk_op_step [OF t1 oom lists al bl dis _ lo pte _ same, of wd1 h] wd1 walked
      by (simp add: cfg)
    then show "\<exists>act x'. snapshot_walk_ops K m d c x = Some (0, act, x') \<and> P (h @ [(c, act)]) x'"
      unfolding x P_def by fastforce
  qed
  then obtain wd' s' h where run: "walk_page_vma K m d v (wd, s) = Some (0, wd', s')"
    and h: "walk_run ?w h" "?w h = None" and P: "P h (wd', s')"
    by (auto simp: walk_page_vma_def)
  obtain data' where t': "taking K m d s0 s' data'"
    and wd': "walk_data_ok ?cfg al bl (if h = [] then vm_start v else walk_addr (fst (last h))) wd'"
    and walked: "walked_pages K ?cfg al bl h data0 data'" and same: "same_but_pages data0 data'"
    using P by (auto simp: P_def)
  have "(if h = [] then vm_start v else walk_addr (fst (last h))) \<le> vm_end v"
    using area inside [OF h(1), of "fst (last h)"] last_in_set [of h] by (auto simp: area_ok_def)
  with wd' have "walk_data_ok ?cfg al bl (vm_end v) wd'" by (rule walk_data_ok_mono)
  moreover have "get_snapshot_page K b data' \<noteq> None"
    if b: "pte_present (pte_of (mem s0) m b)" "vm_start v \<le> b" "b < vm_end v" "want_page ?cfg al bl b" for b
  proof -
    have "pte_present (pte_of (mem s) m b)" using b(1) M wrprotected_pte(1) by simp
    from full [OF h this b(2,3)] walked b(4) show ?thesis by (auto simp: walked_pages_def)
  qed
  moreover have "get_snapshot_page K b data0 \<noteq> None \<or> (vm_start v \<le> b \<and> b < vm_end v \<and> want_page ?cfg al bl b)"
    if "get_snapshot_page K b data' \<noteq> None" for b
  proof -
    have "get_snapshot_page K b data0 \<noteq> None \<or>
        (\<exists>n. Pte_entry b n \<in> set (map fst h)) \<and> want_page ?cfg al bl b"
      using walked that by (simp add: walked_pages_def)
    moreover have "vm_start v \<le> b \<and> b < vm_end v" if "Pte_entry b n \<in> set (map fst h)" for n
      using inside [OF h(1) that] by simp
    ultimately show ?thesis by blast
  qed
  moreover have "get_snapshot_page K b data' \<noteq> None" if "get_snapshot_page K b data0 \<noteq> None" for b
    using walked that by (simp add: walked_pages_def)
  ultimately show ?thesis
    using run t' same by (intro exI [of _ wd'] exI [of _ s'] exI [of _ data']) simp
qed

section \<open>The loop over the areas\<close>

definition areas_ok :: "vm_area list \<Rightarrow> bool" where
  "areas_ok vs \<longleftrightarrow> list_all area_ok vs \<and> sorted_wrt (\<lambda>v w. vm_end v \<le> vm_start w) vs"

text \<open>The areas that are snapshotted: those the allow list touches, and the writable private
  ones that no option excludes.\<close>

definition selected :: "mm_struct \<Rightarrow> u32 \<Rightarrow> vmrange list \<Rightarrow> vm_area \<Rightarrow> bool" where
  "selected mm cfg al v \<longleftrightarrow> list_ex (overlaps (vm_start v) (vm_end v)) al \<or> \<not> skip_vma mm cfg v"

text \<open>
  What is remembered of an area: its bounds, whether it is private anonymous memory, and whether
  it would be writable if it were mapped again. The last is always true, because the code tests
  a disjunction.
\<close>

type_synonym saved_area = "u64 \<times> u64 \<times> bool \<times> bool"

definition area_view :: "vm_area \<Rightarrow> saved_area" where
  "area_view v = (vm_start v, vm_end v, vma_is_anonymous v \<and> vm_flags v AND VM_SHARED = 0, True)"

definition sv_view :: "snapshot_vma \<Rightarrow> saved_area" where
  "sv_view sv = (sv_start sv, sv_end sv, is_anonymous_private sv, sv_prot sv AND PROT_WRITE \<noteq> 0)"

lemma snapshot_prot_writable: "snapshot_prot garbage flags AND PROT_WRITE \<noteq> 0"
proof -
  have "bit (flags OR VM_WRITE) 1" by (simp add: VM_WRITE_def bit_simps)
  then have "flags OR VM_WRITE \<noteq> 0" by (metis bit_0_eq bot_apply bot_bool_def)
  then have "bit (snapshot_prot garbage flags) 1" 
    by (simp add: snapshot_prot_def Let_def prot_defs bit_simps)
  then have "bit (snapshot_prot garbage flags AND PROT_WRITE) 1" by (simp add: PROT_WRITE_def bit_simps)
  then show ?thesis by auto
qed

definition same_core :: "task_data \<Rightarrow> task_data \<Rightarrow> bool" where
  "same_core data data' \<longleftrightarrow>
     tsk data' = tsk data \<and> config data' = config data \<and> status (ss data') = status (ss data) \<and>
     oldbrk (ss data') = oldbrk (ss data) \<and> ss_regs (ss data') = ss_regs (ss data) \<and>
     ss_files (ss data') = ss_files (ss data)"

lemma same_core_simps [simp]:
  "same_core data data"
  "same_core data (upd_ss (\<lambda>x. x\<lparr>all_vmas := f x\<rparr>) data') = same_core data data'"
  "same_core data (upd_ss (\<lambda>x. x\<lparr>snapshotted_vmas := f x\<rparr>) data') = same_core data data'"
  by (simp_all add: same_core_def)

lemma same_core_trans: "same_core a b \<Longrightarrow> same_core b c \<Longrightarrow> same_core a c"
  by (simp add: same_core_def)

lemma same_but_pages_core: "same_but_pages a b \<Longrightarrow> same_core a b"
  by (simp add: same_core_def same_but_pages_def)

lemma pages_made_vmas:
  assumes "ss_pages (f (ss data)) = ss_pages (ss data)" and "dirty_pages (f (ss data)) = dirty_pages (ss data)"
  shows "pages_made K m M0 (upd_ss f data) M = pages_made K m M0 data M"
  using assms by (simp add: pages_made_def page_inv_def orig_of_def)

lemma taking_upd:
  assumes "taking K m d s0 s data" and "alloc_next s \<le> n"
    and "ss_pages (f (ss data)) = ss_pages (ss data)" and "dirty_pages (f (ss data)) = dirty_pages (ss data)"
  shows "taking K m d s0 (put_td d (upd_ss f data) (s\<lparr>alloc_next := n\<rparr>)) (upd_ss f data)"
proof -
  obtain n0 fl M where s: "s = s0\<lparr>td_heap := (td_heap s0)(d \<mapsto> data), alloc_next := n0, mem := M, tlb_flushes := fl\<rparr>"
    and n: "alloc_next s0 \<le> n0" and w: "wrprotected m (mem s0) M" and ok: "pages_ok K data"
    and made: "mem_wf (mem s0) \<and> no_swap (mem s0) \<longrightarrow> pages_made K m (mem s0) data M"
    using assms(1) by (auto simp: taking_def)
  have "put_td d (upd_ss f data) (s\<lparr>alloc_next := n\<rparr>) =
      s0\<lparr>td_heap := (td_heap s0)(d \<mapsto> upd_ss f data), alloc_next := n, mem := M, tlb_flushes := fl\<rparr>"
    by (simp add: put_td_def s)
  moreover have "alloc_next s0 \<le> n" using n assms(2) by (simp add: s)
  moreover have "pages_made K m (mem s0) (upd_ss f data) M = pages_made K m (mem s0) data M" "pages_ok K (upd_ss f data)"
    using ok assms(3,4) by (simp_all add: pages_made_vmas pages_ok_def)
  ultimately show ?thesis using w made unfolding taking_def by metis
qed

lemma put_td_put_td [simp]: "put_td d y (put_td d x s) = put_td d y s"
  by (simp add: put_td_def)

lemma taking_start_stack: "taking K m d s0 s data \<Longrightarrow> start_stack (mms (mem s) n) = start_stack (mms (mem s0) n)"
  by (auto simp: taking_def wrprotected_same(6))

lemma skip_vma_cong: "start_stack mm = start_stack mm' \<Longrightarrow> skip_vma mm cfg v = skip_vma mm' cfg v"
  by (simp add: skip_vma_def is_stack_def)

lemma find_ex: "(find P xs = None) = (\<not> list_ex P xs)"
  by (auto simp: find_None_set list_ex_iff)

text \<open>The effect of one iteration.\<close>

definition area_taken ::
  "'k kernel_scheme \<Rightarrow> mm_id \<Rightarrow> u32 \<Rightarrow> vmrange list \<Rightarrow> vmrange list \<Rightarrow> mem \<Rightarrow> vm_area list \<Rightarrow> task_data \<Rightarrow> task_data \<Rightarrow> bool" where
  "area_taken K m cfg al bl M0 vs data0 data' \<longleftrightarrow>
     same_core data0 data' \<and>
     map sv_view (all_vmas (ss data')) = map sv_view (all_vmas (ss data0)) @ map area_view vs \<and>
     map sv_view (snapshotted_vmas (ss data')) = map sv_view (snapshotted_vmas (ss data0)) @
       map area_view (filter (selected (mms M0 m) cfg al) vs) \<and>
     (\<forall>b. get_snapshot_page K b data0 \<noteq> None \<longrightarrow> get_snapshot_page K b data' \<noteq> None) \<and>
     (\<forall>b. get_snapshot_page K b data' \<noteq> None \<longrightarrow> get_snapshot_page K b data0 \<noteq> None \<or>
        (\<exists>v \<in> set vs. selected (mms M0 m) cfg al v \<and> vm_start v \<le> b \<and> b < vm_end v \<and> want_page cfg al bl b)) \<and>
     (\<forall>b. \<forall>v \<in> set vs. pte_present (pte_of M0 m b) \<longrightarrow> selected (mms M0 m) cfg al v \<longrightarrow>
        vm_start v \<le> b \<longrightarrow> b < vm_end v \<longrightarrow> want_page cfg al bl b \<longrightarrow> get_snapshot_page K b data' \<noteq> None)"

lemma area_taken_refl: "area_taken K m cfg al bl M0 [] data data"
  by (simp add: area_taken_def)

lemma area_taken_trans:
  assumes "area_taken K m cfg al bl M0 [v] data0 data1" and "area_taken K m cfg al bl M0 vs data1 data2"
  shows "area_taken K m cfg al bl M0 (v # vs) data0 data2"
proof -
  have "same_core data0 data2" using assms same_core_trans unfolding area_taken_def by blast
  moreover have "\<forall>b. \<forall>w \<in> set (v # vs). pte_present (pte_of M0 m b) \<longrightarrow> selected (mms M0 m) cfg al w \<longrightarrow>
        vm_start w \<le> b \<longrightarrow> b < vm_end w \<longrightarrow> want_page cfg al bl b \<longrightarrow> get_snapshot_page K b data2 \<noteq> None"
    using assms unfolding area_taken_def by (metis list.set_intros(1) set_ConsD)
  moreover have "\<forall>b. get_snapshot_page K b data2 \<noteq> None \<longrightarrow> get_snapshot_page K b data0 \<noteq> None \<or>
        (\<exists>w \<in> set (v # vs). selected (mms M0 m) cfg al w \<and> vm_start w \<le> b \<and> b < vm_end w \<and> want_page cfg al bl b)"
  proof (intro allI impI)
    fix b assume "get_snapshot_page K b data2 \<noteq> None"
    then have "get_snapshot_page K b data1 \<noteq> None \<or>
        (\<exists>w \<in> set vs. selected (mms M0 m) cfg al w \<and> vm_start w \<le> b \<and> b < vm_end w \<and> want_page cfg al bl b)"
      using assms(2) unfolding area_taken_def by blast
    moreover have "get_snapshot_page K b data1 \<noteq> None \<Longrightarrow> get_snapshot_page K b data0 \<noteq> None \<or>
        (\<exists>w \<in> set [v]. selected (mms M0 m) cfg al w \<and> vm_start w \<le> b \<and> b < vm_end w \<and> want_page cfg al bl b)"
      using assms(1) unfolding area_taken_def by blast
    ultimately show "get_snapshot_page K b data0 \<noteq> None \<or>
        (\<exists>w \<in> set (v # vs). selected (mms M0 m) cfg al w \<and> vm_start w \<le> b \<and> b < vm_end w \<and> want_page cfg al bl b)"
      by auto
  qed
  moreover have "\<forall>b. get_snapshot_page K b data0 \<noteq> None \<longrightarrow> get_snapshot_page K b data2 \<noteq> None"
    using assms unfolding area_taken_def by blast
  ultimately show ?thesis
    using assms unfolding area_taken_def by simp
qed

lemma take_vma_ok:
  assumes t: "taking K m d s0 s data0" and oom: "no_oom K" and area: "area_ok v"
    and law: "\<And>M v. wrprotected m (mem s0) M \<Longrightarrow> area_ok v \<Longrightarrow> walks_area K M m v"
    and lists: "range_list s0 (Allowlist d) al" "range_list s0 (Blocklist d) bl"
    and al: "ranges_aligned al" and bl: "ranges_aligned bl" and dis: "ranges_disjoint al bl"
    and wd: "walk_data_ok (config data0) al bl (vm_start v) wd"
  shows "\<exists>wd' s' data'. take_vma K m d v (wd, s) = Some (0, wd', s') \<and> taking K m d s0 s' data' \<and>
     walk_data_ok (config data0) al bl (vm_end v) wd' \<and>
     area_taken K m (config data0) al bl (mem s0) [v] data0 data'"
proof -
  let ?cfg = "config data0"
  obtain sv data1 where add: "add_snapshot_vma K v data0 s = (Some sv, data1, s\<lparr>alloc_next := Suc (alloc_next s)\<rparr>)"
    and data1: "data1 = upd_ss (\<lambda>x. x\<lparr>all_vmas := all_vmas x @ [sv]\<rparr>) data0" and sv: "sv_view sv = area_view v"
    using oom by (simp add: add_snapshot_vma_def Let_def sv_view_def area_view_def snapshot_prot_writable)
  let ?s2 = "put_td d data1 (s\<lparr>alloc_next := Suc (alloc_next s)\<rparr>)"
  have t2: "taking K m d s0 ?s2 data1"
    unfolding data1 using t by (rule taking_upd) simp_all
  have cfg: "config data1 = ?cfg" by (simp add: data1)
  have allowed: "intersect_allowlist d (vm_start v) (vm_end v) ?s2 = Some (find (overlaps (vm_start v) (vm_end v)) al)"
    using taking_lists [OF t2 lists(1)] by (rule intersect_allowlist_eq)
  have skip: "skip_vma (mms (mem ?s2) m) ?cfg v = skip_vma (mms (mem s0) m) ?cfg v"
    using taking_start_stack [OF t2] by (rule skip_vma_cong)
  show ?thesis
  proof (cases "selected (mms (mem s0) m) ?cfg al v")
    case False
    then have "take_vma K m d v (wd, s) = Some (0, wd, ?s2)"
      using taking_td [OF t] allowed skip
      by (simp add: take_vma_def add cfg selected_def find_ex del: put_td_mem)
    moreover have "walk_data_ok ?cfg al bl (vm_end v) wd"
      using wd area by (auto intro: walk_data_ok_mono simp: area_ok_def)
    moreover have "area_taken K m ?cfg al bl (mem s0) [v] data0 data1"
      using False sv by (simp add: area_taken_def data1)
    ultimately show ?thesis using t2 by blast
  next
    case True
    let ?data2 = "upd_ss (\<lambda>y. y\<lparr>snapshotted_vmas := snapshotted_vmas y @ [sv]\<rparr>) data1"
    have "taking K m d s0 (put_td d ?data2 (?s2\<lparr>alloc_next := alloc_next ?s2\<rparr>)) ?data2"
      using t2 by (rule taking_upd) simp_all
    moreover have "?s2\<lparr>alloc_next := alloc_next ?s2\<rparr> = ?s2" by simp
    ultimately have t3: "taking K m d s0 (put_td d ?data2 ?s2) ?data2" by metis
    have wd2: "walk_data_ok (config ?data2) al bl (vm_start v) wd" using wd cfg by simp
    from walk_page_vma_ok [OF t3 oom area law lists al bl dis wd2]
    obtain wd' s' data' where run: "walk_page_vma K m d v (wd, put_td d ?data2 ?s2) = Some (0, wd', s')"
      and t': "taking K m d s0 s' data'" and wd': "walk_data_ok ?cfg al bl (vm_end v) wd'"
      and same: "same_but_pages ?data2 data'"
      and mono: "\<forall>b. get_snapshot_page K b ?data2 \<noteq> None \<longrightarrow> get_snapshot_page K b data' \<noteq> None"
      and only: "\<forall>b. get_snapshot_page K b data' \<noteq> None \<longrightarrow> get_snapshot_page K b ?data2 \<noteq> None \<or>
         (vm_start v \<le> b \<and> b < vm_end v \<and> want_page ?cfg al bl b)"
      and all: "\<forall>b. pte_present (pte_of (mem s0) m b) \<longrightarrow> vm_start v \<le> b \<longrightarrow> b < vm_end v \<longrightarrow>
         want_page ?cfg al bl b \<longrightarrow> get_snapshot_page K b data' \<noteq> None"
      using cfg by auto
    have get: "get_snapshot_page K b ?data2 = get_snapshot_page K b data0" for b by (simp add: data1)
    have "take_vma K m d v (wd, s) = Some (0, wd', s')"
      using taking_td [OF t] allowed skip True run
      by (auto simp: take_vma_def add cfg selected_def find_ex Let_def simp del: put_td_mem)
    moreover have "same_core data0 data'"
      using same_but_pages_core [OF same] by (simp add: data1 same_core_def)
    moreover have "all_vmas (ss data') = all_vmas (ss ?data2)" "snapshotted_vmas (ss data') = snapshotted_vmas (ss ?data2)"
      using same by (simp_all add: same_but_pages_def)
    ultimately have "area_taken K m ?cfg al bl (mem s0) [v] data0 data'"
      using True sv mono only all unfolding get area_taken_def by (simp add: data1)
    with \<open>take_vma K m d v (wd, s) = Some (0, wd', s')\<close> t' wd' show ?thesis by blast
  qed
qed

lemma take_vmas_ok:
  assumes oom: "no_oom K" and law: "\<And>M v. wrprotected m (mem s0) M \<Longrightarrow> area_ok v \<Longrightarrow> walks_area K M m v"
    and lists: "range_list s0 (Allowlist d) al" "range_list s0 (Blocklist d) bl"
    and al: "ranges_aligned al" and bl: "ranges_aligned bl" and dis: "ranges_disjoint al bl"
  shows "taking K m d s0 s data0 \<Longrightarrow> areas_ok vs \<Longrightarrow> walk_data_ok (config data0) al bl lo wd \<Longrightarrow>
     (\<forall>v \<in> set vs. lo \<le> vm_start v) \<Longrightarrow>
     \<exists>wd' s' data'. run_calls (take_vma K m d) vs (wd, s) = Some (0, wd', s') \<and> taking K m d s0 s' data' \<and>
     area_taken K m (config data0) al bl (mem s0) vs data0 data'"
proof (induction vs arbitrary: wd s data0 lo)
  case Nil
  then show ?case by (intro exI [of _ wd] exI [of _ s] exI [of _ data0]) (simp add: area_taken_refl)
next
  case (Cons v vs)
  have area: "area_ok v" and vs: "areas_ok vs" and next_le: "\<forall>w \<in> set vs. vm_end v \<le> vm_start w"
    using Cons.prems(2) by (auto simp: areas_ok_def)
  have "walk_data_ok (config data0) al bl (vm_start v) wd"
    using Cons.prems(3,4) by (auto intro: walk_data_ok_mono)
  from take_vma_ok [OF Cons.prems(1) oom area law lists al bl dis this]
  obtain wd1 s1 data1 where one: "take_vma K m d v (wd, s) = Some (0, wd1, s1)"
    and t1: "taking K m d s0 s1 data1" and wd1: "walk_data_ok (config data0) al bl (vm_end v) wd1"
    and a1: "area_taken K m (config data0) al bl (mem s0) [v] data0 data1" by blast
  have cfg: "config data1 = config data0" using a1 by (simp add: area_taken_def same_core_def)
  have "walk_data_ok (config data1) al bl (vm_end v) wd1" using wd1 cfg by simp
  from Cons.IH [OF t1 vs this next_le] obtain wd' s' data' where
    rest: "run_calls (take_vma K m d) vs (wd1, s1) = Some (0, wd', s')"
    and t': "taking K m d s0 s' data'" and a': "area_taken K m (config data0) al bl (mem s0) vs data1 data'"
    unfolding cfg by blast
  with one area_taken_trans [OF a1 a'] show ?case by auto
qed

section \<open>The snapshot of a process\<close>

text \<open>The pages inside snapshotted areas that had no entry.\<close>

definition absent_pages :: "mm_id \<Rightarrow> mem \<Rightarrow> task_data \<Rightarrow> u64 set" where
  "absent_pages m M data = {b. is_snapshotted_address data b \<and> \<not> pte_present (pte_of M m b)}"

text \<open>Task data as \<open>ensure_task_data\<close> creates it, as far as the memory snapshot goes.\<close>

definition no_pages :: "task_data \<Rightarrow> bool" where
  "no_pages data \<longleftrightarrow>
     (\<forall>h. ss_pages (ss data) h = []) \<and> dirty_pages (ss data) = [] \<and>
     all_vmas (ss data) = [] \<and> snapshotted_vmas (ss data) = []"

lemma no_pages_get: "no_pages data \<Longrightarrow> get_snapshot_page K b data = None"
  by (simp add: no_pages_def get_snapshot_page_def)

lemma no_pages_made: "no_pages data \<Longrightarrow> pages_made K m M data M"
  by (simp add: pages_made_def page_inv_def no_pages_get page_ok_def orig_of_def)
    (simp add: no_pages_def pages_ok_def)

lemma pages_made_inv:
  assumes "pages_made K m M0 data M" and w: "wrprotected m M0 M"
  shows "page_inv K m (orig_of K m M0 data) (absent_pages m M0 data) data M"
proof -
  have inv: "page_inv K m (orig_of K m M0 data) {} data M"
    and none: "\<And>b sp. get_snapshot_page K b data = Some sp \<Longrightarrow>
        is_snapshot_page_none_pte sp = (\<not> pte_present (pte_of M0 m b))"
    using assms(1) by (simp_all add: pages_made_def)
  have "page_ok_at K m (orig_of K m M0 data) (absent_pages m M0 data) data M b" for b
    using page_inv_at [OF inv, of b] none [of b] wrprotected_pte(1) [OF w, of m b]
    by (auto simp: page_ok_def absent_pages_def untouched_def split: option.splits if_splits)
  then show ?thesis
    using inv by (simp add: page_inv_def absent_pages_def)
qed

lemma taking_start:
  assumes "td_heap s0 d = Some data" and "no_pages data"
  shows "taking K m d s0 s0 data"
proof -
  have "s0 = s0\<lparr>td_heap := (td_heap s0)(d \<mapsto> data), alloc_next := alloc_next s0, mem := mem s0,
      tlb_flushes := tlb_flushes s0\<rparr>"
    using assms(1) by (simp add: fun_upd_idem)
  then show ?thesis
    using no_pages_made [OF assms(2)] assms(2) unfolding taking_def no_pages_def pages_ok_def
    by (metis distinct.simps(1) empty_iff list.set(1) list.simps(8) order_refl wrprotected_refl)
qed

lemma fold_invalidate_mem:
  "mem (fold (invalidate_cpu t) cs s) = mem s" "tasks (fold (invalidate_cpu t) cs s) = tasks s"
  "tlb_flushes (fold (invalidate_cpu t) cs s) = tlb_flushes s"
  by (induction cs arbitrary: s) (simp_all add: invalidate_cpu_def)

text \<open>From the walk back to the invariant of the whole machine.\<close>

lemma taking_sys_inv:
  assumes inv: "sys_inv K G s" and d: "registry_map s (owner s m) = Some d"
    and s0: "registry_ok s0" "cache_ok K s0" "registry_map s0 = registry_map s" "mem s0 = mem s"
      "\<And>e. e \<noteq> d \<Longrightarrow> td_heap s0 e = td_heap s e" "td_heap s0 d = Some data0"
    and have0: "have_snapshot data0" and t: "taking K m d s0 s' data'" and core: "same_core data0 data'"
    and swap: "no_swap (mem s)"
  shows "tracked s' m d data'"
    and "sys_inv K (G(m := (orig_of K m (mem s) data', absent_pages m (mem s) data'))) s'"
proof -
  obtain n fl M where s': "s' = s0\<lparr>td_heap := (td_heap s0)(d \<mapsto> data'), alloc_next := n, mem := M, tlb_flushes := fl\<rparr>"
    and n: "alloc_next s0 \<le> n" and w: "wrprotected m (mem s) M" and made: "pages_made K m (mem s) data' M"
    using t swap sys_invD(3) [OF inv] by (auto simp: taking_def s0(4))
  have hv: "have_snapshot data'" using core have0 by (simp add: same_core_def have_snapshot_def)
  have o: "owner_of s' = owner_of s0"
    using core s0(6) by (simp add: owner_of_def fun_eq_iff s' same_core_def)
  have r: "registry_map s' = registry_map s0" by (rule registry_map_cong) (simp_all add: o, simp add: s')
  have own: "owner s' k = owner s k" for k using wrprotected_same(4) [OF w] by (simp add: s')
  show tr: "tracked s' m d data'"
    unfolding tracked_def own r s0(3) using d hv by (simp add: s')
  have "registry_ok s'"
    using s0(1) by (rule registry_ok_cong [rotated -1]) (simp_all add: o, simp_all add: s' s0(6) n)
  moreover have "cache_ok K s'"
    using s0(2) by (rule cache_ok_cong [rotated -1]) (simp_all add: r, simp_all add: s' s0(6) have0 split: if_splits)
  moreover have "mem_wf (mem s')" using wrprotected_wf [OF w] sys_invD(3) [OF inv] by (simp add: s')
  moreover have "\<forall>k k'. registry_map s' (owner s' k) \<noteq> None \<longrightarrow> owner s' k' = owner s' k \<longrightarrow> k' = k"
    using inv unfolding own r s0(3) sys_inv_def by blast
  moreover have "page_inv K k (fst (G' k)) (snd (G' k)) x (mem s')"
    if G': "G' = G(m := (orig_of K m (mem s) data', absent_pages m (mem s) data'))"
      and k: "registry_map s' (owner s' k) = Some e" "td_heap s' e = Some x" "have_snapshot x" for k e x G'
  proof (cases "k = m")
    case True
    with k d have "x = data'" unfolding own r s0(3) by (simp add: s')
    with True pages_made_inv [OF made w] show ?thesis by (simp add: G' s')
  next
    case False
    have e: "registry_map s (owner s k) = Some e" using k(1) unfolding own r s0(3) .
    with False have "e \<noteq> d" using sys_invD(5) [OF inv d] by blast
    with k(2) s0(5) have "td_heap s e = Some x" by (simp add: s')
    from sys_invD(4) [OF inv e this k(3)] False w show ?thesis
      by (auto simp: G' s' intro: wrprotected_other)
  qed
  ultimately show "sys_inv K (G(m := (orig_of K m (mem s) data', absent_pages m (mem s) data'))) s'"
    unfolding sys_inv_def by blast
qed

lemma cache_ok_retaken:
  assumes inv: "sys_inv K G s" and d: "registry_map s t = Some d"
    and old: "td_heap s d = Some old" and tsk: "tsk data0 = t" "tsk old = t"
  shows "cache_ok K (invalidate_task_data_cache K t (put_td d data0 s))"
proof (rule cache_ok_invalidate)
  let ?s = "put_td d data0 s"
  have r: "registry_map ?s = registry_map s" using old tsk by (intro registry_map_put_td) auto
  show "registry_ok ?s" using sys_invD(1) [OF inv] old tsk by (intro registry_ok_put_td) auto
  show "this_cpu ?s < nr_cpu_ids K" using sys_invD(2) [OF inv] by (simp add: cache_ok_def)
  fix i assume i: "i < nr_cpu_ids K" "last_task ?s i \<noteq> t"
  have "cache_entry_ok s i" using sys_invD(2) [OF inv] i(1) by (simp add: cache_ok_def)
  then show "cache_entry_ok ?s i"
  proof (rule cache_entry_ok_cong [rotated -1])
    fix e assume e: "registry_map s (last_task s i) = Some e" and h: "have_snapshot (the (td_heap ?s e))"
    have "e \<noteq> d"
      using e d i(2) registry_map_eq_Some_iff [OF sys_invD(1) [OF inv]] by auto
    with h show "have_snapshot (the (td_heap s e))" by simp
  qed (simp_all add: r)
qed

text \<open>Which pages are tracked does not depend on what kind of memory they are.\<close>

lemma take_memory_pages:
  assumes m: "m = task_mm (tasks s (current s))" and data0: "no_pages data0"
    and lists: "range_list s (Allowlist d) al" "range_list s (Blocklist d) bl"
    and al: "ranges_aligned al" and bl: "ranges_aligned bl" and dis: "ranges_disjoint al bl"
    and areas: "areas_ok (mm_mmap (mms (mem s) m))" and oom: "no_oom K"
    and law: "\<And>M v. wrprotected m (mem s) M \<Longrightarrow> area_ok v \<Longrightarrow> walks_area K M m v"
  obtains s' data' where "take_memory_snapshot K d (put_td d data0 s) = Some (0, s')"
    and "area_taken K m (config data0) al bl (mem s) (mm_mmap (mms (mem s) m)) data0 data'"
    and "taking K m d (invalidate_task_data_cache K (tsk data0) (put_td d data0 s)) s' data'"
proof -
  let ?s1 = "put_td d data0 s"
  let ?s0 = "invalidate_task_data_cache K (tsk data0) ?s1"
  have mem0: "mem ?s0 = mem s" "tasks ?s0 = tasks s"
    by (simp_all add: invalidate_task_data_cache_def fold_invalidate_mem)
  have l0: "range_list ?s0 (Allowlist d) al" "range_list ?s0 (Blocklist d) bl"
    using lists by (auto intro: range_list_cong [rotated -1])
  have td0: "td_heap ?s0 d = Some data0" by simp
  have start: "taking K m d ?s0 ?s0 data0" using td0 data0 by (rule taking_start)
  obtain wd' s' data' where run: "run_calls (take_vma K m d) (mm_mmap (mms (mem s) m)) (init_walk_data, ?s0) = Some (0, wd', s')"
    and t': "taking K m d ?s0 s' data'"
    and taken: "area_taken K m (config data0) al bl (mem s) (mm_mmap (mms (mem s) m)) data0 data'"
    using take_vmas_ok [OF oom _ l0 al bl dis start areas init_walk_data_ok [of _ _ _ 0]] law
    unfolding mem0 by auto
  have "take_memory_snapshot K d ?s1 = Some (0, s')"
    using run m mem0 by (simp add: take_memory_snapshot_def Let_def)
  then show ?thesis using taken t' by (rule that)
qed

lemma take_memory_ok:
  assumes inv: "sys_inv K G s" and t: "t = current s" "m = task_mm (tasks s t)" "owner s m = t"
    and d: "registry_map s t = Some d" and old: "td_heap s d = Some old"
    and data0: "tsk data0 = t" "have_snapshot data0" "no_pages data0"
    and lists: "range_list s (Allowlist d) al" "range_list s (Blocklist d) bl"
    and al: "ranges_aligned al" and bl: "ranges_aligned bl" and dis: "ranges_disjoint al bl"
    and areas: "areas_ok (mm_mmap (mms (mem s) m))"
    and swap: "no_swap (mem s)" and oom: "no_oom K" and law: "vma_walker_law K"
  obtains s' data' where "take_memory_snapshot K d (put_td d data0 s) = Some (0, s')"
    and "tracked s' m d data'" and "dirty_pages (ss data') = []"
    and "area_taken K m (config data0) al bl (mem s) (mm_mmap (mms (mem s) m)) data0 data'"
    and "sys_inv K (G(m := (orig_of K m (mem s) data', absent_pages m (mem s) data'))) s'"
    and "taking K m d (invalidate_task_data_cache K t (put_td d data0 s)) s' data'"
proof -
  let ?s1 = "put_td d data0 s"
  let ?s0 = "invalidate_task_data_cache K t ?s1"
  have tsk: "tsk old = t"
    using d old registry_map_eq_Some_iff [OF sys_invD(1) [OF inv]] by (auto simp: owner_of_def)
  have mem0: "mem ?s0 = mem s" "tasks ?s0 = tasks s"
    by (simp_all add: invalidate_task_data_cache_def fold_invalidate_mem)
  have s0: "registry_ok ?s0" "registry_map ?s0 = registry_map s"
    using sys_invD(1) [OF inv] old data0(1) tsk
    by (auto intro: registry_ok_put_td simp: registry_map_put_td)
  have cache0: "cache_ok K ?s0" using inv d old data0(1) tsk by (rule cache_ok_retaken)
  have td0: "td_heap ?s0 d = Some data0" by simp
  have "mem_wf (mem s)" using inv by (rule sys_invD)
  then have walks: "walks_area K M m v" if "wrprotected m (mem s) M" "area_ok v" for M v
    using law wrprotected_wf [OF that(1)] that(2) by (simp add: vma_walker_law_def)
  have m: "m = task_mm (tasks s (current s))" using t by simp
  obtain s' data' where run: "take_memory_snapshot K d ?s1 = Some (0, s')" and t': "taking K m d ?s0 s' data'"
    and taken: "area_taken K m (config data0) al bl (mem s) (mm_mmap (mms (mem s) m)) data0 data'"
    by (rule take_memory_pages [OF m data0(3) lists al bl dis areas oom walks]) (auto simp: data0(1))
  have core: "same_core data0 data'" using taken by (simp add: area_taken_def)
  have "dirty_pages (ss data') = []"
    using t' swap \<open>mem_wf (mem s)\<close> mem0 by (auto simp: taking_def pages_made_def)
  moreover note taking_sys_inv [OF inv _ s0(1) cache0 s0(2) mem0(1) _ td0 data0(2) t' core swap]
  ultimately show ?thesis using that run taken t' d t(3) by auto
qed

end
