(* ===== verification/Take_Theorems.thy ===== *)
theory Take_Theorems
  imports Take_Memory
begin

text \<open>
  What \<open>take_memory_snapshot\<close> achieves, and the round trip over taking a snapshot, running
  the process and recovering its pages. The first section shows that the walker of the
  concrete kernel meets its contract, for the witnesses.
\<close>

section \<open>The concrete walker\<close>

lemma ref_walker_word:
  assumes "area_ok v" and "i < unat (vm_end v - vm_start v) div 4096"
  shows "unat (vm_start v + 4096 * of_nat i) = unat (vm_start v) + 4096 * i"
    and "unat (vm_start v) + 4096 * i + 4096 \<le> unat (vm_end v)"
    and "unat (vm_start v + 4096 * of_nat i + 4096) = unat (vm_start v) + 4096 * i + 4096"
proof -
  have lt: "vm_start v < vm_end v" using assms(1) by (simp add: area_ok_def)
  then have len: "unat (vm_end v - vm_start v) = unat (vm_end v) - unat (vm_start v)"
    by (simp add: unat_sub less_imp_le)
  have "4096 * i + 4096 \<le> 4096 * (unat (vm_end v - vm_start v) div 4096)" using assms(2) by simp
  also have "\<dots> \<le> unat (vm_end v) - unat (vm_start v)" using len by simp
  finally show le: "unat (vm_start v) + 4096 * i + 4096 \<le> unat (vm_end v)"
    using lt by (simp add: word_less_nat_alt)
  have "unat (vm_end v) < 2 ^ 64" using unsigned_less [of "vm_end v"] by simp
  then have small: "unat (vm_start v) + 4096 * i + 4096 < 2 ^ 64" using le by linarith
  have un: "unat (of_nat k :: u64) = k" if "k < 2 ^ 64" for k
    using that by (simp add: unat_of_nat)
  have "vm_start v + 4096 * of_nat i = of_nat (unat (vm_start v) + 4096 * i)" by simp
  moreover have "unat (of_nat (unat (vm_start v) + 4096 * i) :: u64) = unat (vm_start v) + 4096 * i"
    by (rule un) (use small in linarith)
  ultimately show "unat (vm_start v + 4096 * of_nat i) = unat (vm_start v) + 4096 * i" by metis
  have "vm_start v + 4096 * of_nat i + 4096 = of_nat (unat (vm_start v) + 4096 * i + 4096)" by simp
  then show "unat (vm_start v + 4096 * of_nat i + 4096) = unat (vm_start v) + 4096 * i + 4096"
    using un [OF small] by metis
qed

definition ref_call :: "vm_area \<Rightarrow> nat \<Rightarrow> walk_call" where
  "ref_call v i = Pte_entry (vm_start v + 4096 * of_nat i) (vm_start v + 4096 * of_nat i + 4096)"

lemma ref_walker_eq: "ref_walker M m v h =
    (if length h < unat (vm_end v - vm_start v) div 4096 then Some (ref_call v (length h)) else None)"
  by (simp add: ref_walker_def ref_call_def Let_def)

lemma ref_walk_run:
  assumes "walk_run (ref_walker M m v) h"
  shows "map fst h = map (ref_call v) [0 ..< length h]" and "length h \<le> unat (vm_end v - vm_start v) div 4096"
proof -
  have c: "ref_walker M m v (take i h) = Some (fst (h ! i))" if "i < length h" for i
    using assms that by (simp add: walk_run_def)
  then show "map fst h = map (ref_call v) [0 ..< length h]"
  proof (intro nth_equalityI)
    fix i assume "i < length (map fst h)"
    with c [of i] show "map fst h ! i = map (ref_call v) [0 ..< length h] ! i"
      by (simp add: ref_walker_eq split: if_splits)
  qed simp
  show "length h \<le> unat (vm_end v - vm_start v) div 4096"
    using c [of "length h - 1"] by (cases "length h") (auto simp: ref_walker_eq split: if_splits)
qed

lemma ref_walks_area:
  assumes al: "\<And>b. pte_present (pte_of M m b) \<Longrightarrow> page_aligned b" and area: "area_ok v"
  shows "walks_area ref_kernel M m v"
  unfolding walks_area_def ref_kernel_simps
proof (intro allI impI conjI)
  let ?n = "unat (vm_end v - vm_start v) div 4096"
  note word = ref_walker_word [OF area]
  show "\<exists>N. \<forall>h. walk_run (ref_walker M m v) h \<longrightarrow> length h \<le> N"
    using ref_walk_run(2) by blast
  fix h assume run: "walk_run (ref_walker M m v) h"
  note calls = ref_walk_run(1) [OF run] and len = ref_walk_run(2) [OF run]
  have lt: "i < ?n" if "i < length h" for i using that len by simp
  have "sorted (map walk_addr (map (ref_call v) [0 ..< length h]))"
    by (auto simp: sorted_iff_nth_mono ref_call_def word_le_nat_alt word(1) lt)
  moreover have "list_all (\<lambda>c. walk_addr c < walk_next c) (map (ref_call v) [0 ..< length h])"
    by (auto simp: list_all_iff ref_call_def word_less_nat_alt word(1,3) lt)
  ultimately show "ascending (map fst h)" by (simp add: ascending_def calls)
  show "\<forall>c \<in> set (map fst h). vm_start v \<le> walk_addr c \<and> walk_addr c < vm_end v"
  proof
    fix c assume "c \<in> set (map fst h)"
    then obtain i where "i < length h" "c = ref_call v i" by (auto simp: calls)
    then show "vm_start v \<le> walk_addr c \<and> walk_addr c < vm_end v"
      using word(1,2) [OF lt, of i] by (simp add: ref_call_def word_le_nat_alt word_less_nat_alt)
  qed
  show "page_aligned a" "n = a + PAGE_SIZE" if "Pte_entry a n \<in> set (map fst h)" for a n
  proof -
    from that have "Pte_entry a n \<in> ref_call v ` {0 ..< length h}" by (simp only: calls set_map set_upt)
    then obtain i where i: "i < length h" "Pte_entry a n = ref_call v i" by auto
    then show "n = a + PAGE_SIZE" by (simp add: ref_call_def PAGE_SIZE_def)
    have "4096 dvd unat (vm_start v)" using area by (simp add: area_ok_def page_aligned_iff)
    then show "page_aligned a"
      using i word(1) [OF lt [OF i(1)]] by (simp add: ref_call_def page_aligned_iff)
  qed
  fix b assume fin: "ref_walker M m v h = None" and p: "pte_present (pte_of M m b)"
    and b: "vm_start v \<le> b" "b < vm_end v"
  let ?i = "unat (b - vm_start v) div 4096"
  have ub: "unat (b - vm_start v) = unat b - unat (vm_start v)" using b(1) by (simp add: unat_sub)
  have "4096 dvd unat b" "4096 dvd unat (vm_start v)" "4096 dvd unat (vm_end v)"
    using al [OF p] area by (simp_all add: area_ok_def page_aligned_iff)
  then have d: "4096 dvd unat (b - vm_start v)" "4096 dvd unat (vm_end v - vm_start v)"
    using ub area b by (simp_all add: unat_sub area_ok_def)
  have "unat (b - vm_start v) < unat (vm_end v - vm_start v)"
    using b ub area by (simp add: unat_sub area_ok_def word_less_nat_alt word_le_nat_alt diff_less_mono)
  then have i: "?i < ?n" using d by (auto elim!: dvdE)
  have "4096 * ?i = unat (b - vm_start v)" using d(1) by simp
  then have "(of_nat (4096 * ?i) :: u64) = b - vm_start v" by simp
  then have "b = vm_start v + 4096 * of_nat ?i" by (simp add: algebra_simps)
  moreover have "?n \<le> length h" using fin by (simp add: ref_walker_eq split: if_splits)
  with i have "ref_call v ?i \<in> set (map fst h)" by (simp add: calls)
  ultimately have "\<exists>n. Pte_entry b n \<in> set (map fst h)" by (metis ref_call_def)
  then show "(\<exists>n. Pte_entry b n \<in> set (map fst h)) \<or>
      (\<exists>c. (c, ACTION_CONTINUE) \<in> set h \<and> walk_addr c \<le> b \<and> b < walk_next c)" ..
qed

lemma ref_vma_walker_law: "vma_walker_law ref_kernel"
  unfolding vma_walker_law_def by (blast intro: ref_walks_area mem_wf_aligned)

section \<open>Which pages a snapshot covers\<close>

text \<open>
  Everything \<open>take_memory_snapshot\<close> relies on: the machine satisfies the invariant, the
  caller owns its address space, its data is registered under \<open>d\<close> and becomes \<open>data0\<close>
  (marked as having a snapshot, without pages yet), its lists hold \<open>al\<close> and \<open>bl\<close>, aligned
  and disjoint, its areas are sorted and nothing is swapped out.
\<close>

definition ready_to_take ::
  "'k kernel_scheme \<Rightarrow> ghost \<Rightarrow> mm_id \<Rightarrow> nat \<Rightarrow> vmrange list \<Rightarrow> vmrange list \<Rightarrow> task_data \<Rightarrow> 's mem_state_scheme \<Rightarrow> bool" where
  "ready_to_take K G m d al bl data0 s \<longleftrightarrow>
     sys_inv K G s \<and> m = task_mm (tasks s (current s)) \<and> owner s m = current s \<and>
     registry_map s (current s) = Some d \<and>
     tsk data0 = current s \<and> have_snapshot data0 \<and> no_pages data0 \<and>
     range_list s (Allowlist d) al \<and> range_list s (Blocklist d) bl \<and>
     ranges_aligned al \<and> ranges_aligned bl \<and> ranges_disjoint al bl \<and>
     areas_ok (mm_mmap (mms (mem s) m)) \<and> no_swap (mem s)"

text \<open>
  The specification of coverage: the page lies in a selected area and, if it had an entry,
  \<open>want_page\<close> asks for it. A page without entry is covered even when it is on the block list:
  the rmap hook looks at the areas only.
\<close>

definition covered ::
  "mm_id \<Rightarrow> u32 \<Rightarrow> vmrange list \<Rightarrow> vmrange list \<Rightarrow> mem \<Rightarrow> u64 \<Rightarrow> bool" where
  "covered m cfg al bl M b \<longleftrightarrow>
     list_ex (\<lambda>v. selected (mms M m) cfg al v \<and> vm_start v \<le> b \<and> b < vm_end v) (mm_mmap (mms M m)) \<and>
     (pte_present (pte_of M m b) \<longrightarrow> want_page cfg al bl b)"

lemma ready_to_takeE:
  assumes "ready_to_take K G m d al bl data0 s" and "no_oom K" and "vma_walker_law K"
  obtains s' data' where "take_memory_snapshot K d (put_td d data0 s) = Some (0, s')"
    and "tracked s' m d data'" and "dirty_pages (ss data') = []"
    and "area_taken K m (config data0) al bl (mem s) (mm_mmap (mms (mem s) m)) data0 data'"
    and "sys_inv K (G(m := (orig_of K m (mem s) data', absent_pages m (mem s) data'))) s'"
    and "pages_made K m (mem s) data' (mem s')" and "wrprotected m (mem s) (mem s')"
    and "taking K m d (invalidate_task_data_cache K (current s) (put_td d data0 s)) s' data'"
proof -
  have rd: "sys_inv K G s" "m = task_mm (tasks s (current s))" "owner s m = current s"
    "registry_map s (current s) = Some d" "tsk data0 = current s" "have_snapshot data0" "no_pages data0"
    "range_list s (Allowlist d) al" "range_list s (Blocklist d) bl" "ranges_aligned al" "ranges_aligned bl"
    "ranges_disjoint al bl" "areas_ok (mm_mmap (mms (mem s) m))" "no_swap (mem s)"
    using assms(1) unfolding ready_to_take_def by blast+
  obtain old where old: "td_heap s d = Some old"
    by (rule registry_map_SomeD [OF sys_invD(1) [OF rd(1)] rd(4)])
  obtain s' data' where r: "take_memory_snapshot K d (put_td d data0 s) = Some (0, s')"
    "tracked s' m d data'" "dirty_pages (ss data') = []"
    "area_taken K m (config data0) al bl (mem s) (mm_mmap (mms (mem s) m)) data0 data'"
    "sys_inv K (G(m := (orig_of K m (mem s) data', absent_pages m (mem s) data'))) s'"
    "taking K m d (invalidate_task_data_cache K (current s) (put_td d data0 s)) s' data'"
    by (rule take_memory_ok [OF rd(1) refl rd(2,3,4) old rd(5-14) assms(2,3)]) blast
  have "mem (invalidate_task_data_cache K (current s) (put_td d data0 s)) = mem s"
    by (simp add: invalidate_task_data_cache_def fold_invalidate_mem)
  with r(6) rd(14) sys_invD(3) [OF rd(1)]
  have "pages_made K m (mem s) data' (mem s')" "wrprotected m (mem s) (mem s')"
    by (auto simp: taking_def)
  with r show ?thesis using that by blast
qed

text \<open>The search over the snapshotted areas, which stops early, is exact for sorted areas.\<close>

lemma snapshotted_in_sorted:
  assumes "map sv_view svs = map area_view vs" and "areas_ok vs"
  shows "snapshotted_in b svs \<longleftrightarrow> (\<exists>v \<in> set vs. vm_start v \<le> b \<and> b < vm_end v)"
  using assms
proof (induction vs arbitrary: svs)
  case Nil
  then show ?case by simp
next
  case (Cons v vs)
  then obtain sv svs' where svs: "svs = sv # svs'" "sv_view sv = area_view v"
    "map sv_view svs' = map area_view vs" by auto
  have IH: "snapshotted_in b svs' \<longleftrightarrow> (\<exists>v \<in> set vs. vm_start v \<le> b \<and> b < vm_end v)"
    using Cons.IH [OF svs(3)] Cons.prems(2) by (simp add: areas_ok_def)
  have later: "vm_start v < vm_start w" if "w \<in> set vs" for w
    using that Cons.prems(2) by (auto simp: areas_ok_def area_ok_def dest!: bspec intro: less_le_trans)
  have bounds: "sv_start sv = vm_start v" "sv_end sv = vm_end v"
    using svs(2) by (simp_all add: sv_view_def area_view_def)
  show ?case
  proof (cases "b < vm_start v")
    case True
    then have "\<not> vm_start w \<le> b" if "w \<in> set vs" for w using later [OF that] by auto
    then show ?thesis using True by (auto simp: svs(1) bounds)
  next
    case False
    then show ?thesis using IH by (auto simp: svs(1) bounds)
  qed
qed

lemma areas_ok_filter: "areas_ok vs \<Longrightarrow> areas_ok (filter P vs)"
  by (simp add: areas_ok_def list_all_iff sorted_wrt_filter)

lemma taken_snapshotted:
  assumes "area_taken K m cfg al bl M vs data0 data'" and "no_pages data0" and "areas_ok vs"
  shows "is_snapshotted_address data' b \<longleftrightarrow>
     (\<exists>v \<in> set vs. selected (mms M m) cfg al v \<and> vm_start v \<le> b \<and> b < vm_end v)"
proof -
  have "map sv_view (snapshotted_vmas (ss data')) = map area_view (filter (selected (mms M m) cfg al) vs)"
    using assms(1,2) by (simp add: area_taken_def no_pages_def)
  from snapshotted_in_sorted [OF this areas_ok_filter [OF assms(3)]]
  show ?thesis by (auto simp: is_snapshotted_address_def)
qed

text \<open>The bytes the snapshot promises for a covered page are the bytes it shows now.\<close>

lemma promised_covered:
  assumes taken: "area_taken K m cfg al bl M vs data0 data'" and fresh: "no_pages data0"
    and vs: "vs = mm_mmap (mms M m)" "areas_ok vs" and made: "pages_made K m M data' M'"
    and b: "covered m cfg al bl M b"
  shows "promised K m (orig_of K m M data') (absent_pages m M data') b = Some (user_view K m M b)"
proof -
  obtain v where v: "v \<in> set vs" "selected (mms M m) cfg al v" "vm_start v \<le> b" "b < vm_end v"
    using b by (auto simp: covered_def list_ex_iff vs(1))
  have sn: "is_snapshotted_address data' b"
    using v taken_snapshotted [OF taken fresh vs(2)] by blast
  show ?thesis
  proof (cases "pte_present (pte_of M m b)")
    case True
    then have "want_page cfg al bl b" using b by (simp add: covered_def)
    with True v taken obtain sp where sp: "get_snapshot_page K b data' = Some sp"
      unfolding area_taken_def by blast
    have "\<not> is_snapshot_page_none_pte sp" using made sp True by (simp add: pages_made_def)
    then show ?thesis using True sp by (simp add: promised_def orig_of_def user_view_def)
  next
    case False
    have "orig_of K m M data' b = None"
      using made False by (auto simp: orig_of_def pages_made_def split: option.split)
    then show ?thesis using False sn by (simp add: promised_def absent_pages_def user_view_def)
  qed
qed

text \<open>The pages whose bytes the snapshot keeps are covered pages with an entry.\<close>

lemma orig_covered:
  assumes taken: "area_taken K m cfg al bl M (mm_mmap (mms M m)) data0 data'" and fresh: "no_pages data0"
    and made: "pages_made K m M data' M'" and b: "orig_of K m M data' b \<noteq> None"
  shows "pte_present (pte_of M m b) \<and> covered m cfg al bl M b"
proof -
  from b obtain sp where sp: "get_snapshot_page K b data' = Some sp" "\<not> is_snapshot_page_none_pte sp"
    by (auto simp: orig_of_def split: option.splits if_splits)
  then have "pte_present (pte_of M m b)" using made by (auto simp: pages_made_def)
  moreover have "covered m cfg al bl M b"
    using taken sp no_pages_get [OF fresh] unfolding area_taken_def covered_def list_ex_iff by blast
  ultimately show ?thesis by simp
qed

section \<open>A concrete run\<close>

text \<open>The process of theory \<open>Memory_Restore\<close> before its snapshot: its first page is writable.\<close>

definition fresh_mem :: mem where
  "fresh_mem = set_pte 0 0x1000 \<lparr>pte_present = True, pte_rw = True, pte_pfn = 0\<rparr> demo_mem"

definition fresh_state :: mem_state where
  "fresh_state = demo_mem_state\<lparr>td_heap := [100 \<mapsto> new_task_data 7], mem := fresh_mem\<rparr>"

definition marked_data :: task_data where
  "marked_data = set_snapshot (set_had_snapshot (new_task_data 7))"

definition fresh_events :: "mem_event list" where
  "fresh_events = [Write_fault 0 0x1008, User_write 0 0x1000 [9]]"

text \<open>The pages the process writes to are in a writable area, and it sees the new bytes.\<close>

definition fresh_check :: "mem_state option \<Rightarrow> bool" where
  "fresh_check out =
     (case out of None \<Rightarrow> False
      | Some s2 \<Rightarrow> area_writable (mem s2) 0 0x1000 \<and> user_view ref_kernel 0 (mem s2) 0x1000 = [9])"

lemmas take_defs =
  run_defs take_memory_snapshot_def take_vma_def add_snapshot_vma_def snapshot_prot_def
  intersect_allowlist_def intersect_blocklist_def list_find_def list_find_from.simps overlaps_at_def
  walk_page_vma_def walk_loop.simps snapshot_pte_entry_def snapshot_walk_check_range_def
  init_walk_data_def make_snapshot_page_def ref_walker_def skip_vma_def is_stack_def
  status_defs new_task_data_def fresh_mem_def config_has_def config_defs
  invalidate_task_data_cache_def invalidate_cpu_def upt_rec vm_flag_defs prot_defs
  ptep_set_wrprotect_def pte_wrprotect_def pte_none_def

lemma fresh_run:
  "fresh_check (do { (r, s1) \<leftarrow> take_memory_snapshot ref_kernel 100 (put_td 100 marked_data fresh_state);
                     run_events ref_kernel fresh_events s1 })"
  by (simp add: take_defs fresh_check_def fresh_events_def marked_data_def fresh_state_def)

lemma fresh_pte: "pte_of fresh_mem m a = (if m = 0 \<and> a = 0x1000 then \<lparr>pte_present = True, pte_rw = True, pte_pfn = 0\<rparr> else empty_pte)"
  by (simp add: fresh_mem_def demo_pte)

lemma fresh_mem_wf: "mem_wf fresh_mem"
  unfolding fresh_mem_def using demo_mem_wf
proof (rule mem_wf_set_pte_flag)
  show "exclusive demo_mem 0 0x1000 \<and> anon_page demo_mem 0 0x1000"
    by (simp add: exclusive_def demo_pte empty_pte_def) (simp add: anon_page_def demo_mem_def)
qed (simp_all add: demo_pte)

lemma fresh_sys_inv: "sys_inv ref_kernel G fresh_state"
proof -
  have ok: "registry_ok fresh_state"
    by (simp add: registry_ok_def fresh_state_def demo_mem_state_def owner_of_def)
  have r: "registry_map fresh_state t = (if t = 7 then Some 100 else None)" for t
    by (simp add: registry_map_def fresh_state_def demo_mem_state_def owner_of_def)
  have l: "last_task fresh_state i = 0" "last_task_data fresh_state i = None" "this_cpu fresh_state = 0" for i
    by (simp_all add: fresh_state_def demo_mem_state_def)
  have "cache_ok ref_kernel fresh_state" by (simp add: cache_ok_def cache_entry_ok_def r l)
  moreover have "mm_owner (mms fresh_mem m) = (if m = 0 then 7 else 0)" for m
    by (simp add: fresh_mem_def demo_mem_def demo_mm_def)
  moreover have "mem fresh_state = fresh_mem" "td_heap fresh_state = [100 \<mapsto> new_task_data 7]"
    by (simp_all add: fresh_state_def)
  ultimately show ?thesis
    using ok fresh_mem_wf by (auto simp: sys_inv_def r split: if_splits)
qed

lemma fresh_ready: "ready_to_take ref_kernel G 0 100 [] [] marked_data fresh_state"
  unfolding ready_to_take_def
proof (intro conjI)
  have m: "mem fresh_state = fresh_mem" by (simp add: fresh_state_def)
  show "owner fresh_state 0 = current fresh_state"
    by (simp add: fresh_state_def fresh_mem_def demo_mem_def demo_mm_def demo_mem_state_def)
  show "registry_map fresh_state (current fresh_state) = Some 100"
    by (simp add: registry_map_def fresh_state_def demo_mem_state_def owner_of_def)
  show "no_pages marked_data" "have_snapshot marked_data" "tsk marked_data = current fresh_state"
    by (simp_all add: marked_data_def no_pages_def status_defs new_task_data_def zero_snapshot_def
          fresh_state_def demo_mem_state_def)
  show "range_list fresh_state (Allowlist 100) []" "range_list fresh_state (Blocklist 100) []"
    by (simp_all add: range_list_def dlist_def fresh_state_def demo_mem_state_def)
  show "areas_ok (mm_mmap (mms (mem fresh_state) 0))"
    by (simp add: m fresh_mem_def demo_mem_def demo_mm_def areas_ok_def area_ok_def page_aligned_def offset_in_page_def)
  show "no_swap (mem fresh_state)" by (simp add: no_swap_def m fresh_pte)
  show "0 = task_mm (tasks fresh_state (current fresh_state))"
    by (simp add: fresh_state_def demo_mem_state_def)
qed (simp_all add: fresh_sys_inv ranges_aligned_def ranges_disjoint_def)

lemma fresh_covered: "covered 0 0 [] [] fresh_mem 0x1000" "covered 0 0 [] [] fresh_mem 0x2000"
  by (simp_all add: covered_def selected_def skip_vma_def fresh_mem_def demo_mem_def demo_mm_def vm_flag_defs
        config_has_def want_page_def)

section \<open>The theorems\<close>

text \<open>C7. \<open>take_memory_snapshot\<close> succeeds, records every area of the process (its bounds,
  whether it is private anonymous memory, and, whatever its protection, that it is writable) and,
  as snapshotted, exactly the selected ones, in order; among the pages with an entry it tracks
  exactly the covered ones; the process sees the same bytes as before; and the invariant holds
  for every process, with the bytes and absent pages of this moment as what the snapshot of
  the calling process promises.\<close>

theorem take_memory_tracks:
  assumes "ready_to_take K G m d al bl data0 s" and "no_oom K" and "vma_walker_law K"
  shows "\<exists>s' data'. take_memory_snapshot K d (put_td d data0 s) = Some (0, s') \<and> tracked s' m d data' \<and>
     map sv_view (all_vmas (ss data')) = map area_view (mm_mmap (mms (mem s) m)) \<and>
     map sv_view (snapshotted_vmas (ss data')) =
       map area_view (filter (selected (mms (mem s) m) (config data0) al) (mm_mmap (mms (mem s) m))) \<and>
     (\<forall>b. pte_present (pte_of (mem s) m b) \<longrightarrow>
        (get_snapshot_page K b data' \<noteq> None \<longleftrightarrow> covered m (config data0) al bl (mem s) b)) \<and>
     (\<forall>n b. user_view K n (mem s') b = user_view K n (mem s) b) \<and>
     sys_inv K (G(m := (orig_of K m (mem s) data', absent_pages m (mem s) data'))) s'"
proof -
  obtain s' data' where r: "take_memory_snapshot K d (put_td d data0 s) = Some (0, s')"
    "tracked s' m d data'"
    and taken: "area_taken K m (config data0) al bl (mem s) (mm_mmap (mms (mem s) m)) data0 data'"
    and inv: "sys_inv K (G(m := (orig_of K m (mem s) data', absent_pages m (mem s) data'))) s'"
    and w: "wrprotected m (mem s) (mem s')"
    by (rule ready_to_takeE [OF assms])
  have fresh: "no_pages data0" using assms(1) by (simp add: ready_to_take_def)
  have "get_snapshot_page K b data' \<noteq> None \<longleftrightarrow> covered m (config data0) al bl (mem s) b"
    if "pte_present (pte_of (mem s) m b)" for b
    using that taken no_pages_get [OF fresh] unfolding area_taken_def covered_def list_ex_iff by blast
  moreover have "user_view K n (mem s') b = user_view K n (mem s) b" for n b
    by (simp add: user_view_def wrprotected_pte(1) [OF w] wrprotected_same(1) [OF w])
  ultimately show ?thesis
    using r inv taken fresh by (intro exI [of _ s'] exI [of _ data']) (simp add: area_taken_def no_pages_def)
qed

theorem take_memory_tracks_witness:
  "\<exists>s' data'. take_memory_snapshot ref_kernel 100 (put_td 100 marked_data fresh_state) = Some (0, s') \<and>
     tracked s' 0 100 data' \<and> get_snapshot_page ref_kernel 0x1000 data' \<noteq> None \<and>
     map sv_view (snapshotted_vmas (ss data')) = [(0x1000, 0x3000, True, True)]"
proof -
  have m: "mem fresh_state = fresh_mem" "config marked_data = 0"
    by (simp_all add: fresh_state_def marked_data_def)
  have "filter (selected (mms fresh_mem 0) 0 []) (mm_mmap (mms fresh_mem 0)) = mm_mmap (mms fresh_mem 0)"
    "map area_view (mm_mmap (mms fresh_mem 0)) = [(0x1000, 0x3000, True, True)]"
    by (simp_all add: selected_def skip_vma_def fresh_mem_def demo_mem_def demo_mm_def vm_flag_defs
          config_has_def area_view_def)
  with take_memory_tracks [OF fresh_ready ref_no_oom ref_vma_walker_law] fresh_covered(1)
  show ?thesis unfolding m by (metis fresh_pte pte.select_convs(1))
qed

text \<open>C9. The round trip: after taking a snapshot and any sequence of memory events, recovering
  the dirty pages shows the process, at every covered page, what it saw when the snapshot was
  taken. The pages that had an entry must lie in writable areas at that point.\<close>

theorem snapshot_roundtrip:
  assumes ready: "ready_to_take K G m d al bl data0 s" and oom: "no_oom K"
    and laws: "vma_walker_law K" "memory_laws K" "restore_laws K"
    and take: "take_memory_snapshot K d (put_td d data0 s) = Some (r, s1)"
    and run: "run_events K es s1 = Some s2"
    and areas: "\<forall>b. pte_present (pte_of (mem s) m b) \<and> covered m (config data0) al bl (mem s) b \<longrightarrow>
                  area_writable (mem s2) m b"
  shows "\<exists>s3. recover_process K m d s2 = Some s3 \<and>
     (\<forall>b. covered m (config data0) al bl (mem s) b \<longrightarrow> user_view K m (mem s3) b = user_view K m (mem s) b)"
proof -
  obtain s' data' where r: "take_memory_snapshot K d (put_td d data0 s) = Some (0, s')"
    and tr: "tracked s' m d data'"
    and taken: "area_taken K m (config data0) al bl (mem s) (mm_mmap (mms (mem s) m)) data0 data'"
    and inv: "sys_inv K (G(m := (orig_of K m (mem s) data', absent_pages m (mem s) data'))) s'"
    and made: "pages_made K m (mem s) data' (mem s')"
    by (rule ready_to_takeE [OF ready oom laws(1)])
  have s1: "s' = s1" using r take by simp
  have fresh: "no_pages data0" and ok: "areas_ok (mm_mmap (mms (mem s) m))"
    using ready unfolding ready_to_take_def by blast+
  let ?G = "G(m := (orig_of K m (mem s) data', absent_pages m (mem s) data'))"
  have area: "area_writable (mem s2) m b" if "fst (?G m) b \<noteq> None" for b
    using orig_covered [OF taken fresh made] that areas by simp
  obtain s3 data3 where rec: "recover_process K m d s2 = Some s3"
    and view: "\<And>b p. promised K m (fst (?G m)) (snd (?G m)) b = Some p \<Longrightarrow> user_view K m (mem s3) b = p"
    by (rule rollback [OF inv oom laws(2,3) tr run [folded s1] area]) blast+
  have "user_view K m (mem s3) b = user_view K m (mem s) b" if "covered m (config data0) al bl (mem s) b" for b
    using promised_covered [OF taken fresh refl ok made that] by (intro view) simp
  with rec show ?thesis by blast
qed

theorem snapshot_roundtrip_witness:
  "\<exists>r s1 s2 s3. take_memory_snapshot ref_kernel 100 (put_td 100 marked_data fresh_state) = Some (r, s1) \<and>
     run_events ref_kernel fresh_events s1 = Some s2 \<and> user_view ref_kernel 0 (mem s2) 0x1000 = [9] \<and>
     recover_process ref_kernel 0 100 s2 = Some s3 \<and> user_view ref_kernel 0 (mem s3) 0x1000 = demo_page"
proof -
  obtain r s1 s2 where take: "take_memory_snapshot ref_kernel 100 (put_td 100 marked_data fresh_state) = Some (r, s1)"
    and run: "run_events ref_kernel fresh_events s1 = Some s2"
    and area: "area_writable (mem s2) 0 0x1000" and nine: "user_view ref_kernel 0 (mem s2) 0x1000 = [9]"
    using fresh_run by (auto simp: fresh_check_def split: option.splits Option.bind_splits)
  have m: "mem fresh_state = fresh_mem" "config marked_data = 0"
    by (simp_all add: fresh_state_def marked_data_def)
  have "\<forall>b. pte_present (pte_of (mem fresh_state) 0 b) \<and> covered 0 (config marked_data) [] [] (mem fresh_state) b \<longrightarrow>
      area_writable (mem s2) 0 b"
    using area by (simp add: m fresh_pte empty_pte_def)
  from snapshot_roundtrip [OF fresh_ready ref_no_oom ref_vma_walker_law ref_memory_laws take run this]
  obtain s3 where "recover_process ref_kernel 0 100 s2 = Some s3"
    "user_view ref_kernel 0 (mem s3) 0x1000 = user_view ref_kernel 0 fresh_mem 0x1000"
    using fresh_covered(1) by (auto simp: m)
  moreover have "user_view ref_kernel 0 fresh_mem 0x1000 = demo_page"
    by (simp add: user_view_def fresh_pte content_def) (simp add: fresh_mem_def demo_mem_def)
  ultimately show ?thesis using take run nine by metis
qed

end
