(* ===== verification/Frame.thy ===== *)
theory Frame
  imports Restore Threads Take_Theorems
begin

text \<open>
  What the memory code leaves alone: the threads, the registry list, the allow and block lists,
  and everything the other components keep in the same state. The lemmas go from the
  primitives to the hooks, the memory events and the two restore functions.
\<close>

section \<open>The frame\<close>

definition same_env :: "'s mem_state_scheme \<Rightarrow> 's mem_state_scheme \<Rightarrow> bool" where
  "same_env s s' \<longleftrightarrow>
     tasks s' = tasks s \<and> current s' = current s \<and> task_data_list s' = task_data_list s \<and>
     rcu_pending s' = rcu_pending s \<and> lheap s' = lheap s \<and> vmranges s' = vmranges s \<and>
     mem_state.more s' = mem_state.more s \<and> alloc_next s \<le> alloc_next s'"

named_theorems frame_intros \<open>the frame of each operation\<close>

lemma same_env_refl [simp]: "same_env s s"
  by (simp add: same_env_def)

lemma same_env_trans: "same_env s s' \<Longrightarrow> same_env s' s'' \<Longrightarrow> same_env s s''"
  by (auto simp: same_env_def)

lemma same_env_simps [simp]:
  "same_env s (put_td d data s') = same_env s s'"
  "same_env s (s'\<lparr>mem := M\<rparr>) = same_env s s'"
  "same_env s (s'\<lparr>tlb_flushes := fl\<rparr>) = same_env s s'"
  "same_env s (s'\<lparr>last_task := lt\<rparr>) = same_env s s'"
  "same_env s (s'\<lparr>last_task_data := ld\<rparr>) = same_env s s'"
  "same_env s (s'\<lparr>this_cpu := c\<rparr>) = same_env s s'"
  "same_env s (flush_tlb m st en s') = same_env s s'"
  by (simp_all add: same_env_def put_td_def flush_tlb_def)

text \<open>The fields of the other components.\<close>

lemma same_env_files:
  assumes "same_env s s'"
  shows "files_structs s' = files_structs s" and "file_objects s' = file_objects s"
proof -
  have more: "mem_state.more s' = mem_state.more s" using assms by (simp add: same_env_def)
  show "files_structs s' = files_structs s" "file_objects s' = file_objects s"
    using more by (cases s, cases s', simp)+
qed

lemma same_env_more: "same_env s s' \<Longrightarrow> files_state.more s' = files_state.more s"
  by (cases s, cases s') (simp add: same_env_def)

lemma same_env_signals: "same_env s s' \<Longrightarrow> sent_signals s' = sent_signals s"
  by (cases s, cases s') (simp add: same_env_def)

section \<open>The hooks\<close>

lemma lookup_frame [frame_intros]:
  "get_task_data_with_cache t s = Some (r, s') \<Longrightarrow> same_env s s'"
  by (auto simp: get_task_data_with_cache_def Let_def split: if_splits Option.bind_splits)

lemma kmalloc_frame [frame_intros]: "kmalloc K s = (r, s') \<Longrightarrow> same_env s s'"
  by (auto simp: kmalloc_def same_env_def split: if_splits)

lemma record_dirty_page_frame [frame_intros]:
  "record_dirty_page K a p data s = (r, data', s') \<Longrightarrow> same_env s s'"
  by (auto simp: record_dirty_page_def Let_def split: option.splits if_splits prod.splits
      dest: kmalloc_frame)

lemma add_snapshot_page_frame [frame_intros]:
  "add_snapshot_page K b re data s = (r, data', s') \<Longrightarrow> same_env s s'"
  by (auto simp: add_snapshot_page_def Let_def split: option.splits if_splits prod.splits
      dest: kmalloc_frame)

lemma munmap_entries_frame [frame_intros]:
  "munmap_pte_entries K m as data s = (data', s') \<Longrightarrow> same_env s s'"
proof (induction as arbitrary: data s)
  case (Cons a as)
  obtain r data1 s1 where one: "record_dirty_page K a (pte_of (mem s) m a) data s = (r, data1, s1)"
    by (cases "record_dirty_page K a (pte_of (mem s) m a) data s")
  with Cons.prems have "munmap_pte_entries K m as data1 s1 = (data', s')" by simp
  then have "same_env s1 s'" by (rule Cons.IH)
  with record_dirty_page_frame [OF one] show ?case by (rule same_env_trans)
qed simp

lemma do_munmap_hook_frame [frame_intros]:
  assumes "do_munmap_hook K m st len s = Some s'"
  shows "same_env s s'"
proof -
  from assms obtain r s1 where look: "get_task_data_with_cache (owner s m) s = Some (r, s1)"
    by (auto simp: do_munmap_hook_def Let_def split: Option.bind_splits)
  have "same_env s1 s'"
    using assms look
    by (auto simp: do_munmap_hook_def Let_def split: option.splits Option.bind_splits if_splits prod.splits
        dest: munmap_entries_frame)
  with lookup_frame [OF look] show ?thesis by (rule same_env_trans)
qed

lemma vm_munmap_frame [frame_intros]:
  "vm_munmap K m st len s = Some (r, s') \<Longrightarrow> same_env s s'"
  by (auto simp: vm_munmap_def Let_def split: Option.bind_splits prod.splits dest: do_munmap_hook_frame)

lemma do_wp_page_hook_frame [frame_intros]:
  assumes "do_wp_page_hook K fault s = Some (out, s')"
  shows "same_env s s'"
proof -
  from assms obtain r s1 where look: "get_task_data_with_cache (owner s (vf_mm fault)) s = Some (r, s1)"
    by (auto simp: do_wp_page_hook_def Let_def split: Option.bind_splits)
  have "same_env s1 s'"
    using assms look
    by (auto simp: do_wp_page_hook_def Let_def split: option.splits Option.bind_splits if_splits prod.splits
        dest: record_dirty_page_frame)
  with lookup_frame [OF look] show ?thesis by (rule same_env_trans)
qed

lemma anon_rmap_hook_frame [frame_intros]:
  assumes "page_add_new_anon_rmap_hook K m addr s = Some s'"
  shows "same_env s s'"
proof -
  from assms obtain r s1 where look: "get_task_data_with_cache (owner s m) s = Some (r, s1)"
    by (auto simp: page_add_new_anon_rmap_hook_def Let_def split: Option.bind_splits)
  have "same_env s1 s'"
    using assms look
    by (auto simp: page_add_new_anon_rmap_hook_def Let_def split: option.splits Option.bind_splits if_splits prod.splits
        dest: add_snapshot_page_frame)
  with lookup_frame [OF look] show ?thesis by (rule same_env_trans)
qed

lemma mem_event_frame [frame_intros]:
  "mem_event_step K e s = Some s' \<Longrightarrow> same_env s s'"
  by (cases e) (auto simp: Let_def split: if_splits Option.bind_splits wp_outcome.splits prod.splits
      dest: do_wp_page_hook_frame anon_rmap_hook_frame vm_munmap_frame
      intro: same_env_trans [OF do_wp_page_hook_frame anon_rmap_hook_frame])

lemma run_events_frame [frame_intros]:
  "run_events K es s = Some s' \<Longrightarrow> same_env s s'"
proof (induction es arbitrary: s)
  case (Cons e es)
  then show ?case by (auto split: Option.bind_splits dest: mem_event_frame intro: same_env_trans)
qed simp

section \<open>Faults keep the areas\<close>

definition same_areas :: "mem \<Rightarrow> mem \<Rightarrow> bool" where
  "same_areas M M' \<longleftrightarrow>
     (\<forall>n. mm_mmap (mms M' n) = mm_mmap (mms M n) \<and> mm_brk (mms M' n) = mm_brk (mms M n))"

lemma same_areas_simps [simp]:
  "same_areas M M" "same_areas M (M'\<lparr>frames := fr\<rparr>) = same_areas M M'"
  "same_areas M (set_pte m a p M') = same_areas M M'"
  by (auto simp: same_areas_def set_pte_def)

lemma same_areas_trans: "same_areas M M' \<Longrightarrow> same_areas M' M'' \<Longrightarrow> same_areas M M''"
  by (simp add: same_areas_def)

lemma only_page_same_areas: "only_page m a M M' \<Longrightarrow> same_areas M M'"
  by (simp add: only_page_def same_areas_def)

lemma same_areas_writable: "same_areas M M' \<Longrightarrow> area_writable M' m a = area_writable M m a"
  by (simp add: same_areas_def area_writable_def)

lemma lookup_mem: "get_task_data_with_cache t s = Some (r, s') \<Longrightarrow> mem s' = mem s"
  by (auto simp: get_task_data_with_cache_def Let_def split: if_splits Option.bind_splits)

lemma kmalloc_mem: "kmalloc K s = (r, s') \<Longrightarrow> mem s' = mem s"
  by (auto simp: kmalloc_def split: if_splits)

lemma record_dirty_page_mem: "record_dirty_page K a p data s = (r, data', s') \<Longrightarrow> mem s' = mem s"
  by (auto simp: record_dirty_page_def Let_def split: option.splits if_splits prod.splits dest: kmalloc_mem)

lemma add_snapshot_page_mem: "add_snapshot_page K b re data s = (r, data', s') \<Longrightarrow> mem s' = mem s"
  by (auto simp: add_snapshot_page_def Let_def split: option.splits if_splits prod.splits dest: kmalloc_mem)

lemma do_wp_page_hook_areas:
  assumes "do_wp_page_hook K fault s = Some (out, s')"
  shows "same_areas (mem s) (mem s')" and "out = Run_original \<Longrightarrow> mem s' = mem s"
proof -
  from assms obtain r s1 where look: "get_task_data_with_cache (owner s (vf_mm fault)) s = Some (r, s1)"
    by (auto simp: do_wp_page_hook_def Let_def split: Option.bind_splits)
  have "same_areas (mem s1) (mem s') \<and> (out = Run_original \<longrightarrow> mem s' = mem s1)"
    using assms look
    by (auto simp: do_wp_page_hook_def Let_def flush_tlb_def split: option.splits Option.bind_splits if_splits prod.splits
        dest!: record_dirty_page_mem)
  with lookup_mem [OF look] show "same_areas (mem s) (mem s')" "out = Run_original \<Longrightarrow> mem s' = mem s" by auto
qed

lemma anon_rmap_hook_mem:
  assumes "page_add_new_anon_rmap_hook K m addr s = Some s'"
  shows "mem s' = mem s"
proof -
  from assms obtain r s1 where look: "get_task_data_with_cache (owner s m) s = Some (r, s1)"
    by (auto simp: page_add_new_anon_rmap_hook_def Let_def split: Option.bind_splits)
  have "mem s' = mem s1"
    using assms look
    by (auto simp: page_add_new_anon_rmap_hook_def Let_def split: option.splits Option.bind_splits if_splits prod.splits
        dest: add_snapshot_page_mem)
  with lookup_mem [OF look] show ?thesis by simp
qed

fun is_fault :: "mem_event \<Rightarrow> bool" where
  "is_fault (Unmap m st len) = False"
| "is_fault (Set_areas m vs brk) = False"
| "is_fault e = True"

lemma write_fault_areas:
  assumes wf: "mem_wf (mem s)" and law: "wp_page_law K"
    and step: "mem_event_step K (Write_fault m addr) s = Some s'"
  shows "same_areas (mem s) (mem s')"
proof -
  let ?b = "addr AND PAGE_MASK"
  let ?pte = "pte_of (mem s) m ?b"
  show ?thesis
  proof (cases "pte_present ?pte \<and> \<not> pte_rw ?pte")
    case False
    with step show ?thesis by (auto simp: Let_def)
  next
    case True
    then obtain out s1 where hook: "do_wp_page_hook K \<lparr>vf_mm = m, vf_address = addr, vf_orig_pte = ?pte\<rparr> s = Some (out, s1)"
      using step by (auto simp: Let_def split: Option.bind_splits)
    show ?thesis
    proof (cases out)
      case Skip_original
      with hook step True do_wp_page_hook_areas(1) [OF hook] show ?thesis by (simp add: Let_def)
    next
      case Run_original
      have mem1: "mem s1 = mem s" using do_wp_page_hook_areas(2) [OF hook Run_original] .
      obtain s2 where s2: "(if wp_copies K m ?b (mem s1) then page_add_new_anon_rmap_hook K m addr s1 else Some s1) = Some s2"
        and s': "s' = s2\<lparr>mem := do_wp_page K m ?b (mem s2)\<rparr>"
        using step hook True Run_original by (auto simp: Let_def split: Option.bind_splits)
      have mem2: "mem s2 = mem s" using s2 mem1 by (auto split: if_splits dest: anon_rmap_hook_mem)
      have "only_page m ?b (mem s) (do_wp_page K m ?b (mem s))"
        using law wf True by (simp add: wp_page_law_def Let_def)
      then show ?thesis by (simp add: s' mem2 only_page_same_areas)
    qed
  qed
qed

lemma fault_areas:
  assumes "is_fault e" and wf: "mem_wf (mem s)" and laws: "memory_laws K" and step: "mem_event_step K e s = Some s'"
  shows "same_areas (mem s) (mem s')"
proof (cases e)
  case (Write_fault m addr)
  with wf laws step show ?thesis by (auto simp: memory_laws_def intro: write_fault_areas)
next
  case (Read_fault m addr)
  have "only_page m (addr AND PAGE_MASK) (mem s) (do_read_fault K m (addr AND PAGE_MASK) (mem s))"
    if "\<not> pte_present (pte_of (mem s) m (addr AND PAGE_MASK))"
    using laws wf that page_base_aligned by (simp add: memory_laws_def read_fault_law_def Let_def)
  with step Read_fault show ?thesis by (auto simp: Let_def split: if_splits intro: only_page_same_areas)
next
  case (Anon_fault m addr)
  have "only_page m (addr AND PAGE_MASK) (mem s) (do_anonymous_page K m (addr AND PAGE_MASK) (mem s))"
    if "\<not> pte_present (pte_of (mem s) m (addr AND PAGE_MASK))"
    using laws wf that page_base_aligned by (simp add: memory_laws_def anon_page_law_def Let_def)
  with step Anon_fault show ?thesis
    by (auto simp: Let_def anon_rmap_hook_mem split: if_splits Option.bind_splits intro: only_page_same_areas)
qed (use assms in \<open>auto simp: Let_def split: if_splits\<close>)

lemma faults_areas:
  assumes "list_all is_fault es" and "sys_inv K G s" and "no_oom K" and "memory_laws K"
    and "run_events K es s = Some s'"
  shows "same_areas (mem s) (mem s')"
  using assms(1,2,5)
proof (induction es arbitrary: s)
  case (Cons e es)
  from sys_inv_event [OF Cons.prems(2) assms(3,4), of e] obtain s1 where
    e: "mem_event_step K e s = Some s1" and inv1: "sys_inv K G s1" by blast
  have "same_areas (mem s) (mem s1)"
    using Cons.prems(1) by (intro fault_areas [OF _ sys_invD(3) [OF Cons.prems(2)] assms(4) e]) simp
  moreover have "same_areas (mem s1) (mem s')"
    using Cons.prems(1,3) e inv1 by (intro Cons.IH) simp_all
  ultimately show ?case by (rule same_areas_trans)
qed simp

section \<open>Invalidation, the break and the recovery\<close>

lemma invalidate_cpu_frame: "same_env s (invalidate_cpu t i s)"
  by (simp add: invalidate_cpu_def)

lemma invalidate_frame [frame_intros]: "same_env s (invalidate_task_data_cache K t s)"
proof -
  have "same_env s (fold (invalidate_cpu t) is s)" for "is"
    by (induction "is" arbitrary: s) (auto intro: same_env_trans invalidate_cpu_frame)
  then show ?thesis by (simp add: invalidate_task_data_cache_def)
qed

text \<open>\<open>munmap\<close> takes no page outside its range out of a writable area.\<close>

definition munmap_areas_law :: "'k kernel_scheme \<Rightarrow> bool" where
  "munmap_areas_law K \<longleftrightarrow>
     (\<forall>m st len M a. mem_wf M \<longrightarrow> page_aligned a \<longrightarrow> a \<notin> {st ..< st + len} \<longrightarrow> area_writable M m a \<longrightarrow>
        area_writable (snd (do_munmap K m st len M)) m a)"

lemma ref_munmap_areas_law: "munmap_areas_law ref_kernel"
proof -
  have piece: "\<exists>w \<in> set (cut_area st en i v). vm_start w \<le> a \<and> a < vm_end w \<and> vm_flags w = vm_flags v"
    if "vm_start v \<le> a" "a < vm_end v" "\<not> (st \<le> a \<and> a < en)" for st en i v a
    using that by (auto simp: cut_area_def)
  show ?thesis
    unfolding munmap_areas_law_def area_writable_def list_ex_iff
    using piece by (fastforce simp: ref_munmap_def)
qed

text \<open>The break is restored, or an error is reported, and the snapshots stay intact, when the
  break has to stay or to move down.\<close>

lemma restore_brk_ok:
  assumes inv: "sys_inv K G s" and oom: "no_oom K" and laws: "memory_laws K"
    and down: "b \<le> mm_brk (mms (mem s) (task_mm (tasks s (current s)))) \<or>
         PAGE_ALIGN (mm_brk (mms (mem s) (task_mm (tasks s (current s))))) = PAGE_ALIGN b"
  obtains r s' where "restore_brk K b s = Some (r, s')" and "sys_inv K G s'" and "same_tasks s s'"
    and "same_env s s'" and "r = 0 \<longrightarrow> mm_brk (mms (mem s') (task_mm (tasks s (current s)))) = b"
    and "\<And>a. munmap_areas_law K \<Longrightarrow> page_aligned a \<Longrightarrow> area_writable (mem s) (task_mm (tasks s (current s))) a \<Longrightarrow>
           a \<notin> {b ..< mm_brk (mms (mem s) (task_mm (tasks s (current s))))} \<Longrightarrow>
           area_writable (mem s') (task_mm (tasks s (current s))) a"
proof -
  define m where "m = task_mm (tasks s (current s))"
  define brk where "brk = mm_brk (mms (mem s) m)"
  let ?f = "\<lambda>mm. mm\<lparr>mm_brk := b\<rparr>"
  have set: "sys_inv K G (s1\<lparr>mem := upd_mm m ?f (mem s1)\<rparr>) \<and> same_tasks s (s1\<lparr>mem := upd_mm m ?f (mem s1)\<rparr>)"
    if "sys_inv K G s1" "same_tasks s s1" for s1
    using sys_inv_areas [OF that(1), of ?f m] same_tasks_mem [of "upd_mm m ?f (mem s1)" s1] that(2)
    by (auto intro: same_tasks_trans)
  show ?thesis
  proof (cases "PAGE_ALIGN brk = PAGE_ALIGN b")
    case True
    then have "restore_brk K b s = Some (0, s\<lparr>mem := upd_mm m ?f (mem s)\<rparr>)"
      by (simp add: restore_brk_def Let_def m_def brk_def)
    then show ?thesis
      by (rule that) (use set [OF inv same_tasks_refl] in \<open>simp_all add: m_def area_writable_def\<close>)
  next
    case False
    with down have le: "b \<le> brk" by (simp add: m_def brk_def)
    obtain r s1 where mu: "vm_munmap K m b (brk - b) s = Some (r, s1)"
      and s1: "sys_inv K G s1" "same_tasks s s1" and run: "do_munmap K m b (brk - b) (mem s) = (r, mem s1)"
      by (rule sys_inv_unmap [OF inv oom]) (use laws in \<open>auto simp: memory_laws_def\<close>)
    have env: "same_env s s1" using mu by (rule vm_munmap_frame)
    have area: "area_writable (mem s1) m a"
      if "munmap_areas_law K" "page_aligned a" "area_writable (mem s) m a" "a \<notin> {b ..< brk}" for a
      using that(1) [unfolded munmap_areas_law_def, rule_format, OF sys_invD(3) [OF inv] that(2) _ that(3), of b "brk - b"]
        that(4) run by simp
    have keep: "area_writable (upd_mm m ?f M) m a = area_writable M m a" for M a
      by (simp add: area_writable_def)
    note run = restore_brk_unmap [OF m_def brk_def False le mu]
    show ?thesis
    proof (cases "r < 0")
      case True
      with run have "restore_brk K b s = Some (- 1, s1)" by simp
      then show ?thesis using s1 env by (rule that) (use True area in \<open>simp_all add: m_def brk_def\<close>)
    next
      case False
      with run have "restore_brk K b s = Some (0, s1\<lparr>mem := upd_mm m ?f (mem s1)\<rparr>)" by simp
      then show ?thesis by (rule that) (use set [OF s1] env area keep in \<open>simp_all add: m_def brk_def\<close>)
    qed
  qed
qed

lemma recover_process_frame:
  assumes "page_inv K m orig U data (mem s)" and "mem_wf (mem s)" and "restore_laws K"
    and "td_heap s d = Some data" and "\<And>b. orig b \<noteq> None \<Longrightarrow> area_writable (mem s) m b"
    and "recover_process K m d s = Some s'"
  shows "same_env s s'" and "\<exists>data'. td_heap s' = (td_heap s)(d \<mapsto> data') \<and> same_but_pages data data'"
    and "same_tasks s s'" and "mm_mmap (mms (mem s') m) = mm_mmap (mms (mem s) m)"
proof -
  from recover_dirty_pages_ok [OF assms(1-3) refl assms(5)] obtain data' M' fl where
    run: "recover_dirty_pages K m m (dirty_pages (ss data)) data s = Some (data', s\<lparr>mem := M', tlb_flushes := fl\<rparr>)"
    and same: "same_but_pages data data'"
    and own: "\<And>n. mm_owner (mms M' n) = mm_owner (mms (mem s) n)"
    and areas: "\<And>n. mm_mmap (mms M' n) = mm_mmap (mms (mem s) n)" by blast
  let ?s1 = "s\<lparr>mem := M', tlb_flushes := fl\<rparr>"
  have r: "registry_map ?s1 = registry_map s"
    by (rule registry_map_cong) (simp_all add: owner_of_def fun_eq_iff)
  have "same_tasks s ?s1" using own by (intro same_tasksI r) simp_all
  moreover have "same_tasks ?s1 (put_td d data' ?s1)"
    using same assms(4) by (intro same_tasks_put_td) simp_all
  ultimately have st: "same_tasks s (put_td d data' ?s1)" by (rule same_tasks_trans)
  have "s' = put_td d data' (s\<lparr>mem := M', tlb_flushes := fl\<rparr>)"
    using assms(4,6) run by (simp add: recover_process_def)
  with same st areas show "same_env s s'" "\<exists>data'. td_heap s' = (td_heap s)(d \<mapsto> data') \<and> same_but_pages data data'"
    "same_tasks s s'" "mm_mmap (mms (mem s') m) = mm_mmap (mms (mem s) m)" by auto
qed

section \<open>Storing data\<close>

text \<open>Storing data with the same pages keeps the invariant.\<close>

lemma store_same_pages:
  assumes inv: "sys_inv K G s" and tr: "tracked s m d data" and same: "tsk data' = tsk data"
    "status (ss data') = status (ss data)" "ss_pages (ss data') = ss_pages (ss data)"
    "dirty_pages (ss data') = dirty_pages (ss data)" "snapshotted_vmas (ss data') = snapshotted_vmas (ss data)"
  shows "sys_inv K G (put_td d data' s)" and "tracked (put_td d data' s) m d data'"
proof -
  let ?s = "put_td d data' s"
  have d: "registry_map s (owner s m) = Some d" "td_heap s d = Some data" "have_snapshot data"
    using tr by (simp_all add: tracked_def)
  have have': "have_snapshot data'" using d(3) by (simp add: have_snapshot_def same)
  have r: "registry_map ?s = registry_map s" using d(2) same(1) by (rule registry_map_put_td)
  have pages: "page_inv K m orig U data' M = page_inv K m orig U data M" for orig U M
    by (simp add: page_inv_def get_snapshot_page_def pages_ok_def is_snapshotted_address_def same)
  have "registry_ok ?s" using sys_invD(1) [OF inv] d(2) same(1) by (rule registry_ok_put_td)
  moreover have "cache_ok K ?s"
    using sys_invD(2) [OF inv]
    by (rule cache_ok_cong [rotated -1]) (simp_all add: r d(2,3) same split: if_splits)
  moreover have "page_inv K m' (fst (G m')) (snd (G m')) x (mem s)"
    if "registry_map s (owner s m') = Some e" "td_heap ?s e = Some x" "have_snapshot x" for m' e x
  proof (cases "e = d")
    case True
    with that d have "x = data'" "m' = m" using sys_invD(5) [OF inv d(1), of m'] by auto
    then show ?thesis using sys_inv_tracked [OF inv tr] by (simp add: pages)
  next
    case False
    with that sys_invD(4) [OF inv that(1), of x] show ?thesis by simp
  qed
  ultimately show "sys_inv K G ?s"
    using inv unfolding sys_inv_def r put_td_mem by blast
  show "tracked ?s m d data'" using d have' by (simp add: tracked_def r)
qed

end
