(* ===== verification/Areas.thy ===== *)
theory Areas
  imports Frame
begin

text \<open>
  What \<open>restore_vmas\<close> achieves. The function walks over the current areas and over the areas of
  the snapshot at the same time, from boundary to boundary. It works when no current area
  spans a hole of the snapshot and none begins right behind memory that has to be mapped
  again; theory \<open>Restore\<close> shows what happens to an area that spans a hole.
\<close>

section \<open>Lists of areas\<close>

definition layout_ok :: "vm_area list \<Rightarrow> bool" where
  "layout_ok vs \<longleftrightarrow> areas_ok vs \<and> distinct (map vma_id vs)"

definition svs_ok :: "snapshot_vma list \<Rightarrow> bool" where
  "svs_ok svs \<longleftrightarrow>
     list_all (\<lambda>x. page_aligned (sv_start x) \<and> page_aligned (sv_end x) \<and> sv_start x < sv_end x) svs \<and>
     sorted_wrt (\<lambda>x y. sv_end x \<le> sv_start y) svs"

definition flags_at :: "vm_area list \<Rightarrow> u64 \<Rightarrow> u64 option" where
  "flags_at vs a = map_option vm_flags (find (\<lambda>v. vm_start v \<le> a \<and> a < vm_end v) vs)"

text \<open>What was recorded of an address: whether it was private anonymous memory, and whether it would
  be writable if it were mapped again.\<close>

definition saved_at :: "saved_area list \<Rightarrow> u64 \<Rightarrow> (bool \<times> bool) option" where
  "saved_at old a = map_option (\<lambda>(_, _, k). k) (find (\<lambda>(st, en, _). st \<le> a \<and> a < en) old)"

abbreviation remembered :: "snapshot_vma list \<Rightarrow> u64 \<Rightarrow> (bool \<times> bool) option" where
  "remembered svs \<equiv> saved_at (map sv_view svs)"

text \<open>
  What an address should be after the restore, given what the snapshot recorded of it and the
  flags of the current area: memory outside the snapshot is unmapped, memory that is still
  there stays, and missing memory comes back if it was private and anonymous.
\<close>

fun area_restored :: "(bool \<times> bool) option \<Rightarrow> u64 option \<Rightarrow> u64 option \<Rightarrow> bool" where
  "area_restored None before after = (after = None)"
| "area_restored (Some _) (Some f) after = (after = Some f)"
| "area_restored (Some (anon, writable)) None after =
     (case after of
        None \<Rightarrow> \<not> anon
      | Some f \<Rightarrow> anon \<and> (f AND VM_WRITE \<noteq> 0) = writable)"

text \<open>An area that reaches from before a hole of the snapshot to behind it.\<close>

definition spans_hole :: "saved_area list \<Rightarrow> vm_area \<Rightarrow> bool" where
  "spans_hole old v \<longleftrightarrow>
     list_ex (\<lambda>(_, hole, _). vm_start v < hole \<and> list_all (\<lambda>(st, _). st \<noteq> hole) old \<and>
       list_ex (\<lambda>(st, _). hole < st \<and> st < vm_end v) old) old"

text \<open>An area that begins right behind private anonymous memory that is missing now.\<close>

definition after_missing :: "saved_area list \<Rightarrow> vm_area list \<Rightarrow> vm_area \<Rightarrow> bool" where
  "after_missing old vs v \<longleftrightarrow>
     list_ex (\<lambda>(st, en, anon, _). anon \<and> st < vm_start v \<and> vm_start v \<le> en) old \<and>
     \<not> list_ex (\<lambda>w. vm_end w = vm_start v) vs"

definition restorable :: "saved_area list \<Rightarrow> vm_area list \<Rightarrow> bool" where
  "restorable old vs \<longleftrightarrow> layout_ok vs \<and> list_all (\<lambda>v. \<not> spans_hole old v \<and> \<not> after_missing old vs v) vs"

section \<open>What the kernel does to the list\<close>

text \<open>Unmapping the front, the back or all of an area leaves the object with the rest.\<close>

definition trim :: "u64 \<Rightarrow> u64 \<Rightarrow> vm_area \<Rightarrow> vm_area list" where
  "trim st en v =
     (if vm_start v < st then [v\<lparr>vm_end := st\<rparr>]
      else if en < vm_end v then [v\<lparr>vm_start := en\<rparr>] else [])"

definition munmap_trim_law :: "'k kernel_scheme \<Rightarrow> bool" where
  "munmap_trim_law K \<longleftrightarrow>
     (\<forall>m M pre v post st en M'. mem_wf M \<longrightarrow> mm_mmap (mms M m) = pre @ v # post \<longrightarrow>
        layout_ok (pre @ v # post) \<longrightarrow> page_aligned st \<longrightarrow> page_aligned en \<longrightarrow> st < en \<longrightarrow>
        vm_start v \<le> st \<longrightarrow> en \<le> vm_end v \<longrightarrow> st = vm_start v \<or> en = vm_end v \<longrightarrow>
        do_munmap K m st (en - st) M = (0, M') \<longrightarrow> mm_mmap (mms M' m) = pre @ trim st en v @ post)"

text \<open>Unmapping such a part needs no new object, so nothing stands against it.\<close>

definition trim_succeeds :: "'k kernel_scheme \<Rightarrow> bool" where
  "trim_succeeds K \<longleftrightarrow>
     (\<forall>m M pre v post st en. mem_wf M \<longrightarrow> mm_mmap (mms M m) = pre @ v # post \<longrightarrow>
        layout_ok (pre @ v # post) \<longrightarrow> page_aligned st \<longrightarrow> page_aligned en \<longrightarrow> st < en \<longrightarrow>
        vm_start v \<le> st \<longrightarrow> en \<le> vm_end v \<longrightarrow> st = vm_start v \<or> en = vm_end v \<longrightarrow>
        fst (do_munmap K m st (en - st) M) = 0)"

text \<open>
  A new mapping in a free range that touches no area above it: the areas above keep their
  objects; below, there is a new area, or the last area has been extended when its attributes
  agree with those of the new one. No page is populated.
\<close>

definition free_range :: "vm_area list \<Rightarrow> vm_area list \<Rightarrow> u64 \<Rightarrow> u64 \<Rightarrow> bool" where
  "free_range pre post st en \<longleftrightarrow>
     layout_ok (pre @ post) \<and> page_aligned st \<and> page_aligned en \<and> st < en \<and>
     (\<forall>v \<in> set pre. vm_end v \<le> st) \<and> (\<forall>v \<in> set post. en < vm_start v)"

abbreviation map_again :: "'k kernel_scheme \<Rightarrow> mm_id \<Rightarrow> u64 \<Rightarrow> u64 \<Rightarrow> u64 \<Rightarrow> mem \<Rightarrow> u64 \<times> mem" where
  "map_again K m st en prot M \<equiv>
     vm_mmap_anon K m st (en - st) prot (MAP_PRIVATE OR MAP_FIXED_NOREPLACE) M"

definition mmap_law :: "'k kernel_scheme \<Rightarrow> bool" where
  "mmap_law K \<longleftrightarrow>
     (\<forall>m M pre post st en prot. mem_wf M \<longrightarrow> mm_mmap (mms M m) = pre @ post \<longrightarrow> free_range pre post st en \<longrightarrow>
        IS_ERR (fst (map_again K m st en prot M)) \<or>
        fst (map_again K m st en prot M) = st \<and>
        (\<exists>pre' fl. snd (map_again K m st en prot M) = upd_mm m (\<lambda>mm. mm\<lparr>mm_mmap := pre' @ post\<rparr>) M \<and>
           layout_ok (pre' @ post) \<and> (\<forall>v \<in> set pre'. vm_end v \<le> en) \<and>
           (fl AND VM_WRITE \<noteq> 0) = (prot AND PROT_WRITE \<noteq> 0) \<and>
           (\<forall>a. flags_at pre' a = (if st \<le> a \<and> a < en then Some fl else flags_at pre a))))"

text \<open>There is room for the anonymous memory of the snapshot: no such mapping fails.\<close>

definition mmap_room :: "'k kernel_scheme \<Rightarrow> saved_area list \<Rightarrow> bool" where
  "mmap_room K old \<longleftrightarrow>
     (\<forall>m M pre post st en st0 en0 k prot. mem_wf M \<longrightarrow> mm_mmap (mms M m) = pre @ post \<longrightarrow> free_range pre post st en \<longrightarrow>
        (st0, en0, k) \<in> set old \<longrightarrow> st0 \<le> st \<longrightarrow> en \<le> en0 \<longrightarrow>
        \<not> IS_ERR (fst (map_again K m st en prot M)))"

section \<open>Lookups\<close>

lemma layout_okD:
  assumes "layout_ok vs"
  shows "areas_ok vs" and "distinct (map vma_id vs)" and "sorted_wrt (\<lambda>v w. vm_end v \<le> vm_start w) vs"
    and "\<And>v. v \<in> set vs \<Longrightarrow> page_aligned (vm_start v) \<and> page_aligned (vm_end v) \<and> vm_start v < vm_end v"
  using assms by (auto simp: layout_ok_def areas_ok_def area_ok_def list_all_iff)

lemma find_append: "find P (xs @ ys) = (case find P xs of None \<Rightarrow> find P ys | Some x \<Rightarrow> Some x)"
  by (induction xs) auto

lemma flags_at_append: "flags_at (xs @ ys) a = (case flags_at xs a of None \<Rightarrow> flags_at ys a | Some f \<Rightarrow> Some f)"
  by (simp add: flags_at_def find_append split: option.splits)

lemma flags_at_simps [simp]:
  "flags_at [] a = None"
  "flags_at (v # vs) a = (if vm_start v \<le> a \<and> a < vm_end v then Some (vm_flags v) else flags_at vs a)"
  by (auto simp: flags_at_def)

lemma flags_at_eq_None: "flags_at vs a = None \<longleftrightarrow> (\<forall>v \<in> set vs. \<not> (vm_start v \<le> a \<and> a < vm_end v))"
  by (induction vs) auto

lemma flags_at_below: "(\<And>v. v \<in> set vs \<Longrightarrow> vm_end v \<le> c) \<Longrightarrow> c \<le> a \<Longrightarrow> flags_at vs a = None"
  unfolding flags_at_eq_None by (meson leD le_less_trans order_trans)

lemma flags_at_above: "(\<And>v. v \<in> set vs \<Longrightarrow> c \<le> vm_start v) \<Longrightarrow> a < c \<Longrightarrow> flags_at vs a = None"
  unfolding flags_at_eq_None by (meson leD less_le_trans)

lemma saved_at_simps [simp]:
  "saved_at [] a = None"
  "saved_at ((st, en, k) # xs) a = (if st \<le> a \<and> a < en then Some k else saved_at xs a)"
  by (simp_all add: saved_at_def)

lemma saved_at_append: "saved_at (xs @ ys) a = (case saved_at xs a of None \<Rightarrow> saved_at ys a | Some k \<Rightarrow> Some k)"
  by (simp add: saved_at_def find_append split: option.splits)

abbreviation kind :: "snapshot_vma \<Rightarrow> bool \<times> bool" where
  "kind x \<equiv> (is_anonymous_private x, sv_prot x AND PROT_WRITE \<noteq> 0)"

lemma remembered_Cons [simp]:
  "saved_at (sv_view x # xs) a = (if sv_start x \<le> a \<and> a < sv_end x then Some (kind x) else saved_at xs a)"
  by (simp add: sv_view_def)

lemma remembered_eq_None: "remembered xs a = None \<longleftrightarrow> (\<forall>x \<in> set xs. \<not> (sv_start x \<le> a \<and> a < sv_end x))"
  by (induction xs) auto

lemma remembered_below: "(\<And>x. x \<in> set xs \<Longrightarrow> sv_end x \<le> c) \<Longrightarrow> c \<le> a \<Longrightarrow> remembered xs a = None"
  unfolding remembered_eq_None by (meson leD le_less_trans order_trans)

lemma svs_okD:
  assumes "svs_ok svs"
  shows "sorted_wrt (\<lambda>x y. sv_end x \<le> sv_start y) svs"
    and "\<And>x. x \<in> set svs \<Longrightarrow> page_aligned (sv_start x) \<and> page_aligned (sv_end x) \<and> sv_start x < sv_end x"
  using assms by (auto simp: svs_ok_def list_all_iff)

lemma aligned_not_max: "page_aligned x \<Longrightarrow> x < ULONG_MAX"
proof -
  assume "page_aligned x"
  then have "x AND 4095 = 0" by (simp add: page_aligned_def offset_in_page_def)
  then have "x \<noteq> ULONG_MAX" by (auto simp: ULONG_MAX_def)
  then show ?thesis by (simp add: ULONG_MAX_def word_order.not_eq_extremum flip: word_order.extremum_unique)
qed

lemma svs_ok_views:
  assumes "map sv_view svs = map area_view vs" and "areas_ok vs"
  shows "svs_ok svs"
  using assms
proof (induction vs arbitrary: svs)
  case (Cons v vs)
  then obtain x xs where svs: "svs = x # xs" "sv_view x = area_view v" "map sv_view xs = map area_view vs" by auto
  have ends: "\<exists>w \<in> set vs. sv_start y = vm_start w" if "y \<in> set xs" for y
  proof -
    have "sv_view y \<in> area_view ` set vs" using that svs(3) by (metis image_eqI image_set)
    then show ?thesis by (auto simp: sv_view_def area_view_def)
  qed
  have "svs_ok xs" using Cons.IH [OF svs(3)] Cons.prems(2) by (simp add: areas_ok_def)
  then show ?case
    using svs(1,2) Cons.prems(2) ends
    by (fastforce simp: svs_ok_def areas_ok_def area_ok_def sv_view_def area_view_def)
qed (simp add: svs_ok_def)

section \<open>The cursor in each list\<close>

definition vma_cursor :: "bool \<Rightarrow> u64 \<Rightarrow> vm_area list \<Rightarrow> vm_area list \<Rightarrow> bool" where
  "vma_cursor in_vmas c dn rest \<longleftrightarrow>
     layout_ok (dn @ rest) \<and> (\<forall>v \<in> set dn. vm_end v \<le> c) \<and>
     (case rest of
        [] \<Rightarrow> \<not> in_vmas
      | v # _ \<Rightarrow> if in_vmas then vm_start v \<le> c \<and> c < vm_end v else c \<le> vm_start v)"

definition ss_cursor :: "bool \<Rightarrow> u64 \<Rightarrow> snapshot_vma list \<Rightarrow> snapshot_vma list \<Rightarrow> bool" where
  "ss_cursor in_ss c dn rest \<longleftrightarrow>
     svs_ok (dn @ rest) \<and> (\<forall>x \<in> set dn. sv_end x \<le> c) \<and>
     (case rest of
        [] \<Rightarrow> \<not> in_ss
      | x # _ \<Rightarrow> if in_ss then sv_start x \<le> c \<and> c < sv_end x else c \<le> sv_start x)"

definition vma_next :: "vm_area list \<Rightarrow> bool \<Rightarrow> u64" where
  "vma_next rest in_vmas = (case rest of [] \<Rightarrow> ULONG_MAX | v # _ \<Rightarrow> if in_vmas then vm_end v else vm_start v)"

lemma vma_next_simps [simp]:
  "vma_next [] b = ULONG_MAX"
  "vma_next (v # vs) b = (if b then vm_end v else vm_start v)"
  by (simp_all add: vma_next_def)

lemma ss_cursor_ConsD:
  assumes "ss_cursor in_ss c dn (x # xs)"
  shows "page_aligned (sv_start x)" and "page_aligned (sv_end x)" and "sv_start x < sv_end x"
    and "\<And>y. y \<in> set xs \<Longrightarrow> sv_end x \<le> sv_start y" and "\<And>y. y \<in> set dn \<Longrightarrow> sv_end y \<le> sv_start x"
  using assms by (auto simp: ss_cursor_def svs_ok_def sorted_wrt_append)

lemma vma_cursor_ConsD:
  assumes "vma_cursor in_vmas c dn (v # vs)"
  shows "page_aligned (vm_start v)" and "page_aligned (vm_end v)" and "vm_start v < vm_end v"
    and "\<And>w. w \<in> set vs \<Longrightarrow> vm_end v \<le> vm_start w" and "\<And>w. w \<in> set dn \<Longrightarrow> vm_end w \<le> vm_start v"
  using assms by (auto simp: vma_cursor_def layout_ok_def areas_ok_def area_ok_def sorted_wrt_append)

lemma ss_between:
  assumes "ss_cursor in_ss c dn rest" and "c \<le> a" and "a < ss_vma_pos rest in_ss"
  shows "remembered (dn @ rest) a = (if in_ss then Some (kind (hd rest)) else None)"
proof -
  have "remembered dn a = None"
    by (rule remembered_below [OF _ assms(2)]) (use assms(1) in \<open>auto simp: ss_cursor_def\<close>)
  moreover have "remembered rest a = (if in_ss then Some (kind (hd rest)) else None)"
  proof (cases rest)
    case Nil
    then show ?thesis using assms(1) by (simp add: ss_cursor_def)
  next
    case (Cons x xs)
    have "remembered xs a = None" if "\<not> in_ss"
      unfolding remembered_eq_None
    proof (intro ballI notI)
      fix y assume y: "y \<in> set xs" and "sv_start y \<le> a \<and> a < sv_end y"
      then have "sv_start y \<le> a" by simp
      moreover have "sv_end x \<le> sv_start y" "sv_start x < sv_end x"
        using ss_cursor_ConsD(3,4) [OF assms(1) [unfolded Cons]] y by auto
      moreover have "a < sv_start x" using assms(3) that by (simp add: Cons)
      ultimately show False by order
    qed
    then show ?thesis using assms by (cases in_ss) (auto simp: Cons ss_cursor_def dest: leD)
  qed
  ultimately show ?thesis by (simp add: saved_at_append)
qed

lemma vma_between:
  assumes "vma_cursor in_vmas c dn rest" and "c \<le> a" and "a < vma_next rest in_vmas"
  shows "flags_at (dn @ rest) a = (if in_vmas then Some (vm_flags (hd rest)) else None)"
proof -
  have "flags_at dn a = None"
    by (rule flags_at_below [OF _ assms(2)]) (use assms(1) in \<open>auto simp: vma_cursor_def\<close>)
  moreover have "flags_at rest a = (if in_vmas then Some (vm_flags (hd rest)) else None)"
  proof (cases rest)
    case Nil
    then show ?thesis using assms(1) by (simp add: vma_cursor_def)
  next
    case (Cons v vs)
    have "flags_at vs a = None" if "\<not> in_vmas"
      unfolding flags_at_eq_None
    proof (intro ballI notI)
      fix w assume w: "w \<in> set vs" and "vm_start w \<le> a \<and> a < vm_end w"
      then have "vm_start w \<le> a" by simp
      moreover have "vm_end v \<le> vm_start w" "vm_start v < vm_end v"
        using vma_cursor_ConsD(3,4) [OF assms(1) [unfolded Cons]] w by auto
      moreover have "a < vm_start v" using assms(3) that by (simp add: Cons)
      ultimately show False by order
    qed
    then show ?thesis using assms by (cases in_vmas) (auto simp: Cons vma_cursor_def dest: leD)
  qed
  ultimately show ?thesis by (simp add: flags_at_append)
qed

section \<open>One step of the cursor\<close>

text \<open>The iterator of a list moves on when its boundary is the next position.\<close>

definition flip_at :: "u64 \<Rightarrow> u64 \<Rightarrow> bool \<Rightarrow> bool" where
  "flip_at n pos b = (if n = pos then \<not> b else b)"

definition rest_at :: "u64 \<Rightarrow> u64 \<Rightarrow> bool \<Rightarrow> 'a list \<Rightarrow> 'a list" where
  "rest_at n pos b xs = (if n = pos \<and> b then tl xs else xs)"

definition todo :: "bool \<Rightarrow> 'a list \<Rightarrow> nat" where
  "todo b xs = 2 * length xs - (if b then 1 else 0)"

lemma todo_step:
  assumes "xs = [] \<longrightarrow> \<not> b \<and> n \<noteq> pos"
  shows "todo (flip_at n pos b) (rest_at n pos b xs) \<le> todo b xs"
    and "n = pos \<Longrightarrow> todo (flip_at n pos b) (rest_at n pos b xs) < todo b xs"
  using assms by (cases xs; auto simp: todo_def flip_at_def rest_at_def)+

lemma ss_advance:
  assumes cur: "ss_cursor in_ss c dn svs" and n: "c \<le> n" "n \<le> ss_vma_pos svs in_ss" and max: "n \<noteq> ULONG_MAX"
  obtains dn' where "dn' @ rest_at n (ss_vma_pos svs in_ss) in_ss svs = dn @ svs"
    and "ss_cursor (flip_at n (ss_vma_pos svs in_ss) in_ss) n dn' (rest_at n (ss_vma_pos svs in_ss) in_ss svs)"
proof (cases svs)
  case Nil
  then show ?thesis
    using assms by (intro that [of dn]) (auto simp: ss_cursor_def rest_at_def flip_at_def)
next
  case (Cons x xs)
  note x = ss_cursor_ConsD [OF cur [unfolded Cons]]
  have before: "\<forall>y \<in> set dn. sv_end y \<le> n" using cur n(1) by (auto simp: ss_cursor_def)
  show ?thesis
  proof (cases "n = ss_vma_pos svs in_ss \<and> in_ss")
    case True
    then show ?thesis
      using cur before x(4) by (intro that [of "dn @ [x]"]) (auto simp: ss_cursor_def rest_at_def flip_at_def Cons split: list.splits)
  next
    case False
    then show ?thesis
      using cur before x(3) n
      by (intro that [of dn]) (auto simp: ss_cursor_def rest_at_def flip_at_def Cons)
  qed
qed

lemma vma_advance:
  assumes cur: "vma_cursor in_vmas c dn vs" and n: "c \<le> n" "n \<le> vma_next vs in_vmas" and max: "n \<noteq> ULONG_MAX"
  obtains dn' where "dn' @ rest_at n (vma_next vs in_vmas) in_vmas vs = dn @ vs"
    and "vma_cursor (flip_at n (vma_next vs in_vmas) in_vmas) n dn' (rest_at n (vma_next vs in_vmas) in_vmas vs)"
proof (cases vs)
  case Nil
  then show ?thesis
    using assms by (intro that [of dn]) (auto simp: vma_cursor_def rest_at_def flip_at_def vma_next_def)
next
  case (Cons v ws)
  note v = vma_cursor_ConsD [OF cur [unfolded Cons]]
  have before: "\<forall>y \<in> set dn. vm_end y \<le> n" using cur n(1) by (auto simp: vma_cursor_def)
  show ?thesis
  proof (cases "n = vma_next vs in_vmas \<and> in_vmas")
    case True
    then show ?thesis
      using cur before v(4) by (intro that [of "dn @ [v]"]) (auto simp: vma_cursor_def rest_at_def flip_at_def Cons split: list.splits)
  next
    case False
    then show ?thesis
      using cur before v(3) n
      by (intro that [of dn]) (auto simp: vma_cursor_def rest_at_def flip_at_def Cons)
  qed
qed

text \<open>The pointer of the code and the fields read through it.\<close>

definition iter :: "vm_area list \<Rightarrow> nat option" where
  "iter vs = (case vs of [] \<Rightarrow> None | v # _ \<Rightarrow> Some (vma_id v))"

lemma area_from_append: "vma_id v \<notin> vma_id ` set dn \<Longrightarrow> area_from (vma_id v) (dn @ v # vs) = Some (v # vs)"
  by (induction dn) auto

lemma iter_reads:
  assumes "mm_mmap (mms (mem s) m) = dn @ vs" and "layout_ok (dn @ vs)"
  shows "vma_pos s m (iter vs) in_vmas = Some (vma_next vs in_vmas)"
    and "Option.bind (iter vs) (vm_next s m) = iter (tl vs)"
proof -
  show "vma_pos s m (iter vs) in_vmas = Some (vma_next vs in_vmas)"
    using assms area_from_append
    by (cases vs) (auto simp: vma_pos_def iter_def vma_next_def vma_of_def layout_ok_def)
  show "Option.bind (iter vs) (vm_next s m) = iter (tl vs)"
    using assms area_from_append
    by (cases vs) (auto simp: iter_def vm_next_def layout_ok_def split: list.splits)
qed

lemma iter_rest_at: "iter (rest_at n pos b vs) = (if n = pos \<and> b then iter (tl vs) else iter vs)"
  by (simp add: rest_at_def)

end
