(* ===== verification/Restore_Areas.thy ===== *)
theory Restore_Areas
  imports Areas
begin

text \<open>
  The correctness of \<open>restore_vmas\<close>: the two repairs of one gap, the invariant of the loop over
  both lists, and the address space at the end. The same facts for the concrete kernel of
  theory \<open>Kernel_Instance\<close> close the theory.
\<close>

section \<open>One gap\<close>

lemma trim_layout:
  assumes ok: "layout_ok (pre @ v # post)" and al: "page_aligned st" "page_aligned en" and st: "vm_start v \<le> st" "st < en"
    and en: "en \<le> vm_end v"
  shows "layout_ok (pre @ trim st en v @ post)"
proof -
  have "distinct (map vma_id (pre @ trim st en v @ post))"
    using layout_okD(2) [OF ok] by (auto simp: trim_def)
  moreover have "areas_ok (pre @ trim st en v @ post)"
    using layout_okD(1) [OF ok] al st en
    by (auto simp: trim_def areas_ok_def area_ok_def sorted_wrt_append intro: order_trans)
  ultimately show ?thesis by (simp add: layout_ok_def)
qed

lemma trim_flags:
  assumes ok: "layout_ok (pre @ v # post)" and st: "vm_start v \<le> st" "st < en" and en: "en \<le> vm_end v"
    and edge: "st = vm_start v \<or> en = vm_end v"
  shows "flags_at (pre @ trim st en v @ post) a =
     (if st \<le> a \<and> a < en then None else flags_at (pre @ v # post) a)"
proof -
  have out: "flags_at pre a = None \<and> flags_at post a = None" if "vm_start v \<le> a" "a < vm_end v"
    using ok that unfolding layout_ok_def areas_ok_def
    by (auto intro!: flags_at_below [of pre "vm_start v"] flags_at_above [of post "vm_end v"] simp: sorted_wrt_append)
  show ?thesis
  proof (cases "vm_start v \<le> a \<and> a < vm_end v")
    case True
    then show ?thesis
      using out edge st en by (auto simp: trim_def flags_at_append split: option.splits)
  next
    case False
    have "\<not> (st \<le> a \<and> a < en)"
      using False st en by (meson less_le_trans order_trans)
    then show ?thesis
      using False edge st en by (auto simp: trim_def flags_at_append split: option.splits)
  qed
qed

definition walk_frame ::
  "'k kernel_scheme \<Rightarrow> ghost \<Rightarrow> snapshot_vma list \<Rightarrow> mm_id \<Rightarrow> 's mem_state_scheme \<Rightarrow> 's mem_state_scheme \<Rightarrow> bool" where
  "walk_frame K G svs m s s' \<longleftrightarrow>
     sys_inv K G s' \<and> same_tasks s s' \<and> same_env s s' \<and>
     (\<forall>a. remembered svs a \<noteq> None \<longrightarrow> user_view K m (mem s') a = user_view K m (mem s) a)"

lemma walk_frame_refl: "sys_inv K G s \<Longrightarrow> walk_frame K G svs m s s"
  by (simp add: walk_frame_def same_tasks_refl)

lemma walk_frame_trans: "walk_frame K G svs m s s1 \<Longrightarrow> walk_frame K G svs m s1 s2 \<Longrightarrow> walk_frame K G svs m s s2"
  by (auto simp: walk_frame_def intro: same_tasks_trans same_env_trans)

definition area_laws :: "'k kernel_scheme \<Rightarrow> bool" where
  "area_laws K \<longleftrightarrow> munmap_trim_law K \<and> mmap_law K"

text \<open>Unmapping the gap from \<open>c\<close> to \<open>n\<close> inside the area \<open>v\<close>.\<close>

lemma unmap_gap:
  assumes inv: "sys_inv K G s" and oom: "no_oom K" and laws: "memory_laws K" "area_laws K"
    and list: "mm_mmap (mms (mem s) m) = dn @ v # vs" and ok: "layout_ok (dn @ v # vs)"
    and al: "page_aligned c" "page_aligned n" and c: "vm_start v \<le> c" "c < n" and n: "n \<le> vm_end v"
    and edge: "c = vm_start v \<or> n = vm_end v" and none: "\<And>a. c \<le> a \<Longrightarrow> a < n \<Longrightarrow> remembered svs a = None"
  obtains r s1 where "vm_munmap K m c (n - c) s = Some (r, s1)" and "walk_frame K G svs m s s1"
    and "r = 0 \<longrightarrow> mm_mmap (mms (mem s1) m) = dn @ trim c n v @ vs" and "trim_succeeds K \<longrightarrow> r = 0"
proof -
  obtain r s1 where run: "vm_munmap K m c (n - c) s = Some (r, s1)" and inv1: "sys_inv K G s1"
    and st: "same_tasks s s1" and un: "do_munmap K m c (n - c) (mem s) = (r, mem s1)"
    by (rule sys_inv_unmap [OF inv oom]) (use laws(1) in \<open>auto simp: memory_laws_def\<close>)
  have wf: "mem_wf (mem s)" using inv by (rule sys_invD)
  have law: "munmap_pages_law K" using laws(1) by (simp add: memory_laws_def)
  have view: "user_view K m (mem s1) a = user_view K m (mem s) a" if "remembered svs a \<noteq> None" for a
  proof -
    have "a \<notin> {c ..< c + (n - c)}" using none [of a] that by auto
    then show ?thesis
      using munmap_pages_lawD(3,4) [OF law wf un, of m a] by (simp add: user_view_def content_def)
  qed
  have "walk_frame K G svs m s s1"
    using inv1 st vm_munmap_frame [OF run] view by (simp add: walk_frame_def)
  moreover have "mm_mmap (mms (mem s1) m) = dn @ trim c n v @ vs" if "r = 0"
    using laws(2) [unfolded area_laws_def munmap_trim_law_def] wf list ok al c n edge un that by blast
  moreover have "trim_succeeds K \<longrightarrow> r = 0"
  proof
    assume "trim_succeeds K"
    then have "fst (do_munmap K m c (n - c) (mem s)) = 0"
      unfolding trim_succeeds_def using wf list ok al c n edge by blast
    then show "r = 0" by (simp add: un)
  qed
  ultimately show ?thesis using run by (intro that) blast+
qed

text \<open>Mapping the gap again below the areas \<open>vs\<close>.\<close>

lemma map_gap:
  assumes inv: "sys_inv K G s" and laws: "area_laws K" "mmap_room K (map sv_view svs)"
    and list: "mm_mmap (mms (mem s) m) = dn @ vs" and free: "free_range dn vs c n"
    and x: "x \<in> set svs" "sv_start x \<le> c" "n \<le> sv_end x"
  obtains dn' fl M where "map_again K m c n (sv_prot x) (mem s) = (c, M)" and "\<not> IS_ERR c"
    and "walk_frame K G svs m s (s\<lparr>mem := M\<rparr>)" and "mm_mmap (mms M m) = dn' @ vs" and "layout_ok (dn' @ vs)"
    and "\<forall>v \<in> set dn'. vm_end v \<le> n" and "(fl AND VM_WRITE \<noteq> 0) = (sv_prot x AND PROT_WRITE \<noteq> 0)"
    and "\<forall>a. flags_at dn' a = (if c \<le> a \<and> a < n then Some fl else flags_at dn a)"
proof -
  have wf: "mem_wf (mem s)" using inv by (rule sys_invD)
  have room: "\<not> IS_ERR (fst (map_again K m c n (sv_prot x) (mem s)))"
  proof -
    have "(sv_start x, sv_end x, kind x) \<in> set (map sv_view svs)" using x(1) by (force simp: sv_view_def)
    then show ?thesis using laws(2) wf list free x(2,3) unfolding mmap_room_def by blast
  qed
  then obtain dn' fl where addr: "fst (map_again K m c n (sv_prot x) (mem s)) = c"
    and M: "snd (map_again K m c n (sv_prot x) (mem s)) = upd_mm m (\<lambda>mm. mm\<lparr>mm_mmap := dn' @ vs\<rparr>) (mem s)"
    and new: "layout_ok (dn' @ vs)" "\<forall>v \<in> set dn'. vm_end v \<le> n"
      "(fl AND VM_WRITE \<noteq> 0) = (sv_prot x AND PROT_WRITE \<noteq> 0)"
      "\<forall>a. flags_at dn' a = (if c \<le> a \<and> a < n then Some fl else flags_at dn a)"
    using laws(1) [unfolded area_laws_def mmap_law_def, THEN conjunct2, rule_format, OF wf list free, of "sv_prot x"]
    by blast
  let ?M = "upd_mm m (\<lambda>mm. mm\<lparr>mm_mmap := dn' @ vs\<rparr>) (mem s)"
  have "sys_inv K G (s\<lparr>mem := ?M\<rparr>)" by (rule sys_inv_areas [OF inv]) simp_all
  moreover have "same_tasks s (s\<lparr>mem := ?M\<rparr>)" by (rule same_tasks_mem) simp
  moreover have "user_view K m ?M a = user_view K m (mem s) a" for a
    by (simp add: user_view_def content_def)
  ultimately have "walk_frame K G svs m s (s\<lparr>mem := ?M\<rparr>)" by (simp add: walk_frame_def)
  moreover have "map_again K m c n (sv_prot x) (mem s) = (c, ?M)" using addr M by (metis prod.collapse)
  ultimately show ?thesis using room addr new by (intro that [of ?M dn' fl]) simp_all
qed

section \<open>The invariant of the loop\<close>

text \<open>
  \<open>vs0\<close> are the areas at the start and \<open>svs0\<close> those of the snapshot. Below the cursor everything
  is restored; above it nothing has changed. The areas still to come are the original ones,
  except that the front of the first may be gone.
\<close>

definition spec_so_far :: "snapshot_vma list \<Rightarrow> vm_area list \<Rightarrow> u64 \<Rightarrow> vm_area list \<Rightarrow> bool" where
  "spec_so_far svs0 vs0 c vs \<longleftrightarrow>
     (\<forall>a. if a < c then area_restored (remembered svs0 a) (flags_at vs0 a) (flags_at vs a)
          else flags_at vs a = flags_at vs0 a)"

definition from_old :: "vm_area list \<Rightarrow> bool \<Rightarrow> vm_area list \<Rightarrow> bool" where
  "from_old vs0 in_vmas vs \<longleftrightarrow>
     set (tl vs) \<subseteq> set vs0 \<and>
     (\<forall>v ws. vs = v # ws \<longrightarrow> (\<exists>v0 \<in> set vs0. vm_start v0 \<le> vm_start v \<and> vm_end v0 = vm_end v \<and> (\<not> in_vmas \<longrightarrow> v0 = v)))"

definition front_ok :: "snapshot_vma list \<Rightarrow> bool \<Rightarrow> bool \<Rightarrow> u64 \<Rightarrow> vm_area list \<Rightarrow> bool" where
  "front_ok svs0 in_vmas in_ss c vs \<longleftrightarrow>
     (in_vmas \<and> \<not> in_ss \<longrightarrow>
        vm_start (hd vs) = c \<or> vm_start (hd vs) < c \<and> (\<exists>x \<in> set svs0. sv_end x = c))"

definition walk_inv ::
  "snapshot_vma list \<Rightarrow> vm_area list \<Rightarrow> bool \<Rightarrow> bool \<Rightarrow> u64 \<Rightarrow> vm_area list \<Rightarrow> vm_area list
   \<Rightarrow> snapshot_vma list \<Rightarrow> snapshot_vma list \<Rightarrow> bool" where
  "walk_inv svs0 vs0 in_ss in_vmas c dn vs sdn svs \<longleftrightarrow>
     vma_cursor in_vmas c dn vs \<and> ss_cursor in_ss c sdn svs \<and> sdn @ svs = svs0 \<and>
     spec_so_far svs0 vs0 c (dn @ vs) \<and> from_old vs0 in_vmas vs \<and> front_ok svs0 in_vmas in_ss c vs \<and>
     page_aligned c"

lemma spec_so_far_step:
  assumes "spec_so_far svs0 vs0 c vs" and "c \<le> n"
    and "\<And>a. a < c \<or> n \<le> a \<Longrightarrow> flags_at vs' a = flags_at vs a"
    and "\<And>a. c \<le> a \<Longrightarrow> a < n \<Longrightarrow> area_restored (remembered svs0 a) (flags_at vs a) (flags_at vs' a)"
  shows "spec_so_far svs0 vs0 n vs'"
  unfolding spec_so_far_def
proof
  fix a
  have at: "if a < c then area_restored (remembered svs0 a) (flags_at vs0 a) (flags_at vs a)
      else flags_at vs a = flags_at vs0 a"
    using assms(1) by (simp add: spec_so_far_def)
  consider "a < c" | "c \<le> a" "a < n" | "n \<le> a" by fastforce
  then show "if a < n then area_restored (remembered svs0 a) (flags_at vs0 a) (flags_at vs' a)
      else flags_at vs' a = flags_at vs0 a"
  proof cases
    case 1
    then show ?thesis using at assms(3) less_le_trans [OF 1 assms(2)] by simp
  next
    case 2
    then show ?thesis using at assms(4) [of a] by (simp add: leD)
  next
    case 3
    then show ?thesis using at assms(2,3) by (simp add: leD order_trans [OF assms(2)])
  qed
qed

lemma from_old_rest:
  assumes "from_old vs0 in_vmas vs" and "\<not> in_vmas' \<Longrightarrow> in_vmas \<Longrightarrow> vs' = tl vs"
    and "vs' = vs \<or> vs' = tl vs \<or> (in_vmas' \<and> (\<exists>v c. vs = v # tl vs \<and> vm_start v \<le> c \<and> vs' = v\<lparr>vm_start := c\<rparr> # tl vs))"
  shows "from_old vs0 in_vmas' vs'"
proof -
  have tails: "set (tl vs) \<subseteq> set vs0" using assms(1) by (simp add: from_old_def)
  consider "vs' = tl vs" | "vs' = vs" "vs' \<noteq> tl vs" 
    | v c where "in_vmas'" "vs = v # tl vs" "vm_start v \<le> c" "vs' = v\<lparr>vm_start := c\<rparr> # tl vs"
    using assms(3) by blast
  then show ?thesis
  proof cases
    case 1
    then show ?thesis using tails by (cases "tl vs") (auto simp: from_old_def)
  next
    case 2
    then show ?thesis using assms(1,2) by (auto simp: from_old_def)
  next
    case 3
    then obtain v0 where "v0 \<in> set vs0" "vm_start v0 \<le> vm_start v" "vm_end v0 = vm_end v"
      using assms(1) by (metis from_old_def)
    with 3 show ?thesis using tails by (auto simp: from_old_def intro: order_trans)
  qed
qed

text \<open>The hypotheses on the two lists give what the two repairs need.\<close>

lemma gap_at_edge:
  assumes inv: "walk_inv svs0 vs0 False True c dn (v # vs) sdn svs" and good: "restorable (map sv_view svs0) vs0"
    and n: "n = min (vm_end v) (ss_vma_pos svs False)" "c < n"
  shows "c = vm_start v \<or> n = vm_end v"
proof (rule ccontr)
  assume no: "\<not> (c = vm_start v \<or> n = vm_end v)"
  have w: "vma_cursor True c dn (v # vs)" "ss_cursor False c sdn svs" "svs0 = sdn @ svs"
    "from_old vs0 True (v # vs)" "front_ok svs0 True False c (v # vs)"
    using inv by (auto simp: walk_inv_def)
  obtain x where x: "x \<in> set svs0" "sv_end x = c" "vm_start v < c"
    using w(5) no by (auto simp: front_ok_def)
  obtain v0 where v0: "v0 \<in> set vs0" "vm_start v0 \<le> vm_start v" "vm_end v0 = vm_end v"
    using w(4) by (auto simp: from_old_def)
  have lt: "ss_vma_pos svs False < vm_end v" and pos: "n = ss_vma_pos svs False"
    using n no by (auto simp: min_def split: if_splits)
  then obtain y ys where svs: "svs = y # ys"
    using aligned_not_max [OF vma_cursor_ConsD(2) [OF w(1)]] by (cases svs) (auto dest: less_trans)
  note y = ss_cursor_ConsD [OF w(2) [unfolded svs]]
  have starts: "sv_start z \<noteq> c" if z: "z \<in> set svs0" for z
  proof -
    consider "z \<in> set sdn" | "z = y" | "z \<in> set ys" using z unfolding w(3) svs by auto
    then show ?thesis
    proof cases
      case 1
      then have "sv_end z \<le> c" and "sv_start z < sv_end z"
        using w(2) by (auto simp: ss_cursor_def svs_ok_def list_all_iff)
      then show ?thesis by order
    next
      case 2
      then show ?thesis using pos n(2) svs by simp
    next
      case 3
      have "c < sv_start y" using pos n(2) svs by simp
      then show ?thesis using y(4) [OF 3] y(3) by order
    qed
  qed
  have "vm_start v0 < sv_end x" using v0(2) x(2,3) by simp
  moreover have "sv_end x < sv_start y" "sv_start y < vm_end v0" "y \<in> set svs0"
    using lt pos n(2) svs x(2) v0(3) w(3) by simp_all
  ultimately have "spans_hole (map sv_view svs0) v0"
    using x starts by (auto simp: spans_hole_def list_ex_iff list_all_iff sv_view_def)
  then show False using good v0(1) by (auto simp: restorable_def list_all_iff)
qed

lemma below_pred: "c < n \<Longrightarrow> c \<le> n - 1 \<and> n - 1 < n" for c n :: u64
proof -
  assume c: "c < n"
  then have "unat (n - 1) = unat n - 1" by (intro unat_minus_one) auto
  then show ?thesis using c by (auto simp: word_less_nat_alt word_le_nat_alt)
qed

lemma gap_is_free:
  assumes inv: "walk_inv svs0 vs0 True False c dn vs sdn (x # svs)" and good: "restorable (map sv_view svs0) vs0"
    and n: "n = min (vma_next vs False) (sv_end x)" "c < n" and x: "is_anonymous_private x"
  shows "free_range dn vs c n"
proof -
  have w: "vma_cursor False c dn vs" "ss_cursor True c sdn (x # svs)" "svs0 = sdn @ x # svs"
    "from_old vs0 False vs" "page_aligned c" "spec_so_far svs0 vs0 c (dn @ vs)"
    using inv by (auto simp: walk_inv_def)
  have xs: "sv_start x \<le> c" "page_aligned (sv_end x)" 
    using w(2) ss_cursor_ConsD(2) [OF w(2)] by (auto simp: ss_cursor_def)
  have al: "page_aligned n"
    using n(1) xs(2) vma_cursor_ConsD(1) w(1) aligned_not_max [OF xs(2)]
    by (cases vs) (auto simp: min_def)
  have "n < vm_start u" if u: "u \<in> set vs" for u
  proof -
    obtain v ws where vs: "vs = v # ws" using u by (cases vs) auto
    note v = vma_cursor_ConsD [OF w(1) [unfolded vs]]
    have "n \<noteq> vm_start v"
    proof
      assume eq: "n = vm_start v"
      have v0: "v \<in> set vs0" using w(4) by (auto simp: from_old_def vs)
      have "sv_start x < vm_start v" "vm_start v \<le> sv_end x"
        using xs(1) n eq by (auto simp: min_def split: if_splits)
      then have "list_ex (\<lambda>w. vm_end w = vm_start v) vs0"
        using good v0 x w(3) by (auto simp: restorable_def list_all_iff list_ex_iff after_missing_def sv_view_def)
      then obtain u where u: "u \<in> set vs0" "vm_end u = n" by (auto simp: list_ex_iff eq)
      have a: "c \<le> n - 1" "n - 1 < n" and "vm_start u \<le> n - 1"
        using below_pred [OF n(2)] below_pred [of "vm_start u" n] u layout_okD(4) [OF _ u(1)] good by (auto simp: restorable_def)
      then have "flags_at vs0 (n - 1) \<noteq> None" using u by (auto simp: flags_at_eq_None)
      moreover have "flags_at (dn @ vs) (n - 1) = None"
        using vma_between [OF w(1) a(1)] a(2) eq vs by simp
      ultimately show False using w(6) a(1) by (auto simp: spec_so_far_def leD)
    qed
    moreover have "n \<le> vm_start v" using n(1) vs by simp
    ultimately have lt: "n < vm_start v" by order
    show ?thesis
    proof (cases "u = v")
      case False
      then have "vm_end v \<le> vm_start u" using u vs v(4) by simp
      with lt v(3) show ?thesis by order
    qed (use lt in simp)
  qed
  then show ?thesis
    using w(1,5) al n(2) by (auto simp: free_range_def vma_cursor_def)
qed

section \<open>One iteration\<close>

text \<open>\<open>restore_gap\<close>, followed by the moves of the two iterators.\<close>

definition gap_done ::
  "'k kernel_scheme \<Rightarrow> ghost \<Rightarrow> snapshot_vma list \<Rightarrow> vm_area list \<Rightarrow> mm_id \<Rightarrow> bool \<Rightarrow> u64 \<Rightarrow> u64 \<Rightarrow> vm_area list
   \<Rightarrow> vm_area list \<Rightarrow> 's mem_state_scheme \<Rightarrow> 's mem_state_scheme \<Rightarrow> vm_area list \<Rightarrow> vm_area list \<Rightarrow> bool" where
  "gap_done K G svs0 vs0 m in_vmas c n dn vs s s1 dn' vs' \<longleftrightarrow>
     walk_frame K G svs0 m s s1 \<and> mm_mmap (mms (mem s1) m) = dn' @ vs' \<and>
     vma_cursor (flip_at n (vma_next vs in_vmas) in_vmas) n dn' vs' \<and>
     iter vs' = iter (rest_at n (vma_next vs in_vmas) in_vmas vs) \<and>
     length vs' = length (rest_at n (vma_next vs in_vmas) in_vmas vs) \<and>
     from_old vs0 (flip_at n (vma_next vs in_vmas) in_vmas) vs' \<and>
     spec_so_far svs0 vs0 n (dn' @ vs') \<and>
     (in_vmas \<and> n \<noteq> vm_end (hd vs) \<longrightarrow> vm_start (hd vs') \<le> c \<or> vm_start (hd vs') = n) \<and>
     (\<not> in_vmas \<longrightarrow> vs' = vs)"

lemma gap_quiet:
  assumes inv: "walk_inv svs0 vs0 in_ss in_vmas c dn vs sdn svs" and sinv: "sys_inv K G s"
    and list: "mm_mmap (mms (mem s) m) = dn @ vs" and n: "c \<le> n" "n \<le> vma_next vs in_vmas" "n \<le> ss_vma_pos svs in_ss"
    and max: "n \<noteq> ULONG_MAX"
    and same: "n = c \<or> in_vmas = in_ss \<or> (in_ss \<and> \<not> is_anonymous_private (hd svs))"
  obtains dn' vs' where "gap_done K G svs0 vs0 m in_vmas c n dn vs s s dn' vs'"
proof -
  have w: "vma_cursor in_vmas c dn vs" "ss_cursor in_ss c sdn svs" "svs0 = sdn @ svs"
    "spec_so_far svs0 vs0 c (dn @ vs)" "from_old vs0 in_vmas vs"
    using inv by (auto simp: walk_inv_def)
  let ?vs' = "rest_at n (vma_next vs in_vmas) in_vmas vs"
  obtain dn' where dn': "dn' @ ?vs' = dn @ vs"
    and cur: "vma_cursor (flip_at n (vma_next vs in_vmas) in_vmas) n dn' ?vs'"
    by (rule vma_advance [OF w(1) n(1,2) max])
  have "spec_so_far svs0 vs0 n (dn @ vs)"
  proof (rule spec_so_far_step [OF w(4) n(1) refl])
    fix a assume a: "c \<le> a" "a < n"
    have "remembered svs0 a = (if in_ss then Some (kind (hd svs)) else None)"
      unfolding w(3) by (rule ss_between [OF w(2) a(1) less_le_trans [OF a(2) n(3)]])
    moreover have "flags_at (dn @ vs) a = (if in_vmas then Some (vm_flags (hd vs)) else None)"
      by (rule vma_between [OF w(1) a(1) less_le_trans [OF a(2) n(2)]])
    moreover have "n \<noteq> c" using a by auto
    ultimately show "area_restored (remembered svs0 a) (flags_at (dn @ vs) a) (flags_at (dn @ vs) a)"
      using same by auto
  qed
  moreover have "from_old vs0 (flip_at n (vma_next vs in_vmas) in_vmas) ?vs'"
    by (rule from_old_rest [OF w(5)]) (auto simp: flip_at_def rest_at_def)
  moreover have "in_vmas \<and> n \<noteq> vm_end (hd vs) \<longrightarrow> vm_start (hd ?vs') \<le> c \<or> vm_start (hd ?vs') = n"
    using w(1) by (cases vs) (auto simp: rest_at_def vma_cursor_def)
  ultimately show ?thesis
    using cur dn' walk_frame_refl [OF sinv] list
    by (intro that [of dn' ?vs']) (auto simp: gap_done_def rest_at_def)
qed

lemma gap_unmapped:
  assumes inv: "walk_inv svs0 vs0 False True c dn vs sdn svs" and good: "restorable (map sv_view svs0) vs0"
    and sinv: "sys_inv K G s" and oom: "no_oom K" and laws: "memory_laws K" "area_laws K"
    and list: "mm_mmap (mms (mem s) m) = dn @ vs"
    and n: "n = min (vma_next vs True) (ss_vma_pos svs False)" "c < n" and al: "page_aligned n"
  obtains r s1 where "vm_munmap K m c (n - c) s = Some (r, s1)" and "walk_frame K G svs0 m s s1"
    and "r = 0 \<longrightarrow> (\<exists>dn' vs'. gap_done K G svs0 vs0 m True c n dn vs s s1 dn' vs')" and "trim_succeeds K \<longrightarrow> r = 0"
proof -
  have w: "vma_cursor True c dn vs" "ss_cursor False c sdn svs" "svs0 = sdn @ svs"
    "spec_so_far svs0 vs0 c (dn @ vs)" "from_old vs0 True vs" "page_aligned c"
    using inv by (auto simp: walk_inv_def)
  obtain v ws where vs: "vs = v # ws" using w(1) by (cases vs) (auto simp: vma_cursor_def)
  note v = vma_cursor_ConsD [OF w(1) [unfolded vs]]
  have ok: "layout_ok (dn @ v # ws)" and c: "vm_start v \<le> c" "c < vm_end v"
    using w(1) by (auto simp: vma_cursor_def vs)
  have le: "n \<le> vm_end v" using n(1) vs by simp
  have edge: "c = vm_start v \<or> n = vm_end v"
    by (rule gap_at_edge [OF inv [unfolded vs] good]) (use n vs in auto)
  have none: "remembered svs0 a = None" if "c \<le> a" "a < n" for a
  proof -
    have "a < ss_vma_pos svs False" using that(2) n(1) by simp
    then show ?thesis unfolding w(3) using ss_between [OF w(2) that(1)] by simp
  qed
  obtain r s1 where run: "vm_munmap K m c (n - c) s = Some (r, s1)" and frame: "walk_frame K G svs0 m s s1"
    and new: "r = 0 \<longrightarrow> mm_mmap (mms (mem s1) m) = dn @ trim c n v @ ws" and trims: "trim_succeeds K \<longrightarrow> r = 0"
    by (rule unmap_gap [OF sinv oom laws list [unfolded vs] ok w(6) al c(1) n(2) le edge none])
  have flags: "flags_at (dn @ trim c n v @ ws) a = (if c \<le> a \<and> a < n then None else flags_at (dn @ vs) a)" for a
    unfolding vs by (rule trim_flags [OF ok c(1) n(2) le edge])
  have spec: "spec_so_far svs0 vs0 n (dn @ trim c n v @ ws)"
    by (rule spec_so_far_step [OF w(4) less_imp_le [OF n(2)]]) (use none in \<open>auto simp: flags\<close>)
  have ok': "layout_ok (dn @ trim c n v @ ws)" by (rule trim_layout [OF ok w(6) al c(1) n(2) le])
  have before: "\<forall>u \<in> set dn. vm_end u \<le> n" using w(1) n(2) by (force simp: vma_cursor_def)
  have "\<exists>dn' vs'. gap_done K G svs0 vs0 m True c n dn vs s s1 dn' vs'" if r: "r = 0"
  proof -
    consider (upper) "vm_start v < c" "n = vm_end v" | (all) "vm_start v = c" "n = vm_end v"
      | (front) "vm_start v = c" "n < vm_end v"
      using c(1) le edge by (auto simp: order_le_less)
    then show ?thesis
    proof cases
      case upper
      then have t: "trim c n v = [v\<lparr>vm_end := c\<rparr>]" by (simp add: trim_def)
      have "gap_done K G svs0 vs0 m True c n dn vs s s1 (dn @ [v\<lparr>vm_end := c\<rparr>]) ws"
        unfolding gap_done_def
        using frame new [rule_format, OF r, unfolded t] spec [unfolded t] ok' [unfolded t] upper before n(2) v(4) from_old_rest [OF w(5), of False ws]
        by (auto simp: vs vma_cursor_def flip_at_def rest_at_def split: list.splits)
      then show ?thesis by blast
    next
      case all
      then have t: "trim c n v = []" by (simp add: trim_def)
      have "gap_done K G svs0 vs0 m True c n dn vs s s1 dn ws"
        unfolding gap_done_def
        using frame new [rule_format, OF r, unfolded t] spec [unfolded t] ok' [unfolded t] all before v(4) from_old_rest [OF w(5), of False ws]
        by (auto simp: vs vma_cursor_def flip_at_def rest_at_def split: list.splits)
      then show ?thesis by blast
    next
      case front
      then have t: "trim c n v = [v\<lparr>vm_start := n\<rparr>]" by (simp add: trim_def)
      have "from_old vs0 True (v\<lparr>vm_start := n\<rparr> # ws)"
        by (rule from_old_rest [OF w(5)]) (use vs front n(2) in \<open>auto intro!: exI [of _ n]\<close>)
      then have "gap_done K G svs0 vs0 m True c n dn vs s s1 dn (v\<lparr>vm_start := n\<rparr> # ws)"
        unfolding gap_done_def
        using frame new [rule_format, OF r, unfolded t] spec [unfolded t] ok' [unfolded t] front before
        by (auto simp: vs vma_cursor_def flip_at_def rest_at_def iter_def)
      then show ?thesis by blast
    qed
  qed
  then show ?thesis using run frame trims by (intro that) blast+
qed

lemma gap_mapped:
  assumes inv: "walk_inv svs0 vs0 True False c dn vs sdn svs" and good: "restorable (map sv_view svs0) vs0"
    and sinv: "sys_inv K G s" and laws: "area_laws K" "mmap_room K (map sv_view svs0)"
    and list: "mm_mmap (mms (mem s) m) = dn @ vs"
    and n: "n = min (vma_next vs False) (ss_vma_pos svs True)" "c < n" and x: "is_anonymous_private (hd svs)"
  obtains M dn' where "map_again K m c n (sv_prot (hd svs)) (mem s) = (c, M)" and "\<not> IS_ERR c"
    and "gap_done K G svs0 vs0 m False c n dn vs s (s\<lparr>mem := M\<rparr>) dn' vs"
proof -
  have w: "vma_cursor False c dn vs" "ss_cursor True c sdn svs" "svs0 = sdn @ svs"
    "spec_so_far svs0 vs0 c (dn @ vs)" "from_old vs0 False vs" "page_aligned c"
    using inv by (auto simp: walk_inv_def)
  obtain y ys where svs: "svs = y # ys" using w(2) by (cases svs) (auto simp: ss_cursor_def)
  have y: "y \<in> set svs0" "sv_start y \<le> c" "n \<le> sv_end y" "is_anonymous_private y"
    using w(2,3) n(1) x by (auto simp: svs ss_cursor_def)
  have free: "free_range dn vs c n"
    by (rule gap_is_free [OF inv [unfolded svs] good]) (use n x svs in auto)
  obtain dn' fl M where run: "map_again K m c n (sv_prot y) (mem s) = (c, M)" "\<not> IS_ERR c"
    and frame: "walk_frame K G svs0 m s (s\<lparr>mem := M\<rparr>)" and new: "mm_mmap (mms M m) = dn' @ vs" "layout_ok (dn' @ vs)"
      "\<forall>v \<in> set dn'. vm_end v \<le> n" and fl: "(fl AND VM_WRITE \<noteq> 0) = (sv_prot y AND PROT_WRITE \<noteq> 0)"
    and flags: "\<forall>a. flags_at dn' a = (if c \<le> a \<and> a < n then Some fl else flags_at dn a)"
    by (rule map_gap [OF sinv laws list free y(1-3)])
  have above: "n < vm_start u" if "u \<in> set vs" for u using free that by (simp add: free_range_def)
  have spec: "spec_so_far svs0 vs0 n (dn' @ vs)"
  proof (rule spec_so_far_step [OF w(4) less_imp_le [OF n(2)]])
    fix a assume "a < c \<or> n \<le> a"
    then show "flags_at (dn' @ vs) a = flags_at (dn @ vs) a"
      by (auto simp: flags_at_append flags leD)
  next
    fix a assume a: "c \<le> a" "a < n"
    have "a < ss_vma_pos svs True" "a < vma_next vs False" using a(2) n(1) by simp_all
    then have "remembered svs0 a = Some (kind y)" "flags_at (dn @ vs) a = None"
      using ss_between [OF w(2) a(1)] vma_between [OF w(1) a(1)] by (simp_all add: w(3) svs)
    then show "area_restored (remembered svs0 a) (flags_at (dn @ vs) a) (flags_at (dn' @ vs) a)"
      using a y(4) fl by (simp add: flags_at_append flags)
  qed
  have "n \<noteq> vma_next vs False"
  proof (cases vs)
    case Nil
    have "page_aligned (sv_end y)" using ss_cursor_ConsD(2) [OF w(2) [unfolded svs]] .
    then show ?thesis using Nil y(3) aligned_not_max by (auto dest: le_less_trans)
  qed (use above in auto)
  moreover have "from_old vs0 False vs" by (rule w(5))
  ultimately have "gap_done K G svs0 vs0 m False c n dn vs s (s\<lparr>mem := M\<rparr>) dn' vs"
    unfolding gap_done_def
    using frame new spec above
    by (auto simp: vma_cursor_def flip_at_def rest_at_def split: list.splits intro: less_imp_le)
  then show ?thesis using run by (intro that) (simp_all add: svs)
qed

section \<open>The loop\<close>

lemma walk_inv_next:
  assumes inv: "walk_inv svs0 vs0 in_ss in_vmas c dn vs sdn svs" and more: "vs \<noteq> [] \<or> svs \<noteq> []"
    and n: "n = min (vma_next vs in_vmas) (ss_vma_pos svs in_ss)"
  shows "c \<le> n" and "page_aligned n" and "n \<noteq> ULONG_MAX"
proof -
  have w: "vma_cursor in_vmas c dn vs" "ss_cursor in_ss c sdn svs" "page_aligned c"
    using inv by (auto simp: walk_inv_def)
  have v: "c \<le> vma_next vs in_vmas \<and> (vs \<noteq> [] \<longrightarrow> page_aligned (vma_next vs in_vmas))"
    using w(1,3) aligned_not_max [of c] vma_cursor_ConsD(1,2) [of in_vmas c dn "hd vs" "tl vs"]
    by (cases vs) (auto simp: vma_cursor_def)
  have x: "c \<le> ss_vma_pos svs in_ss \<and> (svs \<noteq> [] \<longrightarrow> page_aligned (ss_vma_pos svs in_ss))"
    using w(2,3) aligned_not_max [of c] ss_cursor_ConsD(1,2) [of in_ss c sdn "hd svs" "tl svs"]
    by (cases svs) (auto simp: ss_cursor_def)
  show "c \<le> n" using v x n by simp
  have le: "y \<le> ULONG_MAX" for y :: u64 by (simp add: ULONG_MAX_def)
  show al: "page_aligned n"
  proof (cases "vs = [] \<or> svs = []")
    case True
    moreover have "min ULONG_MAX y = y \<and> min y ULONG_MAX = y" for y :: u64
      by (simp add: min_absorb1 min_absorb2 le)
    ultimately show ?thesis using more v x n by auto
  next
    case False
    then show ?thesis using v x n by (auto simp: min_def)
  qed
  show "n \<noteq> ULONG_MAX" using aligned_not_max [OF al] by auto
qed

lemma walk_inv_step:
  assumes inv: "walk_inv svs0 vs0 in_ss in_vmas c dn vs sdn svs" and more: "vs \<noteq> [] \<or> svs \<noteq> []"
    and n: "n = min (vma_next vs in_vmas) (ss_vma_pos svs in_ss)"
    and gap: "gap_done K G svs0 vs0 m in_vmas c n dn vs s s1 dn' vs'"
  obtains sdn' where
    "walk_inv svs0 vs0 (flip_at n (ss_vma_pos svs in_ss) in_ss) (flip_at n (vma_next vs in_vmas) in_vmas) n dn' vs' sdn'
       (rest_at n (ss_vma_pos svs in_ss) in_ss svs)"
proof -
  note nx = walk_inv_next [OF inv more n]
  have w: "vma_cursor in_vmas c dn vs" "ss_cursor in_ss c sdn svs" "svs0 = sdn @ svs"
    using inv by (auto simp: walk_inv_def)
  obtain sdn' where split: "sdn' @ rest_at n (ss_vma_pos svs in_ss) in_ss svs = sdn @ svs"
    and cur: "ss_cursor (flip_at n (ss_vma_pos svs in_ss) in_ss) n sdn' (rest_at n (ss_vma_pos svs in_ss) in_ss svs)"
    by (rule ss_advance [OF w(2) nx(1) _ nx(3)]) (use n in simp)
  have "front_ok svs0 (flip_at n (vma_next vs in_vmas) in_vmas) (flip_at n (ss_vma_pos svs in_ss) in_ss) n vs'"
    unfolding front_ok_def
  proof
    assume now: "flip_at n (vma_next vs in_vmas) in_vmas \<and> \<not> flip_at n (ss_vma_pos svs in_ss) in_ss"
    show "vm_start (hd vs') = n \<or> vm_start (hd vs') < n \<and> (\<exists>x \<in> set svs0. sv_end x = n)"
    proof (cases in_vmas)
      case False
      then have "n = vma_next vs False" using now by (auto simp: flip_at_def split: if_splits)
      moreover have "vs' = vs" "vs \<noteq> []" using False gap \<open>n = vma_next vs False\<close> nx(3) by (auto simp: gap_done_def)
      ultimately show ?thesis by (cases vs) simp_all
    next
      case True
      then have ne: "n \<noteq> vma_next vs True" using now by (auto simp: flip_at_def)
      then have pos: "n = ss_vma_pos svs in_ss" using n True by (auto simp: min_def split: if_splits)
      then have ss: "in_ss" using now by (auto simp: flip_at_def)
      obtain x xs where svs: "svs = x # xs" using w(2) ss by (cases svs) (auto simp: ss_cursor_def)
      have "sv_end x = n" "c < n" "x \<in> set svs0"
        using pos ss w(2,3) by (auto simp: svs ss_cursor_def)
      moreover have "vm_start (hd vs') \<le> c \<or> vm_start (hd vs') = n"
        using gap True ne w(1) by (cases vs) (auto simp: gap_done_def vma_cursor_def)
      ultimately show ?thesis by (auto dest: le_less_trans)
    qed
  qed
  then show ?thesis
    using gap cur split w(3) nx(2) by (intro that [of sdn']) (simp add: walk_inv_def gap_done_def)
qed

lemma restore_gap_ok:
  assumes inv: "walk_inv svs0 vs0 in_ss in_vmas c dn vs sdn svs" and more: "vs \<noteq> [] \<or> svs \<noteq> []"
    and good: "restorable (map sv_view svs0) vs0" and sinv: "sys_inv K G s" and oom: "no_oom K"
    and laws: "memory_laws K" "area_laws K" "mmap_room K (map sv_view svs0)"
    and list: "mm_mmap (mms (mem s) m) = dn @ vs"
    and n: "n = min (vma_next vs in_vmas) (ss_vma_pos svs in_ss)"
  shows "(\<exists>r s1. restore_gap K m svs in_ss in_vmas c n s = Some (Inl (r, s1)) \<and> r \<noteq> 0 \<and>
        \<not> trim_succeeds K \<and> walk_frame K G svs0 m s s1) \<or>
     (\<exists>s1 dn' vs'. restore_gap K m svs in_ss in_vmas c n s = Some (Inr s1) \<and>
        gap_done K G svs0 vs0 m in_vmas c n dn vs s s1 dn' vs')"
proof -
  note nx = walk_inv_next [OF inv more n]
  have ss: "in_ss \<longrightarrow> svs = hd svs # tl svs"
    using inv by (cases svs) (auto simp: walk_inv_def ss_cursor_def)
  have still: "\<exists>dn' vs'. gap_done K G svs0 vs0 m in_vmas c n dn vs s s dn' vs'"
    if "n = c \<or> in_vmas = in_ss \<or> (in_ss \<and> \<not> is_anonymous_private (hd svs))"
    by (rule gap_quiet [OF inv sinv list nx(1) _ _ nx(3) that]) (use n in auto)
  consider (quiet) "n = c \<or> in_vmas = in_ss" | (unmap) "n \<noteq> c" "in_vmas" "\<not> in_ss"
    | (map) "n \<noteq> c" "\<not> in_vmas" "in_ss" "is_anonymous_private (hd svs)"
    | (lost) "n \<noteq> c" "\<not> in_vmas" "in_ss" "\<not> is_anonymous_private (hd svs)" by blast
  then show ?thesis
  proof cases
    case quiet
    then have "restore_gap K m svs in_ss in_vmas c n s = Some (Inr s)" by (auto simp: restore_gap_def)
    then show ?thesis using still quiet by blast
  next
    case unmap
    have lt: "c < n" using unmap(1) nx(1) by simp
    have inv': "walk_inv svs0 vs0 False True c dn vs sdn svs"
      and n': "n = min (vma_next vs True) (ss_vma_pos svs False)" using inv n unmap by simp_all
    obtain r s1 where run: "vm_munmap K m c (n - c) s = Some (r, s1)" "walk_frame K G svs0 m s s1"
      and fin: "r = 0 \<longrightarrow> (\<exists>dn' vs'. gap_done K G svs0 vs0 m True c n dn vs s s1 dn' vs')" "trim_succeeds K \<longrightarrow> r = 0"
      by (rule gap_unmapped [OF inv' good(1) sinv oom laws(1,2) list n' lt nx(2)])
    then show ?thesis using unmap by (cases "r = 0") (auto simp: restore_gap_def)
  next
    case map
    have lt: "c < n" using map(1) nx(1) by simp
    have inv': "walk_inv svs0 vs0 True False c dn vs sdn svs"
      and n': "n = min (vma_next vs False) (ss_vma_pos svs True)" using inv n map by simp_all
    obtain M dn' where "map_again K m c n (sv_prot (hd svs)) (mem s) = (c, M)" "\<not> IS_ERR c"
      "gap_done K G svs0 vs0 m False c n dn vs s (s\<lparr>mem := M\<rparr>) dn' vs"
      by (rule gap_mapped [OF inv' good sinv laws(2,3) list n' lt map(4)])
    then show ?thesis using map ss by (auto simp: restore_gap_def split: list.splits)
  next
    case lost
    then have "restore_gap K m svs in_ss in_vmas c n s = Some (Inr s)"
      using ss by (auto simp: restore_gap_def split: list.splits)
    then show ?thesis using still lost by blast
  qed
qed

lemma restore_loop_iteration:
  assumes "\<not> (it = None \<and> svs = [])" and "vma_pos s m it in_vmas = Some p"
    and "n = min p (ss_vma_pos svs in_ss)"
  shows "restore_gap K cm svs in_ss in_vmas c n s = Some (Inl out) \<Longrightarrow>
      restore_loop K m cm it svs in_ss in_vmas c s = Some out"
    and "restore_gap K cm svs in_ss in_vmas c n s = Some (Inr s1) \<Longrightarrow>
      restore_loop K m cm it svs in_ss in_vmas c s =
        restore_loop K m cm (if n = p \<and> in_vmas then Option.bind it (vm_next s m) else it)
          (rest_at n (ss_vma_pos svs in_ss) in_ss svs) (flip_at n (ss_vma_pos svs in_ss) in_ss)
          (flip_at n p in_vmas) n s1"
proof -
  note step = restore_loop.simps [of K m cm it svs in_ss in_vmas c s]
  show "restore_loop K m cm it svs in_ss in_vmas c s = Some out"
    if "restore_gap K cm svs in_ss in_vmas c n s = Some (Inl out)"
    unfolding step if_not_P [OF assms(1)] using that by (simp add: assms(2) flip: assms(3))
  show "restore_loop K m cm it svs in_ss in_vmas c s =
        restore_loop K m cm (if n = p \<and> in_vmas then Option.bind it (vm_next s m) else it)
          (rest_at n (ss_vma_pos svs in_ss) in_ss svs) (flip_at n (ss_vma_pos svs in_ss) in_ss)
          (flip_at n p in_vmas) n s1"
    if "restore_gap K cm svs in_ss in_vmas c n s = Some (Inr s1)"
    unfolding step if_not_P [OF assms(1)] using that by (simp add: assms(2) Let_def flip_at_def rest_at_def flip: assms(3))
qed

lemma restore_loop_ok:
  assumes good: "restorable (map sv_view svs0) vs0" and oom: "no_oom K"
    and laws: "memory_laws K" "area_laws K" "mmap_room K (map sv_view svs0)"
  shows "walk_inv svs0 vs0 in_ss in_vmas c dn vs sdn svs \<Longrightarrow> sys_inv K G s \<Longrightarrow>
     mm_mmap (mms (mem s) m) = dn @ vs \<Longrightarrow>
     \<exists>r s'. restore_loop K m m (iter vs) svs in_ss in_vmas c s = Some (r, s') \<and> walk_frame K G svs0 m s s' \<and>
        (trim_succeeds K \<longrightarrow> r = 0) \<and> (r = 0 \<longrightarrow> layout_ok (mm_mmap (mms (mem s') m)) \<and>
          (\<forall>a. area_restored (remembered svs0 a) (flags_at vs0 a) (flags_at (mm_mmap (mms (mem s') m)) a)))"
proof (induction "todo in_vmas vs + todo in_ss svs" arbitrary: in_ss in_vmas c dn vs sdn svs s rule: less_induct)
  case less
  note inv = less.prems(1) and sinv = less.prems(2) and list = less.prems(3)
  have w: "vma_cursor in_vmas c dn vs" "ss_cursor in_ss c sdn svs" "svs0 = sdn @ svs" "spec_so_far svs0 vs0 c (dn @ vs)"
    using inv by (auto simp: walk_inv_def)
  have ok: "layout_ok (dn @ vs)" using w(1) by (simp add: vma_cursor_def)
  note reads = iter_reads [OF list ok]
  show ?case
  proof (cases "vs = [] \<and> svs = []")
    case True
    have "area_restored (remembered svs0 a) (flags_at vs0 a) (flags_at (dn @ vs) a)" for a
    proof (cases "a < c")
      case False
      then have "remembered svs0 a = None" "flags_at (dn @ vs) a = None"
        using True w by (auto simp: vma_cursor_def ss_cursor_def intro!: remembered_below [of _ c] flags_at_below [of _ c])
      then show ?thesis by simp
    qed (use w(4) in \<open>auto simp: spec_so_far_def\<close>)
    then show ?thesis
      using True sinv list ok walk_frame_refl [OF sinv]
      by (subst restore_loop.simps) (simp add: iter_def)
  next
    case False
    then have more: "vs \<noteq> [] \<or> svs \<noteq> []" by blast
    define n where "n = min (vma_next vs in_vmas) (ss_vma_pos svs in_ss)"
    note nx = walk_inv_next [OF inv more n_def]
    have go: "\<not> (iter vs = None \<and> svs = [])" using more by (auto simp: iter_def split: list.splits)
    consider (fail) r s1 where "restore_gap K m svs in_ss in_vmas c n s = Some (Inl (r, s1))" "r \<noteq> 0" "\<not> trim_succeeds K"
        "walk_frame K G svs0 m s s1"
      | (step) s1 dn' vs' where "restore_gap K m svs in_ss in_vmas c n s = Some (Inr s1)"
        "gap_done K G svs0 vs0 m in_vmas c n dn vs s s1 dn' vs'"
      using restore_gap_ok [OF inv more good sinv oom laws list n_def] by blast
    then show ?thesis
    proof cases
      case fail
      have "restore_loop K m m (iter vs) svs in_ss in_vmas c s = Some (r, s1)"
        by (rule restore_loop_iteration(1) [OF go reads(1) n_def fail(1)])
      then show ?thesis using fail by blast
    next
      case step
      let ?v = "flip_at n (vma_next vs in_vmas) in_vmas" and ?x = "flip_at n (ss_vma_pos svs in_ss) in_ss"
      let ?svs = "rest_at n (ss_vma_pos svs in_ss) in_ss svs"
      obtain sdn' where inv': "walk_inv svs0 vs0 ?x ?v n dn' vs' sdn' ?svs"
        by (rule walk_inv_step [OF inv more n_def step(2)])
      have g: "walk_frame K G svs0 m s s1" "mm_mmap (mms (mem s1) m) = dn' @ vs'"
        "iter vs' = iter (rest_at n (vma_next vs in_vmas) in_vmas vs)"
        "length vs' = length (rest_at n (vma_next vs in_vmas) in_vmas vs)"
        using step(2) by (simp_all add: gap_done_def)
      have nv: "vs = [] \<longrightarrow> \<not> in_vmas \<and> n \<noteq> vma_next vs in_vmas" and nsv: "svs = [] \<longrightarrow> \<not> in_ss \<and> n \<noteq> ss_vma_pos svs in_ss"
        using w(1,2) nx(3) by (auto simp: vma_cursor_def ss_cursor_def)
      have "todo ?v vs' = todo ?v (rest_at n (vma_next vs in_vmas) in_vmas vs)" by (simp add: todo_def g(4))
      then have "todo ?v vs' + todo ?x ?svs < todo in_vmas vs + todo in_ss svs"
        using todo_step [OF nv] todo_step [OF nsv] by (fastforce simp: n_def min_def)
      note IH = less.hyps [OF this inv' _ g(2)]
      obtain r s' where run: "restore_loop K m m (iter vs') ?svs ?x ?v n s1 = Some (r, s')"
        and frame: "walk_frame K G svs0 m s1 s'" and trims: "trim_succeeds K \<longrightarrow> r = 0"
        and fin: "r = 0 \<longrightarrow> layout_ok (mm_mmap (mms (mem s') m)) \<and>
          (\<forall>a. area_restored (remembered svs0 a) (flags_at vs0 a) (flags_at (mm_mmap (mms (mem s') m)) a))"
        using IH g(1) by (auto simp: walk_frame_def)
      have "restore_loop K m m (iter vs) svs in_ss in_vmas c s = restore_loop K m m (iter vs') ?svs ?x ?v n s1"
        using restore_loop_iteration(2) [OF go reads(1) n_def step(1)] by (simp add: g(3) iter_rest_at reads(2))
      then show ?thesis using run fin trims walk_frame_trans [OF g(1) frame] by auto
    qed
  qed
qed

lemma restore_vmas_ok:
  assumes inv: "sys_inv K G s" and oom: "no_oom K" and laws: "memory_laws K" "area_laws K" "mmap_room K (map sv_view svs)"
    and td: "td_heap s d = Some data" "svs = all_vmas (ss data)"
    and m: "m = task_mm (tasks s (tsk data))" "m = task_mm (tasks s (current s))"
    and ok: "svs_ok svs" "restorable (map sv_view svs) (mm_mmap (mms (mem s) m))"
  obtains r s' where "restore_vmas K d s = Some (r, s')" and "walk_frame K G svs m s s'"
    and "trim_succeeds K \<longrightarrow> r = 0"
    and "r = 0 \<longrightarrow> layout_ok (mm_mmap (mms (mem s') m)) \<and>
         (\<forall>a. area_restored (remembered svs a) (flags_at (mm_mmap (mms (mem s) m)) a)
                (flags_at (mm_mmap (mms (mem s') m)) a))"
proof -
  let ?vs = "mm_mmap (mms (mem s) m)"
  have vs: "layout_ok ?vs" using ok(2) by (simp add: restorable_def)
  have first: "first_vma s m = iter ?vs" by (simp add: first_vma_def iter_def)
  have "walk_inv svs ?vs False False 0 [] ?vs [] svs"
    using vs ok(1) by (auto simp: walk_inv_def vma_cursor_def ss_cursor_def spec_so_far_def from_old_def front_ok_def
        page_aligned_def offset_in_page_def split: list.splits dest: list.set_sel(2))
  moreover have "?vs = [] @ ?vs" by simp
  ultimately obtain r s' where "restore_loop K m m (iter ?vs) svs False False 0 s = Some (r, s')" "walk_frame K G svs m s s'"
    "trim_succeeds K \<longrightarrow> r = 0"
    "r = 0 \<longrightarrow> layout_ok (mm_mmap (mms (mem s') m)) \<and>
         (\<forall>a. area_restored (remembered svs a) (flags_at ?vs a) (flags_at (mm_mmap (mms (mem s') m)) a))"
    using restore_loop_ok [OF ok(2) oom laws _ inv] by blast
  moreover have "restore_vmas K d s = restore_loop K m m (iter ?vs) svs False False 0 s"
    by (simp add: restore_vmas_def td first flip: m)
  ultimately show ?thesis by (intro that) simp_all
qed

section \<open>The concrete kernel\<close>

lemma concat_cut_areas_outside:
  "(\<And>v. v \<in> set vs \<Longrightarrow> vm_end v \<le> st \<or> en \<le> vm_start v) \<Longrightarrow> concat (map (cut_area st en i) vs) = vs"
  by (induction vs) (auto simp: cut_area_def)

lemma cut_area_trim:
  "vm_start v \<le> st \<Longrightarrow> st < en \<Longrightarrow> en \<le> vm_end v \<Longrightarrow> st = vm_start v \<or> en = vm_end v \<Longrightarrow>
   cut_area st en i v = trim st en v"
  by (auto simp: cut_area_def trim_def)

lemma layout_ok_splitD:
  assumes "layout_ok (pre @ v # post)"
  shows "u \<in> set pre \<Longrightarrow> vm_end u \<le> vm_start v" and "u \<in> set post \<Longrightarrow> vm_end v \<le> vm_start u"
  using assms by (auto simp: layout_ok_def areas_ok_def sorted_wrt_append)

lemma ref_trim_laws: "munmap_trim_law ref_kernel" "trim_succeeds ref_kernel"
proof -
  show "munmap_trim_law ref_kernel"
    unfolding munmap_trim_law_def
  proof (intro allI impI)
    fix m M pre v post and st en :: u64 and M'
    assume list: "mm_mmap (mms M m) = pre @ v # post" and ok: "layout_ok (pre @ v # post)" and al: "page_aligned st"
      and st: "st < en" "vm_start v \<le> st" "en \<le> vm_end v" "st = vm_start v \<or> en = vm_end v"
      and run: "do_munmap ref_kernel m st (en - st) M = (0, M')"
    let ?i = "fresh_id (mm_mmap (mms M m))"
    have "concat (map (cut_area st en ?i) pre) = pre" "concat (map (cut_area st en ?i) post) = post"
      using layout_ok_splitD [OF ok] st by (auto intro!: concat_cut_areas_outside dest: order_trans)
    then have "concat (map (cut_area st en ?i) (pre @ v # post)) = pre @ trim st en v @ post"
      using st by (simp add: cut_area_trim)
    then show "mm_mmap (mms M' m) = pre @ trim st en v @ post"
      using run al list by (auto simp: ref_munmap_def)
  qed
  show "trim_succeeds ref_kernel"
    by (simp add: trim_succeeds_def ref_munmap_def)
qed

lemma insert_area_between:
  "(\<And>v. v \<in> set pre \<Longrightarrow> vm_start v < vm_start u) \<Longrightarrow> (\<And>v. v \<in> set post \<Longrightarrow> vm_start u \<le> vm_start v) \<Longrightarrow>
   insert_area u (pre @ post) = pre @ u # post"
proof (induction pre)
  case Nil
  then show ?case by (cases post) simp_all
next
  case (Cons v pre)
  then have "\<not> vm_start u \<le> vm_start v" by (simp add: not_le)
  then show ?case using Cons by simp
qed

lemma fresh_id_notin: "fresh_id vs \<notin> vma_id ` set vs"
proof
  assume "fresh_id vs \<in> vma_id ` set vs"
  then have "fresh_id vs \<le> Max (insert 0 (set (map vma_id vs)))" by (intro Max_ge) auto
  then show False by (simp add: fresh_id_def)
qed

lemma aligned_not_error: "page_aligned x \<Longrightarrow> \<not> IS_ERR x"
proof
  assume al: "page_aligned x" and err: "IS_ERR x"
  obtain k where k: "unat x = 4096 * k" using al by (auto simp: page_aligned_iff)
  have "unat (- 4095 :: u64) \<le> unat x" using err by (simp add: IS_ERR_def word_le_nat_alt)
  moreover have "unat x < 2 ^ 64" using unsigned_less [of x] by simp
  moreover have "unat (- 4095 :: u64) = 2 ^ 64 - 4095" by simp
  ultimately show False using k by simp
qed

lemma ref_map_again:
  assumes list: "mm_mmap (mms M m) = pre @ post" and free: "free_range pre post st en"
  shows "map_again ref_kernel m st en prot M = (st, upd_mm m (\<lambda>mm. mm\<lparr>mm_mmap := (pre @ [\<lparr>vma_id = fresh_id (pre @ post),
     vm_start = st, vm_end = en, vm_flags = prot, vma_is_anonymous = True\<rparr>]) @ post\<rparr>) M)"
proof -
  let ?u = "\<lparr>vma_id = fresh_id (pre @ post), vm_start = st, vm_end = en, vm_flags = prot, vma_is_anonymous = True\<rparr>"
  have f: "layout_ok (pre @ post)" "st < en" "\<And>v. v \<in> set pre \<Longrightarrow> vm_end v \<le> st" "\<And>v. v \<in> set post \<Longrightarrow> en < vm_start v"
    using free by (auto simp: free_range_def)
  have pre: "vm_start v < st" if "v \<in> set pre" for v
    using layout_okD(4) [OF f(1), of v] f(3) [OF that] that by auto
  have post: "st \<le> vm_start v" if "v \<in> set post" for v using f(2) f(4) [OF that] by auto
  have "insert_area ?u (pre @ post) = pre @ ?u # post" by (rule insert_area_between) (use pre post in auto)
  moreover have "\<not> list_ex (\<lambda>v. vm_start v < en \<and> st < vm_end v) (pre @ post)"
    using f(3,4) by (auto simp: list_ex_iff dest: leD less_trans)
  ultimately show ?thesis by (simp add: ref_mmap_def list upd_mm_def)
qed

lemma ref_mmap_laws: "mmap_law ref_kernel" "mmap_room ref_kernel old"
proof -
  show "mmap_law ref_kernel"
    unfolding mmap_law_def
  proof (intro allI impI)
    fix m :: mm_id and M :: mem and pre post and st en prot :: u64
    assume list: "mm_mmap (mms M m) = pre @ post" and free: "free_range pre post st en"
    let ?u = "\<lparr>vma_id = fresh_id (pre @ post), vm_start = st, vm_end = en, vm_flags = prot, vma_is_anonymous = True\<rparr>"
    have f: "layout_ok (pre @ post)" "st < en" "page_aligned st" "page_aligned en"
      "\<And>v. v \<in> set pre \<Longrightarrow> vm_end v \<le> st" "\<And>v. v \<in> set post \<Longrightarrow> en < vm_start v"
      using free by (auto simp: free_range_def)
    have ok: "layout_ok ((pre @ [?u]) @ post)"
      using f fresh_id_notin [of "pre @ post"]
      by (auto simp: layout_ok_def areas_ok_def area_ok_def sorted_wrt_append image_Un intro: less_imp_le)
    have flags: "flags_at (pre @ [?u]) a = (if st \<le> a \<and> a < en then Some prot else flags_at pre a)" for a
      using flags_at_below [of pre st a] f(5) by (auto simp: flags_at_append split: option.splits)
    have w: "(prot AND VM_WRITE \<noteq> 0) = (prot AND PROT_WRITE \<noteq> 0)"
      by (simp add: VM_WRITE_def PROT_WRITE_def)
    show "IS_ERR (fst (map_again ref_kernel m st en prot M)) \<or>
        fst (map_again ref_kernel m st en prot M) = st \<and>
        (\<exists>pre' fl. snd (map_again ref_kernel m st en prot M) = upd_mm m (\<lambda>mm. mm\<lparr>mm_mmap := pre' @ post\<rparr>) M \<and>
           layout_ok (pre' @ post) \<and> (\<forall>v \<in> set pre'. vm_end v \<le> en) \<and>
           (fl AND VM_WRITE \<noteq> 0) = (prot AND PROT_WRITE \<noteq> 0) \<and>
           (\<forall>a. flags_at pre' a = (if st \<le> a \<and> a < en then Some fl else flags_at pre a)))"
      unfolding ref_map_again [OF list free]
      using ok flags w f(2,5)
      by (intro disjI2 conjI exI [of _ "pre @ [?u]"] exI [of _ prot]) (auto intro: order_trans [OF _ less_imp_le])
  qed
  show "mmap_room ref_kernel old"
    unfolding mmap_room_def
    by (intro allI impI, subst ref_map_again) (auto simp: free_range_def dest: aligned_not_error)
qed

lemma ref_area_laws: "area_laws ref_kernel" "trim_succeeds ref_kernel" "mmap_room ref_kernel old"
  using ref_trim_laws ref_mmap_laws by (simp_all add: area_laws_def)

section \<open>Pages that come back\<close>

text \<open>
  After the restore, a page lies in a writable area again if it still does, or if it was
  private anonymous memory.
\<close>

definition comes_back :: "saved_area list \<Rightarrow> vm_area list \<Rightarrow> u64 \<Rightarrow> bool" where
  "comes_back old vs b \<longleftrightarrow>
     (case flags_at vs b of
        None \<Rightarrow> saved_at old b = Some (True, True)
      | Some f \<Rightarrow> saved_at old b \<noteq> None \<and> f AND VM_WRITE \<noteq> 0)"

lemma flags_at_writable:
  "flags_at (mm_mmap (mms M m)) b = Some f \<Longrightarrow> f AND VM_WRITE \<noteq> 0 \<Longrightarrow> area_writable M m b"
  unfolding area_writable_def by (induction "mm_mmap (mms M m)") (auto simp: flags_at_def list_ex_iff find_Some_iff)

lemma comes_back_writable:
  assumes "area_restored (saved_at old b) (flags_at vs b) (flags_at (mm_mmap (mms M m)) b)" and "comes_back old vs b"
  shows "area_writable M m b"
  using assms by (auto simp: comes_back_def intro: flags_at_writable split: option.splits)

lemma restore_brk_keeps_areas:
  assumes inv: "sys_inv K G s" and oom: "no_oom K" and laws: "memory_laws K"
    and m: "m = task_mm (tasks s (current s))"
    and brk: "PAGE_ALIGN (mm_brk (mms (mem s) m)) = PAGE_ALIGN b \<or> \<not> page_aligned b \<and> b \<le> mm_brk (mms (mem s) m)"
    and run: "restore_brk K b s = Some (r, s')"
  shows "mm_mmap (mms (mem s') m) = mm_mmap (mms (mem s) m)"
proof (cases "PAGE_ALIGN (mm_brk (mms (mem s) m)) = PAGE_ALIGN b")
  case True
  then show ?thesis using run by (auto simp: restore_brk_def Let_def simp flip: m)
next
  case False
  then have "\<not> page_aligned b" "b \<le> mm_brk (mms (mem s) m)" using brk by auto
  then show ?thesis
    using restore_brk_unaligned [OF inv oom _ _ _ m _ _ False] laws run by (auto simp: memory_laws_def)
qed

section \<open>The theorem\<close>

text \<open>C8. \<open>restore_vmas\<close> restores the address space. When no current area spans a hole of the
  snapshot or begins right behind missing memory, and the kernel can trim areas and has room
  for the missing ones, the loop ends with result 0. Then every address outside the
  snapshot is unmapped, every address of the snapshot that was still mapped has the flags it had, and missing
  private anonymous memory is mapped again (writable, if it was recorded so), while other missing memory stays
  away. The bytes of the pages that belong to the snapshot are not touched, and every page
  that is unmapped has been saved: the invariant holds.\<close>

theorem restore_vmas_restores:
  assumes "sys_inv K G s" and "no_oom K" and "memory_laws K" and "area_laws K" and "trim_succeeds K"
    and "mmap_room K (map sv_view (all_vmas (ss data)))" and "td_heap s d = Some data"
    and "m = task_mm (tasks s (tsk data))" and "m = task_mm (tasks s (current s))"
    and "svs_ok (all_vmas (ss data))"
    and "restorable (map sv_view (all_vmas (ss data))) (mm_mmap (mms (mem s) m))"
  shows "\<exists>s'. restore_vmas K d s = Some (0, s') \<and>
     (\<forall>a. area_restored (saved_at (map sv_view (all_vmas (ss data))) a)
            (flags_at (mm_mmap (mms (mem s) m)) a) (flags_at (mm_mmap (mms (mem s') m)) a)) \<and>
     (\<forall>a. saved_at (map sv_view (all_vmas (ss data))) a \<noteq> None \<longrightarrow>
            user_view K m (mem s') a = user_view K m (mem s) a) \<and>
     sys_inv K G s'"
proof -
  obtain r s' where "restore_vmas K d s = Some (r, s')" and "walk_frame K G (all_vmas (ss data)) m s s'"
    and "trim_succeeds K \<longrightarrow> r = 0"
    and "r = 0 \<longrightarrow> layout_ok (mm_mmap (mms (mem s') m)) \<and>
         (\<forall>a. area_restored (remembered (all_vmas (ss data)) a) (flags_at (mm_mmap (mms (mem s) m)) a)
                (flags_at (mm_mmap (mms (mem s') m)) a))"
    by (rule restore_vmas_ok [OF assms(1-4,6,7) refl assms(8-11)])
  then show ?thesis using assms(5) by (auto simp: walk_frame_def)
qed

section \<open>A concrete process\<close>

lemma restore_state_inv: "sys_inv ref_kernel demo_ghost (restore_state now old)"
proof -
  let ?svs = "map (\<lambda>(st, en). \<lparr>sv_id = 1, sv_start = st, sv_end = en, is_anonymous_private = True, sv_prot = 7\<rparr>) old"
  let ?data = "upd_ss (\<lambda>x. x\<lparr>all_vmas := ?svs\<rparr>) demo_data"
  have "sys_inv ref_kernel demo_ghost (put_td 100 ?data demo_mem_state)"
    by (rule store_same_pages [OF demo_sys_inv demo_tracked]) simp_all
  then have "sys_inv ref_kernel demo_ghost ((put_td 100 ?data demo_mem_state)
      \<lparr>mem := upd_mm 0 (\<lambda>mm. mm\<lparr>mm_mmap := now\<rparr>) (mem (put_td 100 ?data demo_mem_state))\<rparr>)"
    by (rule sys_inv_areas) simp_all
  then show ?thesis by (simp add: restore_state_def put_td_def demo_mem_state_def)
qed

text \<open>A new area is unmapped, one that grew is cut, and one that is missing is mapped again.\<close>

theorem restore_vmas_restores_witness:
  "\<exists>s'. restore_vmas ref_kernel 100
       (restore_state [area 1 0x1000 0x4000, area 2 0x8000 0x9000] [(0x1000, 0x2000), (0x5000, 0x6000)]) = Some (0, s') \<and>
     flags_at (mm_mmap (mms (mem s') 0)) 0x1000 = Some 3 \<and> flags_at (mm_mmap (mms (mem s') 0)) 0x3000 = None \<and>
     flags_at (mm_mmap (mms (mem s') 0)) 0x5000 \<noteq> None \<and> flags_at (mm_mmap (mms (mem s') 0)) 0x8000 = None \<and>
     user_view ref_kernel 0 (mem s') 0x1000 = demo_page"
proof -
  let ?now = "[area 1 0x1000 0x4000, area 2 0x8000 0x9000]" and ?old = "[(0x1000, 0x2000), (0x5000, 0x6000)] :: (u64 \<times> u64) list"
  let ?s = "restore_state ?now ?old"
  let ?data = "upd_ss (\<lambda>x. x\<lparr>all_vmas := map (\<lambda>(st, en). \<lparr>sv_id = 1, sv_start = st, sv_end = en,
                     is_anonymous_private = True, sv_prot = 7\<rparr>) ?old\<rparr>) demo_data"
  have s: "td_heap ?s 100 = Some ?data" "0 = task_mm (tasks ?s (tsk ?data))" "0 = task_mm (tasks ?s (current ?s))"
    "mm_mmap (mms (mem ?s) 0) = ?now"
    by (simp_all add: restore_state_def demo_mem_state_def)
  have svs: "svs_ok (all_vmas (ss ?data))" "map sv_view (all_vmas (ss ?data)) = [(0x1000, 0x2000, True, True), (0x5000, 0x6000, True, True)]"
    by (simp_all add: svs_ok_def page_aligned_def offset_in_page_def sv_view_def PROT_WRITE_def)
  have now: "restorable [(0x1000, 0x2000, True, True), (0x5000, 0x6000, True, True)] ?now"
    by (simp add: restorable_def layout_ok_def areas_ok_def area_ok_def area_def spans_hole_def after_missing_def
        page_aligned_def offset_in_page_def)
  have view: "user_view ref_kernel 0 (mem ?s) 0x1000 = demo_page"
    by (simp add: restore_state_def user_view_def content_def demo_mem_def demo_mm_def)
  obtain s' where run: "restore_vmas ref_kernel 100 ?s = Some (0, s')"
    and at: "\<And>a. area_restored (saved_at [(0x1000, 0x2000, True, True), (0x5000, 0x6000, True, True)] a)
            (flags_at ?now a) (flags_at (mm_mmap (mms (mem s') 0)) a)"
    and same: "\<And>a. saved_at [(0x1000, 0x2000, True, True), (0x5000, 0x6000, True, True)] a \<noteq> None \<Longrightarrow>
            user_view ref_kernel 0 (mem s') a = user_view ref_kernel 0 (mem ?s) a"
    using restore_vmas_restores [OF restore_state_inv ref_no_oom ref_memory_laws(1) ref_area_laws s(1-3) svs(1),
        unfolded svs(2) s(4), OF now] by blast
  have "flags_at (mm_mmap (mms (mem s') 0)) 0x1000 = Some 3" "flags_at (mm_mmap (mms (mem s') 0)) 0x3000 = None"
    "flags_at (mm_mmap (mms (mem s') 0)) 0x5000 \<noteq> None" "flags_at (mm_mmap (mms (mem s') 0)) 0x8000 = None"
    using at [of "0x1000"] at [of "0x3000"] at [of "0x5000"] at [of "0x8000"] by (auto simp: area_def split: option.splits)
  moreover have "user_view ref_kernel 0 (mem s') 0x1000 = demo_page" using same [of "0x1000"] view by simp
  ultimately show ?thesis using run by blast
qed

end
