(* ===== verification/Snapshot.thy ===== *)
theory Snapshot
  imports Restore_Areas
begin

text \<open>
  \<open>src/snapshot.c\<close>: taking, restoring and dropping the snapshot of the calling process, and
  what happens when the process exits. The operations compose those of the other components.
\<close>

section \<open>State\<close>

text \<open>
  \<open>signal_threads\<close> is what \<open>for_each_thread\<close> visits: the threads of the group of a task.
  \<open>do_exit_calls\<close> logs the calls of the original \<open>do_exit\<close>, which do not return.
\<close>

record system_state = threads_state +
  signal_threads :: "task \<Rightarrow> task list"
  do_exit_calls :: "(task \<times> int) list"

abbreviation current_mm :: "'s mem_state_scheme \<Rightarrow> mm_struct" where
  "current_mm s \<equiv> mms (mem s) (task_mm (tasks s (current s)))"

section \<open>Taking\<close>

definition initialize_snapshot :: "u32 \<Rightarrow> task_data \<Rightarrow> 's mem_state_scheme \<Rightarrow> task_data" where
  "initialize_snapshot cfg data s =
     (let data1 = data\<lparr>config := cfg\<rparr>;
          data2 = set_snapshot (set_had_snapshot data1)
      in upd_ss (\<lambda>x. x\<lparr>ss_regs := task_regs (tasks s (current s)), oldbrk := mm_brk (current_mm s)\<rparr>) data2)"

text \<open>\<open>take_snapshot\<close> does not test the result of \<open>ensure_task_data\<close> before it reads
  through it. The results of the memory and the file part are not passed on.\<close>

definition take_snapshot ::
  "'k files_kernel_scheme \<Rightarrow> u32 \<Rightarrow> 's files_state_scheme \<Rightarrow> (int \<times> 's files_state_scheme) option" where
  "take_snapshot K cfg s =
     do { (found, s1) \<leftarrow> ensure_task_data K (current s) s;
          d \<leftarrow> found;
          data \<leftarrow> td_heap s1 d;
          if have_snapshot data then Some (0, s1)
          else do {
            (_, s2) \<leftarrow> take_memory_snapshot K d (put_td d (initialize_snapshot cfg data s1) s1);
            (_, s3) \<leftarrow> take_files_snapshot K d s2;
            Some (1, s3) } }"

section \<open>Restoring\<close>

definition recover_state ::
  "'k kernel_scheme \<Rightarrow> nat \<Rightarrow> 's mem_state_scheme \<Rightarrow> 's mem_state_scheme option" where
  "recover_state K d s =
     do { data \<leftarrow> td_heap s d;
          let s1 = (if config_has (config data) AFL_SNAPSHOT_REGS
                    then s\<lparr>tasks := (tasks s)(current s := (tasks s (current s))\<lparr>task_regs := ss_regs (ss data)\<rparr>)\<rparr>
                    else s);
          (_, s2) \<leftarrow> restore_brk K (oldbrk (ss data)) s1;
          Some s2 }"

definition restore_snapshot ::
  "'k files_kernel_scheme \<Rightarrow> nat \<Rightarrow> 's system_state_scheme \<Rightarrow> 's system_state_scheme option" where
  "restore_snapshot K d s =
     do { s1 \<leftarrow> recover_threads_snapshot d s;
          s2 \<leftarrow> recover_state K d s1;
          (_, s3) \<leftarrow> recover_memory_snapshot K d s2;
          (_, s4) \<leftarrow> recover_files_snapshot K d (signal_threads s3 (current s3)) s3;
          Some s4 }"

definition recover_snapshot ::
  "'k files_kernel_scheme \<Rightarrow> 's system_state_scheme \<Rightarrow> (int \<times> 's system_state_scheme) option" where
  "recover_snapshot K s =
     do { found \<leftarrow> get_task_data (current s) s;
          (case found of
             None \<Rightarrow> Some (1, s)
           | Some d \<Rightarrow> do { s1 \<leftarrow> restore_snapshot K d s; Some (0, s1) }) }"

section \<open>Dropping\<close>

definition clean_snapshot ::
  "'k kernel_scheme \<Rightarrow> 's files_state_scheme \<Rightarrow> 's files_state_scheme option" where
  "clean_snapshot K s =
     do { found \<leftarrow> get_task_data (current s) s;
          (case found of
             None \<Rightarrow> Some s
           | Some d \<Rightarrow>
               do { s1 \<leftarrow> clean_memory_snapshot K d s;
                    s2 \<leftarrow> clean_files_snapshot d s1;
                    data \<leftarrow> td_heap s2 d;
                    Some (remove_task_data d (put_td d (clear_snapshot data) s2)) }) }"

text \<open>The result says whether the process goes on exiting.\<close>

definition exit_snapshot ::
  "'k files_kernel_scheme \<Rightarrow> 's system_state_scheme \<Rightarrow> (int \<times> 's system_state_scheme) option" where
  "exit_snapshot K s =
     do { found \<leftarrow> get_task_data (current s) s;
          (case found of
             None \<Rightarrow> Some (1, s)
           | Some d \<Rightarrow>
               do { data \<leftarrow> td_heap s d;
                    if config_has (config data) AFL_SNAPSHOT_EXIT \<and> have_snapshot data
                    then do { s1 \<leftarrow> restore_snapshot K d s; Some (0, s1) }
                    else do { s1 \<leftarrow> (if had_snapshot data then clean_snapshot K s else Some s);
                              Some (1, s1) } }) }"

text \<open>The original \<open>do_exit\<close> is logged. In C it does not come back, so the \<open>BUG()\<close> after each of its
  calls is never reached; the model ends the handler at the call.\<close>

definition do_exit_orig :: "int \<Rightarrow> 's system_state_scheme \<Rightarrow> 's system_state_scheme" where
  "do_exit_orig code s = s\<lparr>do_exit_calls := do_exit_calls s @ [(current s, code)]\<rparr>"

definition do_exit_hook ::
  "'k kernel_scheme \<Rightarrow> int \<Rightarrow> 's system_state_scheme \<Rightarrow> 's system_state_scheme option" where
  "do_exit_hook K code s =
     do { found \<leftarrow> get_task_data (current s) s;
          (case found of
             None \<Rightarrow> Some (do_exit_orig code s)
           | Some d \<Rightarrow>
               do { data \<leftarrow> td_heap s d;
                    s1 \<leftarrow> (if had_snapshot data then clean_snapshot K s else Some s);
                    Some (do_exit_orig code s1) }) }"

section \<open>The machine behind the operations\<close>

text \<open>Whatever lies outside the registry, the cache and the memory does not matter for the
  invariant of the snapshots.\<close>

definition same_machine :: "'s mem_state_scheme \<Rightarrow> 's mem_state_scheme \<Rightarrow> bool" where
  "same_machine s s' \<longleftrightarrow>
     td_heap s' = td_heap s \<and> task_data_list s' = task_data_list s \<and> rcu_pending s' = rcu_pending s \<and>
     last_task s' = last_task s \<and> last_task_data s' = last_task_data s \<and> this_cpu s' = this_cpu s \<and>
     mem s' = mem s \<and> alloc_next s \<le> alloc_next s'"

lemma same_machine_registry: "same_machine s s' \<Longrightarrow> registry_map s' = registry_map s"
  by (rule registry_map_cong) (simp_all add: same_machine_def owner_of_def fun_eq_iff)

lemma same_machine_tracked: "same_machine s s' \<Longrightarrow> tracked s' m d data = tracked s m d data"
  by (simp add: tracked_def same_machine_registry) (simp add: same_machine_def)

lemma same_machine_inv:
  assumes "same_machine s s'" and inv: "sys_inv K G s"
  shows "sys_inv K G s'"
  using inv
proof (rule sys_inv_registry_cong)
  show r: "registry_map s' = registry_map s" using assms(1) by (rule same_machine_registry)
  show "registry_ok s'"
    using sys_invD(1) [OF inv]
    by (rule registry_ok_cong [rotated -1])
      (use assms(1) in \<open>simp_all add: same_machine_def owner_of_def fun_eq_iff\<close>)
  show "cache_ok K s'"
    using sys_invD(2) [OF inv]
    by (rule cache_ok_cong [rotated -1]) (use assms(1) r in \<open>simp_all add: same_machine_def\<close>)
qed (use assms(1) in \<open>simp_all add: same_machine_def\<close>)

text \<open>Storing data that differs in the saved files only.\<close>

lemma set_files_inv:
  assumes inv: "sys_inv K G s" and tr: "tracked s m d data"
  shows "sys_inv K G (put_td d (set_files f offs data) s)"
    and "tracked (put_td d (set_files f offs data) s) m d (set_files f offs data)"
  by (rule store_same_pages [OF inv tr]; simp add: set_files_def)+

section \<open>Taking a snapshot of the process\<close>

text \<open>
  A process whose data exists but holds no snapshot: the state in which \<open>take_snapshot\<close>
  finds it after \<open>ensure_task_data\<close>.
\<close>

definition idle_process ::
  "'k kernel_scheme \<Rightarrow> ghost \<Rightarrow> mm_id \<Rightarrow> nat \<Rightarrow> vmrange list \<Rightarrow> vmrange list \<Rightarrow> 's mem_state_scheme \<Rightarrow> bool" where
  "idle_process K G m d al bl s \<longleftrightarrow>
     sys_inv K G s \<and> m = task_mm (tasks s (current s)) \<and> owner s m = current s \<and>
     registry_map s (current s) = Some d \<and> td_heap s d = Some (new_task_data (current s)) \<and>
     range_list s (Allowlist d) al \<and> range_list s (Blocklist d) bl \<and>
     ranges_aligned al \<and> ranges_aligned bl \<and> ranges_disjoint al bl \<and>
     areas_ok (mm_mmap (mms (mem s) m)) \<and> no_swap (mem s)"

lemma initialize_snapshot_simps [simp]:
  "tsk (initialize_snapshot cfg data s) = tsk data" "config (initialize_snapshot cfg data s) = cfg"
  "have_snapshot (initialize_snapshot cfg data s)" "had_snapshot (initialize_snapshot cfg data s)"
  "no_pages (initialize_snapshot cfg data s) = no_pages data"
  "ss_regs (ss (initialize_snapshot cfg data s)) = task_regs (tasks s (current s))"
  "oldbrk (ss (initialize_snapshot cfg data s)) = mm_brk (current_mm s)"
  by (simp_all add: initialize_snapshot_def Let_def status_defs no_pages_def word_flag_or)

lemma no_pages_new [simp]: "no_pages (new_task_data t)"
  by (simp add: no_pages_def new_task_data_def zero_snapshot_def)

lemma idle_ready:
  "idle_process K G m d al bl s \<Longrightarrow>
   ready_to_take K G m d al bl (initialize_snapshot cfg (new_task_data (current s)) s) s"
  by (auto simp: idle_process_def ready_to_take_def)

text \<open>\<open>ensure_task_data\<close> registers fresh data with empty lists for a process that has none.\<close>

lemma ensure_inv:
  assumes inv: "sys_inv K G s" and oom: "no_oom K" and none: "registry_map s (current s) = None"
    and task: "current s \<noteq> 0"
    and alone: "\<And>m m'. owner s m = current s \<Longrightarrow> owner s m' = current s \<Longrightarrow> m' = m"
  obtains s1 where "ensure_task_data K (current s) s = Some (Some (alloc_next s), s1)" and "sys_inv K G s1"
    and "registry_map s1 = (registry_map s)(current s \<mapsto> alloc_next s)"
    and "td_heap s1 = (td_heap s)(alloc_next s \<mapsto> new_task_data (current s))"
    and "range_list s1 (Allowlist (alloc_next s)) []" and "range_list s1 (Blocklist (alloc_next s)) []"
    and "tasks s1 = tasks s" and "current s1 = current s"
    and "mem s1 = mem s" and "mem_state.more s1 = mem_state.more s"
proof -
  let ?d = "alloc_next s" and ?t = "current s"
  let ?h1 = "INIT_LIST_HEAD (Allowlist ?d) (lheap s)"
  define s1 where "s1 = (put_td ?d (new_task_data ?t) (s\<lparr>alloc_next := Suc ?d\<rparr>))
     \<lparr>lheap := INIT_LIST_HEAD (Blocklist ?d) ?h1, task_data_list := ?d # task_data_list s\<rparr>"
  have ok: "registry_ok s" using inv by (rule sys_invD)
  have run: "ensure_task_data K ?t s = Some (Some ?d, s1)"
    using none oom
    by (simp add: ensure_task_data_def get_task_data_map [OF ok] kmalloc_def no_oom_def Let_def s1_def put_td_def)
  have td: "td_heap s1 = (td_heap s)(?d \<mapsto> new_task_data ?t)"
    and l: "task_data_list s1 = ?d # task_data_list s"
    and a: "alloc_next s1 = Suc ?d" and p: "rcu_pending s1 = rcu_pending s"
    and mem: "mem s1 = mem s" "tasks s1 = tasks s" "current s1 = current s" "mem_state.more s1 = mem_state.more s"
    and cache: "last_task s1 = last_task s" "last_task_data s1 = last_task_data s" "this_cpu s1 = this_cpu s"
    by (simp_all add: s1_def put_td_def)
  have ok1: "registry_ok s1" by (rule registry_ok_new [OF ok none task(1) td l a p])
  have r: "registry_map s1 = (registry_map s)(?t \<mapsto> ?d)" by (rule registry_map_new [OF ok none td l])
  have old: "td_heap s1 e = td_heap s e" if "registry_map s t = Some e" for t e
  proof -
    have "e \<in> set (task_data_list s)" using that by (simp add: registry_map_eq_Some_iff [OF ok])
    then have "e < ?d" by (intro registry_ok_used [OF ok]) simp
    then show ?thesis by (simp add: td)
  qed
  have "cache_ok K s1"
    unfolding cache_ok_def
  proof (intro conjI allI impI)
    show "this_cpu s1 < nr_cpu_ids K" using sys_invD(2) [OF inv] by (simp add: cache_ok_def cache)
    fix i assume "i < nr_cpu_ids K"
    then have c: "cache_entry_ok s i" using sys_invD(2) [OF inv] by (simp add: cache_ok_def)
    show "cache_entry_ok s1 i"
    proof (cases "last_task s i = ?t")
      case True
      then show ?thesis using c none by (auto simp: cache_entry_ok_def cache r td split: option.splits)
    next
      case False
      then show ?thesis using c old
        by (auto simp: cache_entry_ok_def cache r split: option.splits)
    qed
  qed
  moreover have "page_inv K n (fst (G n)) (snd (G n)) x (mem s)"
    if "registry_map s1 (owner s n) = Some e" "td_heap s1 e = Some x" "have_snapshot x" for n e x
  proof (cases "owner s n = ?t")
    case True
    with that show ?thesis by (auto simp: r td)
  next
    case False
    with that(1) have e: "registry_map s (owner s n) = Some e" by (simp add: r)
    have "td_heap s e = Some x" using that(2) old [OF e] by simp
    from sys_invD(4) [OF inv e this that(3)] show ?thesis .
  qed
  moreover have "n' = n" if "registry_map s1 (owner s n) \<noteq> None" "owner s n' = owner s n" for n n'
  proof (cases "owner s n = ?t")
    case True
    then show ?thesis using alone that(2) by simp
  next
    case False
    then have "registry_map s (owner s n) \<noteq> None" using that(1) by (simp add: r)
    with that(2) inv show ?thesis unfolding sys_inv_def by blast
  qed
  ultimately have "sys_inv K G s1"
    using ok1 sys_invD(3) [OF inv] unfolding sys_inv_def mem by blast
  moreover have "range_list s1 (Allowlist ?d) []" "range_list s1 (Blocklist ?d) []"
    unfolding range_list_def
    by (intro exI [of _ "[]"], simp add: s1_def put_td_def dlist_init dlist_init_frame)+
  ultimately show ?thesis using run r td mem by (rule_tac that)
qed

text \<open>Such a process is then ready to take a snapshot.\<close>

lemma ensure_idle:
  assumes inv: "sys_inv K G s" and oom: "no_oom K" and none: "registry_map s (current s) = None"
    and task: "current s \<noteq> 0" "m = task_mm (tasks s (current s))" "owner s m = current s"
    and alone: "\<And>m'. owner s m' = current s \<Longrightarrow> m' = m"
    and areas: "areas_ok (mm_mmap (mms (mem s) m))" "no_swap (mem s)"
  obtains s1 where "ensure_task_data K (current s) s = Some (Some (alloc_next s), s1)"
    and "idle_process K G m (alloc_next s) [] [] s1" and "tasks s1 = tasks s" and "current s1 = current s"
    and "mem s1 = mem s" and "mem_state.more s1 = mem_state.more s"
    and "td_heap s1 = (td_heap s)(alloc_next s \<mapsto> new_task_data (current s))"
    and "registry_map s1 = (registry_map s)(current s \<mapsto> alloc_next s)"
proof -
  obtain s1 where run: "ensure_task_data K (current s) s = Some (Some (alloc_next s), s1)" and inv1: "sys_inv K G s1"
    and r: "registry_map s1 = (registry_map s)(current s \<mapsto> alloc_next s)"
    and td: "td_heap s1 = (td_heap s)(alloc_next s \<mapsto> new_task_data (current s))"
    and lists: "range_list s1 (Allowlist (alloc_next s)) []" "range_list s1 (Blocklist (alloc_next s)) []"
    and mem: "tasks s1 = tasks s" "current s1 = current s" "mem s1 = mem s" "mem_state.more s1 = mem_state.more s"
    by (rule ensure_inv [OF inv oom none task(1)]) (use alone in blast)+
  have "idle_process K G m (alloc_next s) [] [] s1"
    unfolding idle_process_def mem using task areas inv1 lists
    by (simp add: r td ranges_aligned_def ranges_disjoint_def)
  with run show ?thesis by (rule that) (simp_all add: mem td r)
qed

end
