(* ===== verification/Lifecycle.thy ===== *)
theory Lifecycle
  imports Snapshot
begin

text \<open>
  What the operations of \<open>src/snapshot.c\<close> do together: taking a snapshot, running the
  process, and restoring it brings back its memory, registers, break and files; the rest of the
  lifecycle follows in theory \<open>Phases\<close>.
\<close>

section \<open>Taking\<close>

text \<open>The files of the process can be saved: its table exists and can be duplicated.\<close>

definition files_ready :: "'k files_kernel_scheme \<Rightarrow> files_struct \<Rightarrow> 's files_state_scheme \<Rightarrow> bool" where
  "files_ready K fs s \<longleftrightarrow>
     llseek_law K \<and> dup_fd_law K \<and> files_structs s (task_files (tasks s (current s))) = Some fs \<and>
     (\<exists>new. dup_fd K fs = Inr new)"

text \<open>What a state after \<open>take_snapshot\<close> has to do with the state \<open>s\<close> before.\<close>

definition snapshot_made ::
  "'k files_kernel_scheme \<Rightarrow> u32 \<Rightarrow> mm_id \<Rightarrow> nat \<Rightarrow> files_struct \<Rightarrow> 's files_state_scheme
   \<Rightarrow> 's files_state_scheme \<Rightarrow> task_data \<Rightarrow> bool" where
  "snapshot_made K cfg m d fs s s' data \<longleftrightarrow>
     tracked s' m d data \<and> tsk data = current s \<and> config data = cfg \<and> had_snapshot data \<and>
     ss_regs (ss data) = task_regs (tasks s (current s)) \<and> oldbrk (ss data) = mm_brk (mms (mem s) m) \<and>
     map sv_view (all_vmas (ss data)) = map area_view (mm_mmap (mms (mem s) m)) \<and>
     dirty_pages (ss data) = [] \<and> tasks s' = tasks s \<and> current s' = current s \<and>
     file_objects s' = file_objects s \<and> files_state.more s' = files_state.more s \<and>
     alloc_next s \<le> alloc_next s' \<and> (\<forall>i < alloc_next s. files_structs s' i = files_structs s i) \<and>
     same_areas (mem s) (mem s') \<and> task_data_list s' = task_data_list s \<and>
     (\<forall>e. e \<noteq> d \<longrightarrow> td_heap s' e = td_heap s e) \<and>
     (\<forall>n b. user_view K n (mem s') b = user_view K n (mem s) b) \<and>
     (config_has cfg AFL_SNAPSHOT_FDS \<longrightarrow>
        files_saved d (open_fds fs) (\<lambda>f. position (file_objects s f)) s') \<and>
     (\<forall>i. sf_files (ss_files (ss data)) = Some i \<longrightarrow> alloc_next s \<le> i \<and> i < alloc_next s')"

lemma taking_same_env:
  assumes "taking K m d (invalidate_task_data_cache K t (put_td d data0 s)) s' data'"
  shows "same_env s s'"
proof -
  have "same_env (put_td d data0 s) (invalidate_task_data_cache K t (put_td d data0 s))"
    by (rule invalidate_frame)
  with assms show ?thesis by (auto simp: taking_def same_env_def put_td_def)
qed

lemma taken_core:
  "area_taken K m cfg al bl M vs data0 data' \<Longrightarrow> same_core data0 data'"
  by (simp add: area_taken_def)

text \<open>The file part of taking, on a process that is already tracked.\<close>

lemma take_files_tracked:
  assumes inv: "sys_inv K G s" and tr: "tracked s m d data" and oom: "no_oom K"
    and ready: "config_has (config data) AFL_SNAPSHOT_FDS \<Longrightarrow> files_ready K fs s"
  obtains s' f offs where "take_files_snapshot K d s = Some (0, s')" and "sys_inv K G s'"
    and "tracked s' m d (set_files f offs data)" and "tasks s' = tasks s" and "current s' = current s"
    and "mem s' = mem s" and "file_objects s' = file_objects s"
    and "files_state.more s' = files_state.more s" and "alloc_next s \<le> alloc_next s'"
    and "\<forall>i < alloc_next s. files_structs s' i = files_structs s i"
    and "task_data_list s' = task_data_list s" and "\<forall>e. e \<noteq> d \<longrightarrow> td_heap s' e = td_heap s e"
    and "config_has (config data) AFL_SNAPSHOT_FDS \<longrightarrow>
         files_saved d (open_fds fs) (\<lambda>f. position (file_objects s f)) s'"
    and "\<forall>i. f = Some i \<longrightarrow> alloc_next s \<le> i \<and> i < alloc_next s'"
proof (cases "config_has (config data) AFL_SNAPSHOT_FDS")
  case False
  have run: "take_files_snapshot K d s = Some (0, put_td d (set_files None None data) s)"
    using False tr by (simp add: take_files_snapshot_def tracked_def)
  have "file_objects (put_td d x s) = file_objects s" "files_structs (put_td d x s) = files_structs s"
    "files_state.more (put_td d x s) = files_state.more s" for x by (simp_all add: put_td_def)
  then show ?thesis
    by (rule_tac that [OF run set_files_inv [OF inv tr]]) (use False in simp_all)
next
  case True
  note td = tracked_td [OF tr]
  obtain new where laws: "llseek_law K" "dup_fd_law K"
    and fs: "files_structs s (task_files (tasks s (current s))) = Some fs" and dup: "dup_fd K fs = Inr new"
    using ready [OF True] by (auto simp: files_ready_def)
  have new: "fs_count new = 1" "open_fds new = open_fds fs" using laws(2) dup by (simp_all add: dup_fd_law_def)
  let ?n = "alloc_next s"
  let ?offs = "record_positions (file_objects s) (open_fds new) (replicate (fs_max_fds new) (- 1))"
  let ?s1 = "s\<lparr>files_structs := (files_structs s)(?n \<mapsto> new), alloc_next := Suc (Suc ?n)\<rparr>"
  let ?s' = "put_td d (set_files (Some ?n) (Some ?offs) data) ?s1"
  have run: "take_files_snapshot K d s = Some (0, ?s')"
    by (rule take_files_snapshot_ok [OF laws(1) td True fs dup]) (use oom in \<open>simp add: no_oom_def\<close>)
  have same: "same_machine s ?s1" by (simp add: same_machine_def)
  have "sys_inv K G ?s1" and "tracked ?s1 m d data"
    using same_machine_inv [OF same inv] same_machine_tracked [OF same] tr by auto
  then have inv': "sys_inv K G ?s'" and tr': "tracked ?s' m d (set_files (Some ?n) (Some ?offs) data)"
    by (rule set_files_inv)+
  have pos: "fd < length ?offs \<and> ?offs ! fd = position (file_objects s f)"
    if "(fd, f) \<in> set (open_fds new)" for fd f
    using recorded_positions [of ?offs new "file_objects s", OF _ refl that] by simp
  have s': "files_structs ?s' ?n = Some new" "file_objects ?s' = file_objects s"
    "files_state.more ?s' = files_state.more s" "\<forall>i < alloc_next s. files_structs ?s' i = files_structs s i"
    by (simp_all add: put_td_def)
  have saved: "files_saved d (open_fds fs) (\<lambda>f. position (file_objects s f)) ?s'"
    unfolding files_saved_def
    using True pos new s'(1)
    by (intro exI [of _ "set_files (Some ?n) (Some ?offs) data"] exI [of _ ?n] exI [of _ ?offs] exI [of _ new])
      auto
  show ?thesis by (rule that [OF run inv' tr']) (use s'(2-4) saved in simp_all)
qed

lemma initialize_no_pages: "no_pages (initialize_snapshot cfg (new_task_data t) s)"
  by simp

lemma take_snapshot_idle:
  assumes idle: "idle_process K G m d al bl s" and oom: "no_oom K" and law: "vma_walker_law K"
    and files: "config_has cfg AFL_SNAPSHOT_FDS \<Longrightarrow> files_ready K fs s"
  obtains s' data orig U where "take_snapshot K cfg s = Some (1, s')" and "snapshot_made K cfg m d fs s s' data"
    and "sys_inv K (G(m := (orig, U))) s'"
    and "\<And>b. covered m cfg al bl (mem s) b \<Longrightarrow> promised K m orig U b = Some (user_view K m (mem s) b)"
    and "\<And>b. orig b \<noteq> None \<Longrightarrow> pte_present (pte_of (mem s) m b) \<and> covered m cfg al bl (mem s) b"
proof -
  let ?data0 = "initialize_snapshot cfg (new_task_data (current s)) s"
  have id: "sys_inv K G s" "m = task_mm (tasks s (current s))"
    "registry_map s (current s) = Some d" "td_heap s d = Some (new_task_data (current s))"
    "areas_ok (mm_mmap (mms (mem s) m))"
    using idle unfolding idle_process_def by blast+
  obtain s1 data1 where take: "take_memory_snapshot K d (put_td d ?data0 s) = Some (0, s1)"
    and tr: "tracked s1 m d data1" and clean: "dirty_pages (ss data1) = []"
    and taken: "area_taken K m (config ?data0) al bl (mem s) (mm_mmap (mms (mem s) m)) ?data0 data1"
    and inv: "sys_inv K (G(m := (orig_of K m (mem s) data1, absent_pages m (mem s) data1))) s1"
    and made: "pages_made K m (mem s) data1 (mem s1)" and w: "wrprotected m (mem s) (mem s1)"
    and tk: "taking K m d (invalidate_task_data_cache K (current s) (put_td d ?data0 s)) s1 data1"
    by (rule ready_to_takeE [OF idle_ready [OF idle] oom law])
  have core: "same_core ?data0 data1" using taken by (rule taken_core)
  have env: "same_env s s1" using tk by (rule taking_same_env)
  then have env': "tasks s1 = tasks s" "current s1 = current s"
    and files1: "files_structs s1 = files_structs s" "file_objects s1 = file_objects s"
    and more1: "files_state.more s1 = files_state.more s" "alloc_next s \<le> alloc_next s1"
    by (simp_all add: same_env_def same_env_files same_env_more)
  have cfg: "config data1 = cfg" using core by (simp add: same_core_def)
  have ready: "files_ready K fs s1" if "config_has (config data1) AFL_SNAPSHOT_FDS"
    using files that by (simp add: cfg files_ready_def env' files1)
  obtain s2 f offs where tf: "take_files_snapshot K d s1 = Some (0, s2)"
    and inv2: "sys_inv K (G(m := (orig_of K m (mem s) data1, absent_pages m (mem s) data1))) s2"
    and tr2: "tracked s2 m d (set_files f offs data1)"
    and s2: "tasks s2 = tasks s1" "current s2 = current s1" "mem s2 = mem s1" "file_objects s2 = file_objects s1"
      "files_state.more s2 = files_state.more s1" "alloc_next s1 \<le> alloc_next s2"
      "\<forall>i < alloc_next s1. files_structs s2 i = files_structs s1 i"
      "task_data_list s2 = task_data_list s1" "\<forall>e. e \<noteq> d \<longrightarrow> td_heap s2 e = td_heap s1 e"
    and saved: "config_has (config data1) AFL_SNAPSHOT_FDS \<longrightarrow>
         files_saved d (open_fds fs) (\<lambda>f. position (file_objects s1 f)) s2"
    and own: "\<forall>i. f = Some i \<longrightarrow> alloc_next s1 \<le> i \<and> i < alloc_next s2"
    by (rule take_files_tracked [OF inv tr oom ready])
  have run: "take_snapshot K cfg s = Some (1, s2)"
    using id(4) take tf
    by (simp add: take_snapshot_def ensure_task_data_found [OF sys_invD(1) [OF id(1)] id(3)])
  have view: "user_view K n (mem s2) b = user_view K n (mem s) b" for n b
    by (simp add: s2(3) user_view_def wrprotected_pte(1) [OF w] wrprotected_same(1) [OF w])
  have areas: "same_areas (mem s) (mem s1)"
    by (simp add: same_areas_def wrprotected_same(5,7) [OF w])
  have reg: "task_data_list s2 = task_data_list s" "\<forall>e. e \<noteq> d \<longrightarrow> td_heap s2 e = td_heap s e"
    using tk s2(8,9) env by (auto simp: taking_def same_env_def)
  have alloc: "alloc_next s \<le> alloc_next s2" using more1(2) s2(6) by (rule order_trans)
  have structs: "\<forall>i < alloc_next s. files_structs s2 i = files_structs s i"
    using s2(7) more1(2) by (simp add: files1)
  have saved_areas: "map sv_view (all_vmas (ss data1)) = map area_view (mm_mmap (mms (mem s) m))"
    using taken initialize_no_pages [of cfg "current s" s] by (simp add: area_taken_def no_pages_def)
  let ?data = "set_files f offs data1"
  have "sf_files (ss_files (ss ?data)) = f" by simp
  then have table: "\<forall>i. sf_files (ss_files (ss ?data)) = Some i \<longrightarrow> alloc_next s \<le> i \<and> i < alloc_next s2"
    using own more1(2) order_trans by metis
  have "snapshot_made K cfg m d fs s s2 ?data"
    unfolding snapshot_made_def
  proof (intro conjI)
    show "had_snapshot ?data"
      using core initialize_snapshot_simps(4) [of cfg "new_task_data (current s)" s]
      by (simp add: same_core_def had_snapshot_def set_files_def)
    show "\<forall>i. sf_files (ss_files (ss ?data)) = Some i \<longrightarrow> alloc_next s \<le> i \<and> i < alloc_next s2"
      by (rule table)
  qed (use saved_areas tr2 core env' s2 files1 more1 clean saved view cfg id(2) areas alloc structs reg in
      \<open>simp_all add: same_core_def set_files_def\<close>)
  moreover have "promised K m (orig_of K m (mem s) data1) (absent_pages m (mem s) data1) b =
      Some (user_view K m (mem s) b)" if "covered m cfg al bl (mem s) b" for b
    using promised_covered [OF taken _ refl id(5) made] that by simp
  moreover have "pte_present (pte_of (mem s) m b) \<and> covered m cfg al bl (mem s) b"
    if "orig_of K m (mem s) data1 b \<noteq> None" for b
    using orig_covered [OF taken _ made that] by simp
  ultimately show ?thesis using run inv2 by (intro that)
qed

section \<open>Restoring\<close>

lemma files_saved_cong:
  assumes "files_saved d fds p s" and "td_heap s d = Some data" and "td_heap s' d = Some data'"
    and "same_but_pages data data'"
    and "\<And>i. sf_files (ss_files (ss data)) = Some i \<Longrightarrow> files_structs s' i = files_structs s i"
  shows "files_saved d fds p s'"
  using assms by (auto simp: files_saved_def same_but_pages_def)

text \<open>Registers and break.\<close>

lemma recover_state_ok:
  assumes inv: "sys_inv K G s" and tr: "tracked s m d data" and oom: "no_oom K"
    and laws: "memory_laws K" "munmap_areas_law K" and m: "m = task_mm (tasks s (current s))"
    and brk: "oldbrk (ss data) \<le> mm_brk (mms (mem s) m) \<or>
         PAGE_ALIGN (mm_brk (mms (mem s) m)) = PAGE_ALIGN (oldbrk (ss data))"
  obtains s' where "recover_state K d s = Some s'" and "sys_inv K G s'" and "same_tasks s s'"
    and "same_env (s\<lparr>tasks := (tasks s)(current s := (tasks s (current s))
             \<lparr>task_regs := if config_has (config data) AFL_SNAPSHOT_REGS then ss_regs (ss data)
                           else task_regs (tasks s (current s))\<rparr>)\<rparr>) s'"
    and "\<And>a. page_aligned a \<Longrightarrow> area_writable (mem s) m a \<Longrightarrow>
           a \<notin> {oldbrk (ss data) ..< mm_brk (mms (mem s) m)} \<Longrightarrow> area_writable (mem s') m a"
    and "\<not> page_aligned (oldbrk (ss data)) \<or> PAGE_ALIGN (mm_brk (mms (mem s) m)) = PAGE_ALIGN (oldbrk (ss data)) \<Longrightarrow>
           mm_mmap (mms (mem s') m) = mm_mmap (mms (mem s) m)"
proof -
  let ?r = "if config_has (config data) AFL_SNAPSHOT_REGS then ss_regs (ss data)
            else task_regs (tasks s (current s))"
  define s1 where "s1 = s\<lparr>tasks := (tasks s)(current s := (tasks s (current s))\<lparr>task_regs := ?r\<rparr>)\<rparr>"
  have s1: "(if config_has (config data) AFL_SNAPSHOT_REGS
             then s\<lparr>tasks := (tasks s)(current s := (tasks s (current s))\<lparr>task_regs := ss_regs (ss data)\<rparr>)\<rparr>
             else s) = s1"
    by (simp add: s1_def)
  have same: "same_machine s s1" by (simp add: same_machine_def s1_def)
  have inv1: "sys_inv K G s1" using same inv by (rule same_machine_inv)
  have st: "same_tasks s s1"
    by (rule same_tasksI [OF same_machine_registry [OF same]]) (simp_all add: s1_def)
  have m1: "task_mm (tasks s1 (current s1)) = m" "mem s1 = mem s" by (simp_all add: s1_def m)
  obtain r s2 where run: "restore_brk K (oldbrk (ss data)) s1 = Some (r, s2)"
    and inv2: "sys_inv K G s2" and st2: "same_tasks s1 s2" and env2: "same_env s1 s2"
    and area: "\<And>a. munmap_areas_law K \<Longrightarrow> page_aligned a \<Longrightarrow> area_writable (mem s1) m a \<Longrightarrow>
           a \<notin> {oldbrk (ss data) ..< mm_brk (mms (mem s1) m)} \<Longrightarrow> area_writable (mem s2) m a"
    by (rule restore_brk_ok [OF inv1 oom laws(1), of "oldbrk (ss data)", unfolded m1])
      (use brk in \<open>auto simp: m1\<close>)
  have "recover_state K d s = Some s2"
    using tr run by (simp add: recover_state_def tracked_def s1)
  moreover have "mm_mmap (mms (mem s2) m) = mm_mmap (mms (mem s) m)"
    if "\<not> page_aligned (oldbrk (ss data)) \<or> PAGE_ALIGN (mm_brk (mms (mem s) m)) = PAGE_ALIGN (oldbrk (ss data))"
    using restore_brk_keeps_areas [OF inv1 oom laws(1) m1(1) [symmetric] _ run] that brk by (auto simp: m1)
  ultimately show ?thesis
    using inv2 same_tasks_trans [OF st st2] env2 [unfolded s1_def]
    by (intro that [of s2]) (use area laws(2) in \<open>auto simp: m1\<close>)
qed

text \<open>
  The memory part, on the data of the current task. With the option MMAP, \<open>restore_vmas\<close> runs
  first; \<open>B\<close> are the pages that have to be writable afterwards.
\<close>

definition mmap_ready ::
  "'k kernel_scheme \<Rightarrow> task_data \<Rightarrow> vm_area list \<Rightarrow> (u64 \<Rightarrow> bool) \<Rightarrow> bool" where
  "mmap_ready K data vs B \<longleftrightarrow>
     area_laws K \<and> trim_succeeds K \<and> mmap_room K (map sv_view (all_vmas (ss data))) \<and> svs_ok (all_vmas (ss data)) \<and>
     restorable (map sv_view (all_vmas (ss data))) vs \<and>
     (\<forall>b. B b \<longrightarrow> comes_back (map sv_view (all_vmas (ss data))) vs b)"

definition memory_ready ::
  "'k kernel_scheme \<Rightarrow> task_data \<Rightarrow> mm_id \<Rightarrow> mem \<Rightarrow> (u64 \<Rightarrow> bool) \<Rightarrow> bool" where
  "memory_ready K data m M B \<longleftrightarrow>
     (if config_has (config data) AFL_SNAPSHOT_MMAP then mmap_ready K data (mm_mmap (mms M m)) B
      else (\<forall>b. B b \<longrightarrow> area_writable M m b))"

text \<open>What the option MMAP promises of the address space.\<close>

definition areas_restored :: "task_data \<Rightarrow> vm_area list \<Rightarrow> vm_area list \<Rightarrow> bool" where
  "areas_restored data vs vs' \<longleftrightarrow>
     (config_has (config data) AFL_SNAPSHOT_MMAP \<longrightarrow>
       (\<forall>a. area_restored (saved_at (map sv_view (all_vmas (ss data))) a) (flags_at vs a) (flags_at vs' a)))"

lemma areas_restored_cong: "same_but_pages data data' \<Longrightarrow> areas_restored data' vs vs' = areas_restored data vs vs'"
  by (simp add: areas_restored_def same_but_pages_def)

text \<open>The areas are restored before the pages.\<close>

lemma recover_memory_areas:
  assumes inv: "sys_inv K G s" and tr: "tracked s m d data" and oom: "no_oom K" and laws: "memory_laws K"
    and cur: "tsk data = current s" "m = task_mm (tasks s (current s))"
    and ready: "memory_ready K data m (mem s) B"
  obtains s1 data1 where "(if config_has (config data) AFL_SNAPSHOT_MMAP then restore_vmas K d s else Some (0, s)) = Some (0, s1)"
    and "sys_inv K G s1" and "tracked s1 m d data1" and "same_but_pages data data1" and "same_tasks s s1" and "same_env s s1"
    and "areas_restored data (mm_mmap (mms (mem s) m)) (mm_mmap (mms (mem s1) m))"
    and "\<And>b. B b \<Longrightarrow> area_writable (mem s1) m b"
proof (cases "config_has (config data) AFL_SNAPSHOT_MMAP")
  case False
  have area: "area_writable (mem s) m b" if "B b" for b using ready that False by (simp add: memory_ready_def)
  show ?thesis
    by (rule that [of s data]) (use False inv tr area in \<open>simp_all add: areas_restored_def same_tasks_refl\<close>)
next
  case True
  have rd: "area_laws K" "trim_succeeds K" "mmap_room K (map sv_view (all_vmas (ss data)))" "svs_ok (all_vmas (ss data))"
    "restorable (map sv_view (all_vmas (ss data))) (mm_mmap (mms (mem s) m))"
    and return: "\<And>b. B b \<Longrightarrow> comes_back (map sv_view (all_vmas (ss data))) (mm_mmap (mms (mem s) m)) b"
    using ready True unfolding memory_ready_def mmap_ready_def by auto
  have td: "td_heap s d = Some data" using tr by (rule tracked_td)
  have m: "m = task_mm (tasks s (tsk data))" using cur by simp
  obtain r s1 where run: "restore_vmas K d s = Some (r, s1)" and frame: "walk_frame K G (all_vmas (ss data)) m s s1"
    and "trim_succeeds K \<longrightarrow> r = 0"
    and at: "r = 0 \<longrightarrow> layout_ok (mm_mmap (mms (mem s1) m)) \<and>
         (\<forall>a. area_restored (remembered (all_vmas (ss data)) a) (flags_at (mm_mmap (mms (mem s) m)) a)
                (flags_at (mm_mmap (mms (mem s1) m)) a))"
    by (rule restore_vmas_ok [OF inv oom laws rd(1,3) td refl m cur(2) rd(4,5)])
  have r: "r = 0" using \<open>trim_succeeds K \<longrightarrow> r = 0\<close> rd(2) by blast
  have f: "sys_inv K G s1" "same_tasks s s1" "same_env s s1" using frame by (simp_all add: walk_frame_def)
  obtain data1 where tr1: "tracked s1 m d data1" "same_but_pages data data1"
    using same_tasks_tracked [OF f(2) tr] by blast
  have "area_writable (mem s1) m b" if "B b" for b
    using at r return [OF that] by (auto intro: comes_back_writable)
  then show ?thesis
    using True run r f tr1 at by (intro that [of s1 data1]) (simp_all add: areas_restored_def)
qed

lemma recover_memory_ok:
  assumes inv: "sys_inv K G s" and tr: "tracked s m d data" and oom: "no_oom K"
    and laws: "memory_laws K" "restore_laws K"
    and cur: "tsk data = current s" "m = task_mm (tasks s (current s))"
    and ready: "memory_ready K data m (mem s) (\<lambda>b. fst (G m) b \<noteq> None)"
  obtains s' data' where "recover_memory_snapshot K d s = Some (0, s')" and "sys_inv K G s'"
    and "tracked s' m d data'" and "dirty_pages (ss data') = []" and "same_env s s'"
    and "same_but_pages data data'" and "same_tasks s s'"
    and "\<And>b p. promised K m (fst (G m)) (snd (G m)) b = Some p \<Longrightarrow> user_view K m (mem s') b = p"
    and "areas_restored data (mm_mmap (mms (mem s) m)) (mm_mmap (mms (mem s') m))"
proof -
  have td: "td_heap s d = Some data" using tr by (rule tracked_td)
  obtain s1 data1 where run1: "(if config_has (config data) AFL_SNAPSHOT_MMAP then restore_vmas K d s else Some (0, s)) = Some (0, s1)"
    and inv1: "sys_inv K G s1" and tr1: "tracked s1 m d data1" and same1: "same_but_pages data data1"
    and st1: "same_tasks s s1" and env1: "same_env s s1"
    and areas: "areas_restored data (mm_mmap (mms (mem s) m)) (mm_mmap (mms (mem s1) m))"
    and area: "\<And>b. fst (G m) b \<noteq> None \<Longrightarrow> area_writable (mem s1) m b"
    by (rule recover_memory_areas [OF inv tr oom laws(1) cur ready]) blast
  have run: "run_events K [] s1 = Some s1" by simp
  have td1: "td_heap s1 d = Some data1" using tr1 by (rule tracked_td)
  obtain s' data' where rec: "recover_process K m d s1 = Some s'" and tr': "tracked s' m d data'"
    and clean: "dirty_pages (ss data') = []" and inv': "sys_inv K G s'"
    and view: "\<And>b p. promised K m (fst (G m)) (snd (G m)) b = Some p \<Longrightarrow> user_view K m (mem s') b = p"
    by (rule rollback [OF inv1 oom laws tr1 run area]) blast+
  note frame = recover_process_frame [OF sys_inv_tracked [OF inv1 tr1] sys_invD(3) [OF inv1] laws(2) td1 area rec]
  have same: "same_but_pages data1 data'" using frame(2) tracked_td [OF tr'] by auto
  have m1: "task_mm (tasks s1 (current s1)) = m" using env1 cur(2) by (simp add: same_env_def)
  have "recover_memory_snapshot K d s = Some (0, s')"
    using rec by (auto simp: recover_memory_snapshot_def td run1 td1 m1 cur(1) recover_process_def
        simp flip: cur(2) split: Option.bind_splits)
  moreover have "mm_mmap (mms (mem s') m) = mm_mmap (mms (mem s1) m)" by (rule frame(4))
  ultimately show ?thesis
    using inv' tr' clean same_env_trans [OF env1 frame(1)] same_but_pages_trans [OF same1 same]
      same_tasks_trans [OF st1 frame(3)] view areas by (intro that [of s' data']) simp_all
qed

text \<open>All four parts. The threads and files are described by their own lemmas. The break may have
  grown; with the option MMAP it must be a break that \<open>restore_brk\<close> leaves to \<open>restore_vmas\<close>.\<close>

definition ready_to_restore ::
  "'k files_kernel_scheme \<Rightarrow> ghost \<Rightarrow> mm_id \<Rightarrow> task_data \<Rightarrow> task list \<Rightarrow> 's system_state_scheme \<Rightarrow> bool" where
  "ready_to_restore K G m data ts s \<longleftrightarrow>
     tsk data = current s \<and> m = task_mm (tasks s (current s)) \<and>
     thread_ring (tasks s) ts \<and> task_group_leader (tasks s (current s)) = hd ts \<and>
     (oldbrk (ss data) \<le> mm_brk (mms (mem s) m) \<or>
      PAGE_ALIGN (mm_brk (mms (mem s) m)) = PAGE_ALIGN (oldbrk (ss data))) \<and>
     memory_ready K data m (mem s) (\<lambda>b. fst (G m) b \<noteq> None) \<and>
     (if config_has (config data) AFL_SNAPSHOT_MMAP
      then \<not> page_aligned (oldbrk (ss data)) \<or> PAGE_ALIGN (mm_brk (mms (mem s) m)) = PAGE_ALIGN (oldbrk (ss data))
      else (\<forall>b. fst (G m) b \<noteq> None \<longrightarrow> b \<notin> {oldbrk (ss data) ..< mm_brk (mms (mem s) m)}))"

definition can_seek ::
  "'k files_kernel_scheme \<Rightarrow> (nat \<times> nat) list \<Rightarrow> (nat \<Rightarrow> int) \<Rightarrow> files_struct \<Rightarrow> 's system_state_scheme \<Rightarrow> bool" where
  "can_seek K fds p ofs s \<longleftrightarrow>
     llseek_law K \<and> dup_fd_law K \<and>
     (\<forall>fs. open_fds fs = fds \<longrightarrow> (\<exists>new. dup_fd K fs = Inr new)) \<and>
     (\<forall>(fd, f) \<in> set fds. 0 \<le> p f \<longrightarrow>
        f_seekable (file_objects s f) \<and> p f \<le> f_maxbytes (file_objects s f)) \<and>
     task_files (tasks s (current s)) < alloc_next s \<and>
     files_structs s (task_files (tasks s (current s))) = Some ofs \<and>
     length (sharing (task_files (tasks s (current s))) s (signal_threads s (current s))) \<le> fs_count ofs \<and>
     distinct (signal_threads s (current s)) \<and> current s \<in> set (signal_threads s (current s))"

definition ready_to_seek ::
  "'k files_kernel_scheme \<Rightarrow> nat \<Rightarrow> (nat \<times> nat) list \<Rightarrow> (nat \<Rightarrow> int) \<Rightarrow> files_struct \<Rightarrow> 's system_state_scheme \<Rightarrow> bool" where
  "ready_to_seek K d fds p ofs s \<longleftrightarrow> files_saved d fds p s \<and> can_seek K fds p ofs s"

lemma same_env_threads: "same_env s s' \<Longrightarrow> signal_threads s' = signal_threads s"
  by (cases s, cases s') (simp add: same_env_def)

text \<open>The descriptor table of the snapshot is not the one the process runs on, and not a new one.\<close>

definition table_apart :: "task_data \<Rightarrow> 's mem_state_scheme \<Rightarrow> bool" where
  "table_apart data s \<longleftrightarrow>
     (\<forall>i. sf_files (ss_files (ss data)) = Some i \<longrightarrow> i < alloc_next s \<and> i \<noteq> task_files (tasks s (current s)))"

text \<open>What the file part leaves behind.\<close>

definition files_back ::
  "(nat \<times> nat) list \<Rightarrow> (nat \<Rightarrow> int) \<Rightarrow> task list \<Rightarrow> 's files_state_scheme \<Rightarrow> 's files_state_scheme \<Rightarrow> bool" where
  "files_back fds p threads s s' \<longleftrightarrow>
     file_objects s' = seek_back p (snd ` set fds) (file_objects s) \<and>
     (\<exists>n new. files_structs s' n = Some new \<and> open_fds new = fds \<and>
        fs_count new = length (sharing (task_files (tasks s (current s))) s threads) \<and>
        (\<forall>t. task_files (tasks s' t) =
           (if t \<in> set (sharing (task_files (tasks s (current s))) s threads) then n else task_files (tasks s t))))"

text \<open>Neither part changes the thread group or the address space of a task.\<close>

definition same_shape :: "(task \<Rightarrow> task_struct) \<Rightarrow> (task \<Rightarrow> task_struct) \<Rightarrow> bool" where
  "same_shape T T' \<longleftrightarrow> same_links T T' \<and> (\<forall>t. task_mm (T' t) = task_mm (T t))"

lemma recover_files_back:
  assumes seek: "ready_to_seek K d fds p ofs s" and td: "td_heap s d = Some data" and td': "td_heap s' d = Some data'"
    and same: "same_but_pages data data'" and cur: "current s' = current s"
    and files: "\<And>t. task_files (tasks s' t) = task_files (tasks s t)" "files_structs s' = files_structs s"
      "file_objects s' = file_objects s" "signal_threads s' = signal_threads s" "alloc_next s \<le> alloc_next s'"
    and inv: "sys_inv K G s'" and tr: "tracked s' m d data'"
  obtains s'' where "recover_files_snapshot K d (signal_threads s' (current s')) s' = Some (0, s'')"
    and "files_back fds p (signal_threads s (current s)) s s''" and "sys_inv K G s''" and "tracked s'' m d data'"
    and "mem s'' = mem s'" and "current s'' = current s'" and "sent_signals s'' = sent_signals s'"
    and "same_tasks s' s''"
    and "\<And>t. task_regs (tasks s'' t) = task_regs (tasks s' t)" and "same_shape (tasks s') (tasks s'')"
    and "table_apart data s \<longrightarrow> files_saved d fds p s'' \<and> table_apart data' s''"
proof -
  let ?old = "task_files (tasks s (current s))" and ?ts = "signal_threads s (current s)"
  have laws: "llseek_law K" "dup_fd_law K" and saved: "files_saved d fds p s"
    and dups: "\<And>fs. open_fds fs = fds \<Longrightarrow> \<exists>new. dup_fd K fs = Inr new"
    and can: "\<And>fd f. (fd, f) \<in> set fds \<Longrightarrow> 0 \<le> p f \<Longrightarrow>
           f_seekable (file_objects s' f) \<and> p f \<le> f_maxbytes (file_objects s' f)"
    and old: "?old < alloc_next s" "files_structs s ?old = Some ofs" "length (sharing ?old s ?ts) \<le> fs_count ofs"
    and ts: "distinct ?ts" "current s \<in> set ?ts"
    using seek unfolding ready_to_seek_def can_seek_def files(3) by auto
  have saved': "files_saved d fds p s'" 
    by (rule files_saved_cong [OF saved td td' same]) (simp add: files(2))
  have sh: "sharing ?old s' ?ts = sharing ?old s ?ts" by (simp add: sharing_def files(1))
  have old': "?old = task_files (tasks s' (current s'))" "?old < alloc_next s'"
    "files_structs s' ?old = Some ofs" "length (sharing ?old s' ?ts) \<le> fs_count ofs"
    using old less_le_trans [OF old(1) files(5)] by (simp_all add: files(1,2) cur sh)
  have ts': "current s' \<in> set ?ts" using ts(2) cur by simp
  obtain s'' new where run: "recover_files_snapshot K d ?ts s' = Some (0, s'')"
    and objs: "file_objects s'' = seek_back p (snd ` set fds) (file_objects s')"
    and tasks: "\<And>t. tasks s'' t = (if t \<in> set (sharing ?old s ?ts)
                         then (tasks s' t)\<lparr>task_files := alloc_next s'\<rparr> else tasks s' t)"
    and new: "files_structs s'' (alloc_next s') = Some new" "open_fds new = fds"
      "fs_count new = length (sharing ?old s ?ts)"
    and other: "\<And>i. i \<noteq> alloc_next s' \<Longrightarrow> i \<noteq> ?old \<Longrightarrow> files_structs s'' i = files_structs s' i"
    and core: "s'' = s'\<lparr>files_structs := files_structs s'', tasks := tasks s'', file_objects := file_objects s'',
            alloc_next := Suc (alloc_next s')\<rparr>"
    using recover_files_snapshot_ok [OF laws saved' _ _ old' ts(1) ts'] dups can unfolding sh by blast
  have table: "sf_files (ss_files (ss data')) = sf_files (ss_files (ss data))"
    using same by (simp add: same_but_pages_def)
  have apart: "files_saved d fds p s'' \<and> table_apart data' s''" if a: "table_apart data s"
  proof -
    have "files_structs s'' i = files_structs s' i" if "sf_files (ss_files (ss data')) = Some i" for i
      using a that less_le_trans [OF _ files(5), of i] by (intro other) (auto simp: table_apart_def table)
    moreover have "td_heap s'' d = td_heap s' d" by (subst core) simp
    ultimately have "files_saved d fds p s''"
      using files_saved_cong [OF saved' td', of s'' data'] td' by simp
    moreover have "current s'' = current s" "alloc_next s'' = Suc (alloc_next s')"
      by (subst core, simp add: cur)+
    moreover have "current s \<in> set (sharing ?old s ?ts)" using ts(2) by (simp add: sharing_def)
    then have "task_files (tasks s'' (current s)) = alloc_next s'" by (simp add: tasks)
    ultimately show ?thesis
      using a less_le_trans [OF _ files(5)] by (fastforce simp: table_apart_def table)
  qed
  have same: "same_machine s' s''" by (subst core, simp add: same_machine_def)
  have keep: "mem s'' = mem s'" "current s'' = current s'" "sent_signals s'' = sent_signals s'"
    by (subst core, simp)+
  have st: "same_tasks s' s''"
    by (rule same_tasksI [OF same_machine_registry [OF same]])
      (use same keep in \<open>simp_all add: same_machine_def\<close>)
  have "files_back fds p ?ts s s''"
    unfolding files_back_def using objs new by (auto simp: files tasks)
  moreover have "sys_inv K G s''" using same inv by (rule same_machine_inv)
  moreover have "tracked s'' m d data'" using tr by (simp add: same_machine_tracked [OF same])
  moreover have "same_shape (tasks s') (tasks s'')" by (simp add: same_shape_def same_links_def tasks)
  ultimately show ?thesis
    using that [of s''] run keep st apart by (simp add: files(4) cur tasks)
qed

lemma restore_snapshot_ok:
  assumes inv: "sys_inv K G s" and tr: "tracked s m d data" and oom: "no_oom K"
    and laws: "memory_laws K" "restore_laws K" "munmap_areas_law K"
    and ready: "ready_to_restore K G m data ts s"
    and seek: "config_has (config data) AFL_SNAPSHOT_FDS \<Longrightarrow> ready_to_seek K d fds p ofs s"
  obtains s' data' where "restore_snapshot K d s = Some s'" and "sys_inv K G s'" and "tracked s' m d data'"
    and "dirty_pages (ss data') = []" and "same_but_pages data data'" and "current s' = current s"
    and "same_tasks s s'" and "same_shape (tasks s) (tasks s')"
    and "\<And>b q. promised K m (fst (G m)) (snd (G m)) b = Some q \<Longrightarrow> user_view K m (mem s') b = q"
    and "sent_signals s' = sent_signals s @
           map (Pair SIGKILL) (filter (\<lambda>t. t \<noteq> current s) (visited (tasks s) ts))"
    and "config_has (config data) AFL_SNAPSHOT_REGS \<longrightarrow> task_regs (tasks s' (current s)) = ss_regs (ss data)"
    and "config_has (config data) AFL_SNAPSHOT_FDS \<longrightarrow>
           files_back fds p (signal_threads s (current s)) s s'"
    and "areas_restored data (mm_mmap (mms (mem s) m)) (mm_mmap (mms (mem s') m))"
    and "config_has (config data) AFL_SNAPSHOT_FDS \<longrightarrow> table_apart data s \<longrightarrow>
           files_saved d fds p s' \<and> table_apart data' s'"
proof -
  have rd: "tsk data = current s" "m = task_mm (tasks s (current s))"
    "memory_ready K data m (mem s) (\<lambda>b. fst (G m) b \<noteq> None)" "thread_ring (tasks s) ts"
    "task_group_leader (tasks s (tsk data)) = hd ts"
    "oldbrk (ss data) \<le> mm_brk (mms (mem s) m) \<or>
      PAGE_ALIGN (mm_brk (mms (mem s) m)) = PAGE_ALIGN (oldbrk (ss data))"
    using ready unfolding ready_to_restore_def by auto
  note td = tracked_td [OF tr]
  define kills where "kills = map (Pair SIGKILL) (filter (\<lambda>t. t \<noteq> current s) (visited (tasks s) ts))"
  define s1 where "s1 = s\<lparr>sent_signals := sent_signals s @ kills\<rparr>"
  have run1: "recover_threads_snapshot d s = Some s1"
    using recover_threads_ok [OF td rd(4,5)] by (simp add: s1_def kills_def rd(1))
  have s1: "tasks s1 = tasks s" "current s1 = current s" "mem s1 = mem s" "files_structs s1 = files_structs s"
    "file_objects s1 = file_objects s" "signal_threads s1 = signal_threads s" "alloc_next s1 = alloc_next s"
    by (simp_all add: s1_def)
  have same1: "same_machine s s1" by (simp add: same_machine_def s1_def)
  have inv1: "sys_inv K G s1" using same1 inv by (rule same_machine_inv)
  have tr1: "tracked s1 m d data" using tr by (simp add: same_machine_tracked [OF same1])
  let ?r = "if config_has (config data) AFL_SNAPSHOT_REGS then ss_regs (ss data)
            else task_regs (tasks s (current s))"
  let ?T = "(tasks s)(current s := (tasks s (current s))\<lparr>task_regs := ?r\<rparr>)"
  obtain s2 where run2: "recover_state K d s1 = Some s2" and inv2: "sys_inv K G s2" and st2: "same_tasks s1 s2"
    and env2: "same_env (s1\<lparr>tasks := ?T\<rparr>) s2"
    and area2: "\<And>a. page_aligned a \<Longrightarrow> area_writable (mem s) m a \<Longrightarrow>
           a \<notin> {oldbrk (ss data) ..< mm_brk (mms (mem s) m)} \<Longrightarrow> area_writable (mem s2) m a"
    and keep2: "\<not> page_aligned (oldbrk (ss data)) \<or> PAGE_ALIGN (mm_brk (mms (mem s) m)) = PAGE_ALIGN (oldbrk (ss data)) \<Longrightarrow>
           mm_mmap (mms (mem s2) m) = mm_mmap (mms (mem s) m)"
    by (rule recover_state_ok [OF inv1 tr1 oom laws(1,3), unfolded s1, OF rd(2) rd(6)]) blast
  obtain data2 where tr2: "tracked s2 m d data2" and same2: "same_but_pages data data2"
    using same_tasks_tracked [OF st2 tr1] by blast
  have s2: "tasks s2 = ?T" "current s2 = current s" "sent_signals s2 = sent_signals s @ kills"
    "files_structs s2 = files_structs s" "file_objects s2 = file_objects s"
    "signal_threads s2 = signal_threads s" "alloc_next s \<le> alloc_next s2"
    using env2 same_env_files [OF env2] same_env_signals [OF env2] same_env_threads [OF env2]
    by (simp_all add: same_env_def s1) (simp add: s1_def)
  have d2: "tsk data2 = tsk data" "config data2 = config data" using same2 by (simp_all add: same_but_pages_def)
  have al: "page_aligned b" if "fst (G m) b \<noteq> None" for b
    using page_inv_at [OF sys_inv_tracked [OF inv tr], of b] that by (auto simp: page_ok_def split: option.splits)
  have v2: "all_vmas (ss data2) = all_vmas (ss data)" using same2 by (simp add: same_but_pages_def)
  have w2: "memory_ready K data2 m (mem s2) (\<lambda>b. fst (G m) b \<noteq> None) \<and>
      (config_has (config data) AFL_SNAPSHOT_MMAP \<longrightarrow> mm_mmap (mms (mem s2) m) = mm_mmap (mms (mem s) m))"
    using rd(3) ready area2 keep2 al
    by (auto simp: memory_ready_def mmap_ready_def ready_to_restore_def d2 v2)
  have m2: "m = task_mm (tasks s2 (current s2))" by (simp add: s2 rd(2))
  obtain s3 data3 where run3: "recover_memory_snapshot K d s2 = Some (0, s3)" and inv3: "sys_inv K G s3"
    and tr3: "tracked s3 m d data3" and clean: "dirty_pages (ss data3) = []" and env3: "same_env s2 s3"
    and same3: "same_but_pages data2 data3" and st3: "same_tasks s2 s3"
    and view: "\<And>b q. promised K m (fst (G m)) (snd (G m)) b = Some q \<Longrightarrow> user_view K m (mem s3) b = q"
    and areas3: "areas_restored data2 (mm_mmap (mms (mem s2) m)) (mm_mmap (mms (mem s3) m))"
    by (rule recover_memory_ok [OF inv2 tr2 oom laws(1,2) _ m2 conjunct1 [OF w2]]) (use d2 rd s2 in \<open>simp_all\<close>)
  have areas: "areas_restored data (mm_mmap (mms (mem s) m)) (mm_mmap (mms (mem s3) m))"
    using areas3 w2 by (auto simp: areas_restored_def d2 v2)
  have same: "same_but_pages data data3" using same2 same3 by (rule same_but_pages_trans)
  have s3: "tasks s3 = ?T" "current s3 = current s" "sent_signals s3 = sent_signals s @ kills"
    "files_structs s3 = files_structs s" "file_objects s3 = file_objects s"
    "signal_threads s3 = signal_threads s" "alloc_next s \<le> alloc_next s3"
    using env3 same_env_files [OF env3] same_env_signals [OF env3] same_env_threads [OF env3] s2
    by (simp_all add: same_env_def)
  have st1: "same_tasks s s1" by (rule same_tasksI [OF same_machine_registry [OF same1]]) (simp_all add: s1_def)
  have st: "same_tasks s s3" using same_tasks_trans [OF same_tasks_trans [OF st1 st2] st3] .
  show ?thesis
  proof (cases "config_has (config data) AFL_SNAPSHOT_FDS")
    case False
    have "config data3 = config data" using same by (simp add: same_but_pages_def)
    then have "recover_files_snapshot K d (signal_threads s3 (current s3)) s3 = Some (0, s3)"
      using False tracked_td [OF tr3] by (simp add: recover_files_snapshot_def)
    then have run: "restore_snapshot K d s = Some s3" by (simp add: restore_snapshot_def run1 run2 run3)
    have sh: "same_shape (tasks s) (tasks s3)" by (simp add: same_shape_def same_links_def s3)
    show ?thesis using run inv3 tr3 clean same s3(2) st sh view
      by (rule that) (use False s3 areas in \<open>simp_all add: kills_def\<close>)
  next
    case True
    obtain s4 where run4: "recover_files_snapshot K d (signal_threads s3 (current s3)) s3 = Some (0, s4)"
      and ret: "files_back fds p (signal_threads s (current s)) s s4" and inv4: "sys_inv K G s4"
      and tr4: "tracked s4 m d data3"
      and s4: "mem s4 = mem s3" "current s4 = current s3" "sent_signals s4 = sent_signals s3"
      and st4: "same_tasks s3 s4"
      and regs: "\<And>t. task_regs (tasks s4 t) = task_regs (tasks s3 t)" and shape: "same_shape (tasks s3) (tasks s4)"
      and apart: "table_apart data s \<longrightarrow> files_saved d fds p s4 \<and> table_apart data3 s4"
      by (rule recover_files_back [OF seek [OF True] td tracked_td [OF tr3] same s3(2) _ s3(4-7) inv3 tr3])
        (use s3(1) in auto)
    have "restore_snapshot K d s = Some s4" by (simp add: restore_snapshot_def run1 run2 run3 run4)
    moreover have "current s4 = current s" by (simp add: s4 s3)
    moreover have "user_view K m (mem s4) b = q"
      if "promised K m (fst (G m)) (snd (G m)) b = Some q" for b q
      using view [OF that] by (simp add: s4)
    moreover have "same_tasks s s4" using st st4 by (rule same_tasks_trans)
    moreover have "same_shape (tasks s) (tasks s4)" using shape by (simp add: same_shape_def same_links_def s3)
    ultimately show ?thesis using inv4 tr4 clean same
      by (rule_tac that [of s4 data3]) (use True ret regs s3 s4 areas apart in \<open>simp_all add: kills_def\<close>)
  qed
qed

end
