(* ===== verification/Roundtrip.thy ===== *)
theory Roundtrip
  imports Lifecycle
begin

text \<open>
  The promise of the whole module: a process that takes a snapshot, runs, and restores it is
  where it was. The theorem goes through the entry points \<open>take_snapshot\<close> and
  \<open>recover_snapshot\<close> once; the rounds of a fuzzer are in \<open>Rounds\<close>.
\<close>

section \<open>One round of the whole process\<close>

text \<open>
  What a process does between the two calls: memory events, then other registers, file objects
  and descriptor tables.
\<close>

definition process_runs ::
  "'k kernel_scheme \<Rightarrow> mem_event list \<Rightarrow> pt_regs \<Rightarrow> (nat \<Rightarrow> file_obj) \<Rightarrow> (nat \<Rightarrow> files_struct option)
   \<Rightarrow> 's files_state_scheme \<Rightarrow> 's files_state_scheme option" where
  "process_runs K es regs objs structs s =
     map_option (\<lambda>s1. s1\<lparr>tasks := (tasks s1)(current s1 := (tasks s1 (current s1))\<lparr>task_regs := regs\<rparr>),
                         file_objects := objs, files_structs := structs\<rparr>)
       (run_events K es s)"

text \<open>The table that the snapshot holds on to.\<close>

definition own_table :: "nat \<Rightarrow> 's files_state_scheme \<Rightarrow> nat option" where
  "own_table d s = Option.bind (td_heap s d) (\<lambda>data. sf_files (ss_files (ss data)))"

lemma process_runs_ok:
  assumes inv: "sys_inv K G s" and tr: "tracked s m d data" and oom: "no_oom K" and laws: "memory_laws K"
    and run: "process_runs K es regs objs structs s = Some s'"
    and own: "\<And>i. own_table d s = Some i \<Longrightarrow> structs i = files_structs s i"
  obtains data' where "sys_inv K G s'" and "tracked s' m d data'" and "same_but_pages data data'"
    and "tasks s' = (tasks s)(current s := (tasks s (current s))\<lparr>task_regs := regs\<rparr>)"
    and "current s' = current s" and "mem_state.more s' = mem_state.more (s\<lparr>file_objects := objs, files_structs := structs\<rparr>)"
    and "\<And>fds p. files_saved d fds p s \<Longrightarrow> files_saved d fds p s'" and "owner s' m = owner s m"
    and "alloc_next s \<le> alloc_next s'" and "list_all is_fault es \<longrightarrow> same_areas (mem s) (mem s')"
proof -
  obtain s1 where ev: "run_events K es s = Some s1"
    and s': "s' = s1\<lparr>tasks := (tasks s1)(current s1 := (tasks s1 (current s1))\<lparr>task_regs := regs\<rparr>),
                     file_objects := objs, files_structs := structs\<rparr>"
    using run by (auto simp: process_runs_def)
  have inv1: "sys_inv K G s1" and st: "same_tasks s s1"
    using sys_inv_run_events [OF inv oom laws, of es] ev by auto
  have env: "same_env s s1" using ev by (rule run_events_frame)
  obtain data' where tr1: "tracked s1 m d data'" and same: "same_but_pages data data'"
    using same_tasks_tracked [OF st tr] by blast
  have mach: "same_machine s1 s'" by (simp add: same_machine_def s')
  have tr': "tracked s' m d data'" using tr1 by (simp add: same_machine_tracked [OF mach])
  have saved: "files_saved d fds p s'" if "files_saved d fds p s" for fds p
    using that tracked_td [OF tr] tracked_td [OF tr'] same
    by (rule files_saved_cong) (use own tracked_td [OF tr] in \<open>simp add: s' own_table_def\<close>)
  have more: "mem_state.more s' = mem_state.more (s\<lparr>file_objects := objs, files_structs := structs\<rparr>)"
    using env by (cases s, cases s1) (simp add: same_env_def s')
  have own: "owner s' m = owner s m" using st by (simp add: same_tasks_def s')
  have areas: "list_all is_fault es \<longrightarrow> same_areas (mem s) (mem s1)"
    using faults_areas [OF _ inv oom laws ev] by blast
  have "sys_inv K G s'" using mach inv1 by (rule same_machine_inv)
  then show ?thesis using tr' same
    by (rule that) (use env more saved own areas in \<open>simp_all add: same_env_def s'\<close>)
qed

text \<open>
  The areas \<open>vs\<close> and the break \<open>brk\<close> of the process when it is restored, given those of the
  snapshot, \<open>vs0\<close> and \<open>brk0\<close>, and the pages \<open>B\<close> that may have to be written back. With the option MMAP
  the areas have to be as \<open>restore_vmas\<close> needs them, and the break as \<open>restore_brk\<close> leaves it
  to \<open>restore_vmas\<close>; without it the pages have to be writable where the break has not grown.
\<close>

definition areas_ready ::
  "'k kernel_scheme \<Rightarrow> u32 \<Rightarrow> vm_area list \<Rightarrow> u64 \<Rightarrow> vm_area list \<Rightarrow> u64 \<Rightarrow> (u64 \<Rightarrow> bool) \<Rightarrow> bool" where
  "areas_ready K cfg vs0 brk0 vs brk B \<longleftrightarrow>
     (if config_has cfg AFL_SNAPSHOT_MMAP
      then area_laws K \<and> trim_succeeds K \<and> mmap_room K (map area_view vs0) \<and> restorable (map area_view vs0) vs \<and>
        (\<not> page_aligned brk0 \<or> PAGE_ALIGN brk = PAGE_ALIGN brk0) \<and>
        (\<forall>b. B b \<longrightarrow> comes_back (map area_view vs0) vs b)
      else (\<forall>b. B b \<longrightarrow>
        list_ex (\<lambda>v. vm_start v \<le> b \<and> b < vm_end v \<and> vm_flags v AND VM_WRITE \<noteq> 0) vs \<and> b \<notin> {brk0 ..< brk}))"

lemma areas_ready_memory:
  assumes ready: "areas_ready K cfg vs0 brk0 (mm_mmap (mms M m)) brk B" and cfg: "config data = cfg"
    and views: "map sv_view (all_vmas (ss data)) = map area_view vs0" and ok: "areas_ok vs0"
    and less: "\<And>b. P b \<Longrightarrow> B b"
  shows "memory_ready K data m M P" and
    "if config_has cfg AFL_SNAPSHOT_MMAP then \<not> page_aligned brk0 \<or> PAGE_ALIGN brk = PAGE_ALIGN brk0
     else (\<forall>b. P b \<longrightarrow> b \<notin> {brk0 ..< brk})"
  using ready less svs_ok_views [OF views ok]
  by (auto simp: areas_ready_def memory_ready_def mmap_ready_def cfg views area_writable_def split: if_splits)

lemma recover_snapshot_tracked:
  assumes "sys_inv K' G s" and "tracked s m d data" and "owner s m = current s"
    and "restore_snapshot K d s = Some s'"
  shows "recover_snapshot K s = Some (0, s')"
  using assms by (simp add: recover_snapshot_def tracked_def get_task_data_map [OF sys_invD(1) [OF assms(1)]])

text \<open>C1. The round trip through the entry points. A process without a snapshot calls
  \<open>take_snapshot\<close>, runs (any writes, faults, unmappings, changes of its areas and CPUs, other
  registers, any change of files and descriptor tables), and calls \<open>recover_snapshot\<close>. The first
  call answers 1, the second 0; every covered page shows the bytes it showed at the first call;
  with the option REGS the registers are the old ones; with the option FDS the files are at
  their old positions under the old descriptors; every other thread the walk reaches is killed.
  With the option MMAP the address space is restored as well: what the process has mapped since
  is gone, and missing anonymous memory is back. Without it the pages that have to be written
  back must still lie in writable areas (see \<open>areas_ready\<close>). The break must not have moved down
  across a page boundary.\<close>

theorem process_roundtrip:
  assumes idle: "idle_process K G m d al bl s" and oom: "no_oom K"
    and laws: "vma_walker_law K" "memory_laws K" "restore_laws K" "munmap_areas_law K"
    and files: "config_has cfg AFL_SNAPSHOT_FDS \<longrightarrow> files_ready K fs s"
    and take: "take_snapshot K cfg s = Some (r, s1)"
    and run: "process_runs K es regs objs structs s1 = Some s2"
    and own: "\<forall>i. own_table d s1 = Some i \<longrightarrow> structs i = files_structs s1 i"
    and seek: "config_has cfg AFL_SNAPSHOT_FDS \<longrightarrow> can_seek K (open_fds fs) (\<lambda>f. position (file_objects s f)) ofs s2"
    and ring: "thread_ring (tasks s) ts" "task_group_leader (tasks s (current s)) = hd ts"
    and brk: "mm_brk (mms (mem s) m) \<le> mm_brk (mms (mem s2) m) \<or>
         PAGE_ALIGN (mm_brk (mms (mem s2) m)) = PAGE_ALIGN (mm_brk (mms (mem s) m))"
    and areas: "areas_ready K cfg (mm_mmap (mms (mem s) m)) (mm_brk (mms (mem s) m))
         (mm_mmap (mms (mem s2) m)) (mm_brk (mms (mem s2) m))
         (\<lambda>b. pte_present (pte_of (mem s) m b) \<and> covered m cfg al bl (mem s) b)"
  shows "r = 1 \<and> (\<exists>s3. recover_snapshot K s2 = Some (0, s3) \<and>
     (\<forall>b. covered m cfg al bl (mem s) b \<longrightarrow> user_view K m (mem s3) b = user_view K m (mem s) b) \<and>
     (config_has cfg AFL_SNAPSHOT_MMAP \<longrightarrow>
        (\<forall>a. area_restored (saved_at (map area_view (mm_mmap (mms (mem s) m))) a)
               (flags_at (mm_mmap (mms (mem s2) m)) a) (flags_at (mm_mmap (mms (mem s3) m)) a))) \<and>
     (config_has cfg AFL_SNAPSHOT_REGS \<longrightarrow> task_regs (tasks s3 (current s)) = task_regs (tasks s (current s))) \<and>
     (config_has cfg AFL_SNAPSHOT_FDS \<longrightarrow>
        files_back (open_fds fs) (\<lambda>f. position (file_objects s f)) (signal_threads s2 (current s)) s2 s3) \<and>
     sent_signals s3 = sent_signals s2 @
       map (Pair SIGKILL) (filter (\<lambda>t. t \<noteq> current s) (visited (tasks s) ts)))"
proof -
  let ?p = "\<lambda>f. position (file_objects s f)"
  obtain s' data orig U where take': "take_snapshot K cfg s = Some (1, s')"
    and made: "snapshot_made K cfg m d fs s s' data" and inv1': "sys_inv K (G(m := (orig, U))) s'"
    and prom: "\<And>b. covered m cfg al bl (mem s) b \<Longrightarrow> promised K m orig U b = Some (user_view K m (mem s) b)"
    and orig: "\<And>b. orig b \<noteq> None \<Longrightarrow> pte_present (pte_of (mem s) m b) \<and> covered m cfg al bl (mem s) b"
    by (rule take_snapshot_idle [OF idle oom laws(1)]) (use files in blast)+
  have s1: "r = 1" "s' = s1" using take take' by simp_all
  note inv1 = inv1' [unfolded s1(2)]
  have m1: "tracked s1 m d data" "tsk data = current s" "config data = cfg"
    "ss_regs (ss data) = task_regs (tasks s (current s))" "oldbrk (ss data) = mm_brk (mms (mem s) m)"
    "tasks s1 = tasks s" "current s1 = current s"
    "map sv_view (all_vmas (ss data)) = map area_view (mm_mmap (mms (mem s) m))"
    "config_has cfg AFL_SNAPSHOT_FDS \<longrightarrow> files_saved d (open_fds fs) ?p s1"
    using made unfolding snapshot_made_def s1(2) by blast+
  have own1: "owner s1 m = current s"
  proof -
    have "registry_map s1 (owner s1 m) = Some d" "td_heap s1 d = Some data"
      using m1(1) by (simp_all add: tracked_def)
    then show ?thesis
      using registry_map_eq_Some_iff [OF sys_invD(1) [OF inv1]] m1(2) by (auto simp: owner_of_def)
  qed
  obtain data2 where inv2: "sys_inv K (G(m := (orig, U))) s2" and tr2: "tracked s2 m d data2"
    and same: "same_but_pages data data2"
    and s2: "tasks s2 = (tasks s1)(current s1 := (tasks s1 (current s1))\<lparr>task_regs := regs\<rparr>)"
      "current s2 = current s1"
    and saved: "\<And>fds p. files_saved d fds p s1 \<Longrightarrow> files_saved d fds p s2" and own2: "owner s2 m = owner s1 m"
    by (rule process_runs_ok [OF inv1 m1(1) oom laws(2) run]) (use own in blast)+
  have d2: "tsk data2 = current s" "config data2 = cfg" "ss_regs (ss data2) = task_regs (tasks s (current s))"
    "oldbrk (ss data2) = mm_brk (mms (mem s) m)"
    "map sv_view (all_vmas (ss data2)) = map area_view (mm_mmap (mms (mem s) m))"
    using same m1(2-5,8) by (simp_all add: same_but_pages_def)
  have links: "same_links (tasks s) (tasks s2)" by (simp add: same_links_def s2 m1)
  have m2: "m = task_mm (tasks s2 (current s2))" using idle by (simp add: idle_process_def s2 m1)
  have ring2: "thread_ring (tasks s2) ts" "task_group_leader (tasks s2 (current s2)) = hd ts"
    using ring by (simp_all add: thread_ring_cong [OF links], simp add: s2 m1)
  have "areas_ok (mm_mmap (mms (mem s) m))" using idle unfolding idle_process_def by blast
  note ready_areas = areas_ready_memory [OF areas d2(2,5) this orig, where P = "\<lambda>b. orig b \<noteq> None"]
  have ready: "ready_to_restore K (G(m := (orig, U))) m data2 ts s2"
    unfolding ready_to_restore_def
    using d2 ring2 brk ready_areas m2
    by (cases "config_has cfg AFL_SNAPSHOT_MMAP") (simp_all add: s2 m1)
  have seek2: "ready_to_seek K d (open_fds fs) ?p ofs s2" if "config_has (config data2) AFL_SNAPSHOT_FDS"
    using that seek saved m1(9) by (simp add: ready_to_seek_def d2)
  obtain s3 where res: "restore_snapshot K d s2 = Some s3"
    and view: "\<And>b q. promised K m (fst ((G(m := (orig, U))) m)) (snd ((G(m := (orig, U))) m)) b = Some q \<Longrightarrow>
          user_view K m (mem s3) b = q"
    and sent: "sent_signals s3 = sent_signals s2 @
           map (Pair SIGKILL) (filter (\<lambda>t. t \<noteq> current s2) (visited (tasks s2) ts))"
    and rest: "config_has (config data2) AFL_SNAPSHOT_REGS \<longrightarrow> task_regs (tasks s3 (current s2)) = ss_regs (ss data2)"
      "config_has (config data2) AFL_SNAPSHOT_FDS \<longrightarrow>
           files_back (open_fds fs) ?p (signal_threads s2 (current s2)) s2 s3"
      "areas_restored data2 (mm_mmap (mms (mem s2) m)) (mm_mmap (mms (mem s3) m))"
    by (rule restore_snapshot_ok [OF inv2 tr2 oom laws(2-4) ready seek2]) blast+
  have "recover_snapshot K s2 = Some (0, s3)"
    using inv2 tr2 _ res by (rule recover_snapshot_tracked) (simp add: own2 own1 s2 m1)
  moreover have "user_view K m (mem s3) b = user_view K m (mem s) b" if "covered m cfg al bl (mem s) b" for b
    using prom [OF that] by (intro view) simp
  ultimately show ?thesis
    using s1(1) sent rest by (simp add: areas_restored_def d2 s2 m1 visited_cong [OF links, unfolded s2 m1])
qed

section \<open>A concrete process\<close>

text \<open>An extended kernel record has the functions of the record it extends.\<close>

lemma ref_files_kernel_core:
  "kmalloc_ok ref_files_kernel = kmalloc_ok ref_kernel" "hash_min ref_files_kernel = hash_min ref_kernel"
  "nr_cpu_ids ref_files_kernel = nr_cpu_ids ref_kernel" "do_munmap ref_files_kernel = do_munmap ref_kernel"
  "copy_to_user ref_files_kernel = copy_to_user ref_kernel"
  "zap_page_range ref_files_kernel = zap_page_range ref_kernel" "vm_mmap_anon ref_files_kernel = vm_mmap_anon ref_kernel"
  "do_wp_page ref_files_kernel = do_wp_page ref_kernel" "wp_copies ref_files_kernel = wp_copies ref_kernel"
  "do_read_fault ref_files_kernel = do_read_fault ref_kernel" "backing ref_files_kernel = backing ref_kernel"
  "do_anonymous_page ref_files_kernel = do_anonymous_page ref_kernel"
  "vma_walker ref_files_kernel = vma_walker ref_kernel" "range_walk ref_files_kernel = range_walk ref_kernel"
  by (simp_all add: ref_files_kernel_def ref_kernel_def kernel.defs)

lemma ref_files_kernel_laws:
  "no_oom ref_files_kernel" "vma_walker_law ref_files_kernel" "memory_laws ref_files_kernel"
  "restore_laws ref_files_kernel" "munmap_areas_law ref_files_kernel"
proof -
  note laws = memory_laws_def restore_laws_def kernel_laws munmap_einval_law_def range_walk_law_def copy_mapped_law_def
    vma_walker_law_def munmap_areas_law_def no_oom_def
  show "memory_laws ref_files_kernel"
    using ref_memory_laws(1) unfolding laws ref_files_kernel_core .
  show "restore_laws ref_files_kernel"
    using ref_memory_laws(2) unfolding laws ref_files_kernel_core .
  show "vma_walker_law ref_files_kernel"
    using ref_vma_walker_law unfolding laws walks_area_def ref_files_kernel_core .
  show "munmap_areas_law ref_files_kernel"
    using ref_munmap_areas_law unfolding laws ref_files_kernel_core .
  show "no_oom ref_files_kernel" by (simp add: no_oom_def)
qed

text \<open>The process of theory \<open>Take_Theorems\<close>, with the open files of theory \<open>Files\<close> and the
  threads of theory \<open>Threads\<close>.\<close>

definition demo_system :: system_state where
  "demo_system = threads_state.extend
     (files_state.extend
        (mem_state.extend (fresh_state\<lparr>tasks := demo_thread\<rparr>) (files_state.fields [0 \<mapsto> demo_fds] (demo_files 5)))
        (threads_state.fields []))
     (system_state.fields (\<lambda>_. [7, 8]) [])"

lemma demo_system_simps [simp]:
  "td_heap demo_system = [100 \<mapsto> new_task_data 7]" "task_data_list demo_system = [100]"
  "rcu_pending demo_system = []" "last_task demo_system = (\<lambda>_. 0)" "last_task_data demo_system = (\<lambda>_. None)"
  "this_cpu demo_system = 0" "current demo_system = 7" "alloc_next demo_system = 200"
  "mem demo_system = fresh_mem" "tasks demo_system = demo_thread" "vmranges demo_system = (\<lambda>_. None)"
  "lheap demo_system = \<lparr>next_of = (\<lambda>n. n), prev_of = (\<lambda>n. n)\<rparr>"
  "files_structs demo_system = [0 \<mapsto> demo_fds]" "file_objects demo_system = demo_files 5"
  "signal_threads demo_system = (\<lambda>_. [7, 8])" "sent_signals demo_system = []" "do_exit_calls demo_system = []"
  by (simp_all add: demo_system_def fresh_state_def demo_mem_state_def mem_state.defs files_state.defs
      threads_state.defs system_state.defs)

lemma fresh_owner: "mm_owner (mms fresh_mem m) = (if m = 0 then 7 else 0)"
  by (simp add: fresh_mem_def demo_mem_def demo_mm_def)

lemma demo_system_inv: "sys_inv ref_files_kernel G demo_system"
proof -
  have ok: "registry_ok demo_system" by (simp add: registry_ok_def owner_of_def)
  have r: "registry_map demo_system t = (if t = 7 then Some 100 else None)" for t
    by (simp add: registry_map_def owner_of_def)
  have "cache_ok ref_files_kernel demo_system"
    by (simp add: cache_ok_def cache_entry_ok_def r ref_files_kernel_core)
  then show ?thesis
    using ok fresh_mem_wf by (auto simp: sys_inv_def r fresh_owner split: if_splits)
qed

lemma demo_system_idle: "idle_process ref_files_kernel G 0 100 [] [] demo_system"
  unfolding idle_process_def
proof (intro conjI)
  show "sys_inv ref_files_kernel G demo_system" by (rule demo_system_inv)
  show "registry_map demo_system (current demo_system) = Some 100"
    by (simp add: registry_map_def owner_of_def)
  show "range_list demo_system (Allowlist 100) []" "range_list demo_system (Blocklist 100) []"
    by (simp_all add: range_list_def dlist_def)
  show "areas_ok (mm_mmap (mms (mem demo_system) 0))"
    by (simp add: fresh_mem_def demo_mem_def demo_mm_def areas_ok_def area_ok_def page_aligned_def offset_in_page_def)
  show "no_swap (mem demo_system)" by (simp add: no_swap_def fresh_pte)
qed (simp_all add: fresh_owner demo_thread_def ranges_aligned_def ranges_disjoint_def)

lemma ref_files_area_laws: "area_laws ref_files_kernel" "trim_succeeds ref_files_kernel" "mmap_room ref_files_kernel old"
proof -
  note laws = area_laws_def munmap_trim_law_def mmap_law_def trim_succeeds_def mmap_room_def
  show "area_laws ref_files_kernel" using ref_area_laws(1) unfolding laws ref_files_kernel_core .
  show "trim_succeeds ref_files_kernel" using ref_area_laws(2) unfolding laws ref_files_kernel_core .
  show "mmap_room ref_files_kernel old" using ref_area_laws(3) [of old] unfolding laws ref_files_kernel_core .
qed

lemma run_events_append:
  "run_events K (es @ es') s = do { s1 \<leftarrow> run_events K es s; run_events K es' s1 }"
  by (induction es arbitrary: s) (auto split: Option.bind_splits)

text \<open>With the options MMAP, FDS and REGS; the process writes to its first page, maps another one,
  jumps, and reads its file up to position 90.\<close>

definition demo_areas :: "vm_area list" where
  "demo_areas = mm_mmap (mms demo_mem 0) @ [area 5 0x8000 0x9000]"

abbreviation mmap_events :: "mem_event list" where
  "mmap_events \<equiv> fresh_events @ [Set_areas 0 demo_areas 0x3000]"

theorem process_roundtrip_witness:
  "\<exists>s1 s2 s3. take_snapshot ref_files_kernel 13 demo_system = Some (1, s1) \<and>
     process_runs ref_files_kernel mmap_events \<lparr>ip = 99, gprs = []\<rparr> (demo_files 90) (files_structs s1) s1 = Some s2 \<and>
     recover_snapshot ref_files_kernel s2 = Some (0, s3) \<and>
     user_view ref_files_kernel 0 (mem s3) 0x1000 = demo_page \<and>
     flags_at (mm_mmap (mms (mem s2) 0)) 0x8000 \<noteq> None \<and> flags_at (mm_mmap (mms (mem s3) 0)) 0x8000 = None \<and> ip (task_regs (tasks s3 7)) = 0 \<and>
     file_objects s3 1 = demo_files 5 1 \<and> task_files (tasks s3 7) = task_files (tasks s3 8) \<and>
     sent_signals s3 = [(9, 8), (9, 9)]"
proof -
  let ?K = ref_files_kernel and ?cfg = "13 :: u32" and ?regs = "\<lparr>ip = 99, gprs = []\<rparr>"
  have cfg: "config_has ?cfg AFL_SNAPSHOT_FDS" "config_has ?cfg AFL_SNAPSHOT_REGS"
    "config_has ?cfg AFL_SNAPSHOT_MMAP" "\<not> config_has ?cfg AFL_SNAPSHOT_BLOCK"
    "\<not> config_has ?cfg AFL_SNAPSHOT_NOSTACK"
    by (simp_all add: config_has_def config_defs)
  have ready: "files_ready ?K demo_fds demo_system"
    by (simp add: files_ready_def ref_files_laws demo_thread_def)
  obtain s1 data orig U where take: "take_snapshot ?K ?cfg demo_system = Some (1, s1)"
    and made: "snapshot_made ?K ?cfg 0 100 demo_fds demo_system s1 data" and inv: "sys_inv ?K ((\<lambda>_. (Map.empty, {}))(0 := (orig, U))) s1"
    by (rule take_snapshot_idle [OF demo_system_idle ref_files_kernel_laws(1,2) ready])
  have tr: "tracked s1 0 100 data"
    and s1: "tasks s1 = demo_thread" "current s1 = 7" "files_state.more s1 = files_state.more demo_system" "200 \<le> alloc_next s1"
    "files_structs s1 0 = Some demo_fds" "same_areas fresh_mem (mem s1)" "oldbrk (ss data) = 0x3000"
    using made by (simp_all add: snapshot_made_def fresh_mem_def demo_mem_def demo_mm_def)
  obtain s2 where run: "process_runs ?K mmap_events ?regs (demo_files 90) (files_structs s1) s1 = Some s2"
    using sys_inv_run_events [OF inv ref_files_kernel_laws(1,3), of mmap_events] by (auto simp: process_runs_def)
  obtain data2 where s2: "tasks s2 = (tasks s1)(current s1 := (tasks s1 (current s1))\<lparr>task_regs := ?regs\<rparr>)"
      "current s2 = current s1" "alloc_next s1 \<le> alloc_next s2"
    and more: "mem_state.more s2 = mem_state.more (s1\<lparr>file_objects := demo_files 90, files_structs := files_structs s1\<rparr>)"
    by (rule process_runs_ok [OF inv tr ref_files_kernel_laws(1,3) run refl])
  have fields: "file_objects s2 = demo_files 90" "files_structs s2 = files_structs s1"
    "signal_threads s2 = (\<lambda>_. [7, 8])" "sent_signals s2 = []"
    using more s1(3) by (cases s1, cases s2, simp add: demo_system_def files_state.defs threads_state.defs system_state.defs)+
  have now: "mm_mmap (mms (mem s2) 0) = demo_areas" and brk: "mm_brk (mms (mem s2) 0) = mm_brk (mms fresh_mem 0)"
    using run by (auto simp: process_runs_def run_events_append fresh_mem_def demo_mem_def demo_mm_def split: Option.bind_splits)
  have then_areas: "map area_view (mm_mmap (mms fresh_mem 0)) = [(0x1000, 0x3000, True, True)]"
    by (simp add: fresh_mem_def demo_mem_def demo_mm_def area_view_def vm_flag_defs)
  have restorable: "restorable [(0x1000, 0x3000, True, True)] demo_areas"
    by (simp add: restorable_def layout_ok_def areas_ok_def area_ok_def area_def spans_hole_def after_missing_def
        page_aligned_def offset_in_page_def demo_areas_def demo_mem_def demo_mm_def)
  have comes: "comes_back [(0x1000, 0x3000, True, True)] demo_areas 0x1000"
    by (simp add: comes_back_def demo_areas_def demo_mem_def demo_mm_def vm_flag_defs)
  have "0 < alloc_next s2" using s1(4) s2(3) by linarith
  then have seek: "can_seek ?K (open_fds demo_fds) (\<lambda>f. position (file_objects demo_system f)) demo_fds s2"
    using s1
    by (simp add: can_seek_def ref_files_laws fields s2 demo_thread_def sharing_def demo_open_fds position_def
        demo_files_def demo_fds_def ESPIPE_def)
  have ring: "thread_ring (tasks demo_system) [7, 8, 9]"
    by (simp add: thread_ring_def demo_thread_def)
  have cov: "covered 0 ?cfg [] [] fresh_mem 0x1000"
    by (simp add: covered_def selected_def skip_vma_def fresh_mem_def demo_mem_def demo_mm_def vm_flag_defs
        cfg want_page_def)
  have "1 = (1::int) \<and> (\<exists>s3. recover_snapshot ?K s2 = Some (0, s3) \<and>
     (\<forall>b. covered 0 ?cfg [] [] (mem demo_system) b \<longrightarrow> user_view ?K 0 (mem s3) b = user_view ?K 0 (mem demo_system) b) \<and>
     (config_has ?cfg AFL_SNAPSHOT_MMAP \<longrightarrow>
        (\<forall>a. area_restored (saved_at (map area_view (mm_mmap (mms (mem demo_system) 0))) a)
               (flags_at (mm_mmap (mms (mem s2) 0)) a) (flags_at (mm_mmap (mms (mem s3) 0)) a))) \<and>
     (config_has ?cfg AFL_SNAPSHOT_REGS \<longrightarrow> task_regs (tasks s3 (current demo_system)) = task_regs (tasks demo_system (current demo_system))) \<and>
     (config_has ?cfg AFL_SNAPSHOT_FDS \<longrightarrow>
        files_back (open_fds demo_fds) (\<lambda>f. position (file_objects demo_system f)) (signal_threads s2 (current demo_system)) s2 s3) \<and>
     sent_signals s3 = sent_signals s2 @
       map (Pair SIGKILL) (filter (\<lambda>t. t \<noteq> current demo_system) (visited (tasks demo_system) [7, 8, 9])))"
  proof (rule process_roundtrip [OF demo_system_idle ref_files_kernel_laws _ take run _ _ ring])
    show "areas_ready ?K ?cfg (mm_mmap (mms (mem demo_system) 0)) (mm_brk (mms (mem demo_system) 0))
         (mm_mmap (mms (mem s2) 0)) (mm_brk (mms (mem s2) 0))
         (\<lambda>b. pte_present (pte_of (mem demo_system) 0 b) \<and> covered 0 ?cfg [] [] (mem demo_system) b)"
      using restorable comes
      by (simp add: areas_ready_def cfg(3) ref_files_area_laws then_areas now brk fresh_pte empty_pte_def)
    show "config_has ?cfg AFL_SNAPSHOT_FDS \<longrightarrow>
        can_seek ?K (open_fds demo_fds) (\<lambda>f. position (file_objects demo_system f)) demo_fds s2" using seek by simp
  qed (simp_all add: ready brk demo_thread_def)
  then obtain s3 where rec: "recover_snapshot ?K s2 = Some (0, s3)"
    and view: "user_view ?K 0 (mem s3) 0x1000 = user_view ?K 0 fresh_mem 0x1000"
    and at: "\<forall>a. area_restored (saved_at [(0x1000, 0x3000, True, True)] a) (flags_at demo_areas a)
          (flags_at (mm_mmap (mms (mem s3) 0)) a)"
    and regs: "task_regs (tasks s3 7) = \<lparr>ip = 0, gprs = []\<rparr>"
    and files: "files_back (open_fds demo_fds) (\<lambda>f. position (demo_files 5 f)) [7, 8] s2 s3"
    and sent: "sent_signals s3 = [(9, 8), (9, 9)]"
    using cov cfg by (auto simp: fields demo_thread_def SIGKILL_def then_areas now)
  have "flags_at demo_areas 0x8000 \<noteq> None" by (simp add: demo_areas_def demo_mem_def demo_mm_def area_def)
  moreover have "flags_at (mm_mmap (mms (mem s3) 0)) 0x8000 = None" using at [rule_format, of "0x8000"] by simp
  moreover have "user_view ?K 0 fresh_mem 0x1000 = demo_page"
    by (simp add: user_view_def fresh_pte content_def) (simp add: fresh_mem_def demo_mem_def)
  moreover have "file_objects s3 1 = demo_files 5 1"
    using files by (simp add: files_back_def seek_back_def fields demo_open_fds position_def demo_files_def)
  moreover have "task_files (tasks s3 7) = task_files (tasks s3 8)"
    using files by (auto simp: files_back_def sharing_def s2 s1 demo_thread_def)
  ultimately show ?thesis using take run rec view regs sent now by auto
qed

end
