(* ===== verification/Reclaim.thy ===== *)
theory Reclaim
  imports Vmrange
begin

text \<open>
  The end of a task data object: \<open>task_data_free_callback\<close> of \<open>src/task_data.c\<close>, run by
  RCU when no reader can hold a pointer any more. Its two loops end, free every range of the
  object's own lists once, and touch no other list.
\<close>

lemma list_del_frame:
  assumes "dlist h head (xs @ y # ys)" and "z \<notin> set (head # xs @ y # ys)"
  shows "next_of (list_del q1 q2 y h) z = next_of h z" and "prev_of (list_del q1 q2 y h) z = prev_of h z"
proof -
  have c: "chain h head xs y" "chain h y ys head" using assms(1) by (auto simp: dlist_def chain_append)
  have p: "prev_of h y \<in> set (head # xs)"
    using c(1) by (cases xs rule: rev_cases) (auto simp: chain_snoc)
  have n: "next_of h y \<in> set (ys @ [head])"
    using c(2) by (cases ys) auto
  show "next_of (list_del q1 q2 y h) z = next_of h z" "prev_of (list_del q1 q2 y h) z = prev_of h z"
    using assms(2) p n by (auto simp: list_del_def Let_def)
qed

lemma dlist_list_del_other:
  assumes "dlist h head (xs @ y # ys)" and "dlist h head' zs"
    and "set (head # xs @ y # ys) \<inter> set (head' # zs) = {}"
  shows "dlist (list_del q1 q2 y h) head' zs"
proof -
  let ?h = "list_del q1 q2 y h"
  have out: "z \<notin> set (head # xs @ y # ys)" if "z \<in> set (head' # zs)" for z
    using assms(3) that by blast
  have "chain ?h head' zs head' = chain h head' zs head'"
    by (rule chain_cong; rule list_del_frame [OF assms(1)]; rule out; auto)
  with assms(2) show ?thesis by (simp add: dlist_def)
qed

text \<open>\<open>freed head ns s s'\<close>: the nodes \<open>ns\<close> of the list at \<open>head\<close> are gone and nothing
  else has changed.\<close>

definition freed :: "lnode \<Rightarrow> nat list \<Rightarrow> 's list_state_scheme \<Rightarrow> 's list_state_scheme \<Rightarrow> bool" where
  "freed head ns s s' \<longleftrightarrow>
     s' = s\<lparr>lheap := lheap s', vmranges := (\<lambda>n. if n \<in> set ns then None else vmranges s n)\<rparr> \<and>
     dlist (lheap s') head [] \<and>
     (\<forall>head' zs. dlist (lheap s) head' zs \<longrightarrow> set (head # map Vmrange_node ns) \<inter> set (head' # zs) = {} \<longrightarrow>
        dlist (lheap s') head' zs)"

lemma free_vmranges_ok:
  assumes "dlist (lheap s) head (map Vmrange_node ns)"
  shows "\<exists>s'. free_vmranges head s = Some s' \<and> freed head ns s s'"
  using assms
proof (induction ns arbitrary: s)
  case Nil
  then have "free_vmranges head s = Some s"
    by (simp add: free_vmranges_def free_vmranges_from.simps dlist_def)
  then show ?case using Nil by (simp add: freed_def)
next
  case (Cons n ns)
  let ?y = "Vmrange_node n" and ?rest = "map Vmrange_node ns"
  let ?s1 = "s\<lparr>lheap := list_del Poison1 Poison2 ?y (lheap s), vmranges := (vmranges s)(n := None)\<rparr>"
  have d: "dlist (lheap s) head ([] @ ?y # ?rest)" using Cons.prems by simp
  have d1: "dlist (lheap ?s1) head ?rest" using dlist_list_del [OF d] by simp
  have ne: "?y \<noteq> head" and nin: "n \<notin> set ns" using Cons.prems by (auto simp: dlist_def)
  have nxt: "next_of (lheap s) ?y = next_of (lheap ?s1) head"
    using d d1 by (cases ns) (auto simp: dlist_def)
  have "free_vmranges head s = free_vmranges head ?s1"
  proof -
    have "next_of (lheap s) head = ?y" using d by (simp add: dlist_def)
    then have "free_vmranges head s = free_vmranges_from head ?y s" by (simp add: free_vmranges_def)
    also have "\<dots> = free_vmranges_from head (next_of (lheap s) ?y) ?s1"
      using ne by (subst free_vmranges_from.simps) (simp add: Let_def)
    finally show ?thesis by (simp add: nxt free_vmranges_def)
  qed
  moreover obtain s' where run: "free_vmranges head ?s1 = Some s'" and f: "freed head ns ?s1 s'"
    using Cons.IH [OF d1] by blast
  have "freed head (n # ns) s s'"
    unfolding freed_def
  proof (intro conjI allI impI)
    have "s' = ?s1\<lparr>lheap := lheap s', vmranges := (\<lambda>k. if k \<in> set ns then None else vmranges ?s1 k)\<rparr>"
      using f unfolding freed_def by blast
    moreover have "(\<lambda>k. if k \<in> set ns then None else vmranges ?s1 k) = (\<lambda>k. if k \<in> set (n # ns) then None else vmranges s k)"
      by auto
    ultimately show "s' = s\<lparr>lheap := lheap s', vmranges := (\<lambda>k. if k \<in> set (n # ns) then None else vmranges s k)\<rparr>"
      by simp
    show "dlist (lheap s') head []" using f by (simp add: freed_def)
    fix head' zs
    assume z: "dlist (lheap s) head' zs" and dis: "set (head # map Vmrange_node (n # ns)) \<inter> set (head' # zs) = {}"
    have "dlist (lheap ?s1) head' zs"
      using dlist_list_del_other [OF d z, of Poison1 Poison2] dis by simp
    moreover have "set (head # map Vmrange_node ns) \<inter> set (head' # zs) = {}" using dis by auto
    ultimately show "dlist (lheap s') head' zs" using f unfolding freed_def by blast
  qed
  ultimately show ?case using run by auto
qed

text \<open>The nodes of a list of ranges.\<close>

definition list_nodes :: "'s list_state_scheme \<Rightarrow> lnode \<Rightarrow> nat list \<Rightarrow> bool" where
  "list_nodes s head ns \<longleftrightarrow> dlist (lheap s) head (map Vmrange_node ns)"

lemma freed_other:
  assumes "freed head ns s s'" and "list_nodes s head' ms" and "is_head head" and "is_head head'"
    and "head' \<noteq> head" and "set ns \<inter> set ms = {}"
  shows "list_nodes s' head' ms"
proof -
  have "set (head # map Vmrange_node ns) \<inter> set (head' # map Vmrange_node ms) = {}"
    using assms(3-6) by (cases head; cases head') auto
  with assms(1,2) show ?thesis unfolding freed_def list_nodes_def by blast
qed

lemma task_data_free_callback_ok:
  assumes bl: "list_nodes s (Blocklist d) bs" and al: "list_nodes s (Allowlist d) as"
    and dis: "set bs \<inter> set as = {}"
  obtains s' where "task_data_free_callback d s = Some s'"
    and "s' = s\<lparr>td_heap := (td_heap s)(d := None), lheap := lheap s',
                vmranges := (\<lambda>n. if n \<in> set bs \<union> set as then None else vmranges s n)\<rparr>"
    and "\<And>head ns. head \<noteq> Blocklist d \<Longrightarrow> head \<noteq> Allowlist d \<Longrightarrow> is_head head \<Longrightarrow>
           set ns \<inter> (set bs \<union> set as) = {} \<Longrightarrow> list_nodes s head ns \<Longrightarrow> list_nodes s' head ns"
proof -
  obtain s1 where run1: "free_vmranges (Blocklist d) s = Some s1" and f1: "freed (Blocklist d) bs s s1"
    using free_vmranges_ok [OF bl [unfolded list_nodes_def]] by blast
  have "list_nodes s1 (Allowlist d) as"
    using f1 al by (rule freed_other) (use dis in auto)
  then obtain s2 where run2: "free_vmranges (Allowlist d) s1 = Some s2" and f2: "freed (Allowlist d) as s1 s2"
    using free_vmranges_ok unfolding list_nodes_def by blast
  let ?s' = "s2\<lparr>td_heap := (td_heap s2)(d := None)\<rparr>"
  have e1: "s1 = s\<lparr>lheap := lheap s1, vmranges := (\<lambda>n. if n \<in> set bs then None else vmranges s n)\<rparr>"
    using f1 unfolding freed_def by blast
  have e2: "s2 = s1\<lparr>lheap := lheap s2, vmranges := (\<lambda>n. if n \<in> set as then None else vmranges s1 n)\<rparr>"
    using f2 unfolding freed_def by blast
  have v1: "vmranges s1 = (\<lambda>n. if n \<in> set bs then None else vmranges s n)" by (subst e1) simp
  have "td_heap s2 = td_heap s" by (subst e2, simp, subst e1, simp)
  moreover have "(\<lambda>n. if n \<in> set as then None else vmranges s1 n) =
      (\<lambda>n. if n \<in> set bs \<union> set as then None else vmranges s n)"
    by (auto simp: v1)
  then have "s2 = s1\<lparr>lheap := lheap s2, vmranges := (\<lambda>n. if n \<in> set bs \<union> set as then None else vmranges s n)\<rparr>"
    using e2 by simp
  then have "s2 = s\<lparr>lheap := lheap s2, vmranges := (\<lambda>n. if n \<in> set bs \<union> set as then None else vmranges s n)\<rparr>"
    using e1 by (cases s, cases s1, cases s2) simp
  ultimately have eq: "?s' = s\<lparr>td_heap := (td_heap s)(d := None), lheap := lheap ?s',
       vmranges := (\<lambda>n. if n \<in> set bs \<union> set as then None else vmranges s n)\<rparr>"
    by (cases s, cases s2) simp
  have "task_data_free_callback d s = Some ?s'"
    by (simp add: task_data_free_callback_def run1 run2)
  moreover note eq
  moreover have "list_nodes ?s' head ns"
    if h: "head \<noteq> Blocklist d" "head \<noteq> Allowlist d" "is_head head" and ns: "set ns \<inter> (set bs \<union> set as) = {}"
      and l: "list_nodes s head ns" for head ns
  proof -
    have "list_nodes s1 head ns" using f1 l by (rule freed_other) (use h ns in auto)
    with f2 have "list_nodes s2 head ns" by (rule freed_other) (use h ns in auto)
    then show ?thesis by (simp add: list_nodes_def)
  qed
  ultimately show ?thesis by (rule that)
qed

text \<open>C16. At the end of a grace period the oldest removed object is reclaimed: the callback ends,
  the object and exactly the ranges of its two lists are freed, the object is no longer awaiting
  reclamation, the registry stays well formed and answers every lookup as before, and the lists
  of every other object are intact.\<close>

theorem grace_period_reclaims:
  assumes "registry_ok s" and "rcu_pending s = d # ds"
    and "list_nodes s (Blocklist d) bs" and "list_nodes s (Allowlist d) as" and "set bs \<inter> set as = {}"
  shows "\<exists>s'. rcu_grace_period s = Some s' \<and> td_heap s' = (td_heap s)(d := None) \<and>
     vmranges s' = (\<lambda>n. if n \<in> set bs \<union> set as then None else vmranges s n) \<and>
     rcu_pending s' = ds \<and> registry_ok s' \<and> registry_map s' = registry_map s \<and>
     (\<forall>head ns. is_head head \<and> head \<noteq> Blocklist d \<and> head \<noteq> Allowlist d \<and>
        set ns \<inter> (set bs \<union> set as) = {} \<and> list_nodes s head ns \<longrightarrow> list_nodes s' head ns)"
proof -
  let ?s = "s\<lparr>rcu_pending := ds\<rparr>"
  have l: "list_nodes ?s head ns = list_nodes s head ns" for head ns by (simp add: list_nodes_def)
  obtain s' where run: "task_data_free_callback d ?s = Some s'"
    and eq: "s' = ?s\<lparr>td_heap := (td_heap ?s)(d := None), lheap := lheap s',
                vmranges := (\<lambda>n. if n \<in> set bs \<union> set as then None else vmranges ?s n)\<rparr>"
    and other: "\<And>head ns. head \<noteq> Blocklist d \<Longrightarrow> head \<noteq> Allowlist d \<Longrightarrow> is_head head \<Longrightarrow>
           set ns \<inter> (set bs \<union> set as) = {} \<Longrightarrow> list_nodes ?s head ns \<Longrightarrow> list_nodes s' head ns"
    by (rule task_data_free_callback_ok [of ?s d bs as]) (use assms(3-5) in \<open>auto simp: l\<close>)
  have f: "td_heap s' = (td_heap s)(d := None)" "task_data_list s' = task_data_list s" "rcu_pending s' = ds"
    "alloc_next s' = alloc_next s"
    "vmranges s' = (\<lambda>n. if n \<in> set bs \<union> set as then None else vmranges s n)"
    by (subst eq, simp cong: if_cong)+
  have d: "d \<notin> set (task_data_list s)" "d \<notin> set ds" using assms(1,2) by (auto simp: registry_ok_def)
  have own: "owner_of s' e = owner_of s e" if "e \<noteq> d" for e using that by (simp add: owner_of_def f)
  have own': "owner_of s' e = owner_of s e" if "e \<in> set (task_data_list s)" for e
    using that d(1) by (intro own) auto
  have m: "map (owner_of s') (task_data_list s) = map (owner_of s) (task_data_list s)"
    using d(1) own by (intro map_cong refl) metis
  have "registry_ok s'"
    using assms(1,2) d own' unfolding registry_ok_def f m by auto
  moreover have "registry_map s' t = registry_map s t" for t
    unfolding registry_map_def f using d(1) own by (intro find_cong refl) metis
  ultimately show ?thesis
    using run f other by (intro exI [of _ s']) (auto simp: rcu_grace_period_def assms(2) l fun_eq_iff)
qed

text \<open>Object 100 has been removed with one range on its block list; object 101 stays.\<close>

definition retired :: td_state where
  "retired = two_tasks\<lparr>task_data_list := [101], rcu_pending := [100]\<rparr>"

theorem grace_period_reclaims_witness:
  "\<exists>s'. rcu_grace_period retired = Some s' \<and> td_heap s' 100 = None \<and> td_heap s' 101 \<noteq> None \<and>
     vmranges retired 200 \<noteq> None \<and> vmranges s' 200 = None \<and> rcu_pending s' = [] \<and> registry_ok s'"
proof -
  have ok: "registry_ok retired"
    by (simp add: retired_def two_tasks_def registry_ok_def owner_of_def)
  have l: "list_nodes retired (Blocklist 100) [200]" "list_nodes retired (Allowlist 100) []"
    by (simp_all add: list_nodes_def dlist_def retired_def two_tasks_def list_add_def list_link_def Let_def)
  have p: "rcu_pending retired = [100]" by (simp add: retired_def)
  from grace_period_reclaims [OF ok p l] show ?thesis
    by (auto simp: retired_def two_tasks_def)
qed

section \<open>Ranges that are never freed\<close>

text \<open>A client that excludes one range after the other.\<close>

fun exclude_all :: "'k kernel_scheme \<Rightarrow> (u64 \<times> u64) list \<Rightarrow> 's td_state_scheme \<Rightarrow> 's td_state_scheme option" where
  "exclude_all K [] s = Some s"
| "exclude_all K ((st, en) # rs) s = do { s1 \<leftarrow> exclude_vmrange K st en s; exclude_all K rs s1 }"

lemma publish_range_nodes:
  "is_head head \<Longrightarrow> list_nodes (publish_range head st en s) head [alloc_next s]"
  "is_head head \<Longrightarrow> is_head head' \<Longrightarrow> head' \<noteq> head \<Longrightarrow> alloc_next s \<notin> set ns \<Longrightarrow> list_nodes s head' ns \<Longrightarrow>
   list_nodes (publish_range head st en s) head' ns"
  "dom (vmranges (publish_range head st en s)) = insert (alloc_next s) (dom (vmranges s))"
proof -
  assume h: "is_head head"
  show "list_nodes (publish_range head st en s) head [alloc_next s]"
    using h by (auto simp: list_nodes_def publish_range_def new_vmrange_def Let_def intro!: dlist_list_add_exchanged)
  assume "is_head head'" "head' \<noteq> head" "alloc_next s \<notin> set ns" "list_nodes s head' ns"
  then show "list_nodes (publish_range head st en s) head' ns"
    unfolding list_nodes_def publish_range_def new_vmrange_def Let_def
    using h by (auto intro!: list_add_exchanged_frame)
qed (simp add: publish_range_def new_vmrange_def Let_def)

lemma exclude_all_ok:
  assumes "registry_ok s" and "registry_map s (current s) = Some d" and oom: "no_oom K"
    and "list_nodes s (Allowlist d) as" and "\<forall>n \<in> set as. n < alloc_next s"
  shows "\<exists>s1. exclude_all K rs s = Some s1 \<and>
     dom (vmranges s1) = dom (vmranges s) \<union> {alloc_next s ..< alloc_next s + length rs} \<and>
     list_nodes s1 (Allowlist d) as \<and> (rs \<noteq> [] \<longrightarrow> list_nodes s1 (Blocklist d) [alloc_next s + length rs - 1])"
  using assms(1,2,4,5)
proof (induction rs arbitrary: s)
  case (Cons r rs)
  obtain st en where r: "r = (st, en)" by (cases r)
  let ?t = "publish_range (Blocklist d) st en s"
  have run: "exclude_vmrange K st en s = Some ?t"
    by (rule exclude_vmrange_run [OF oom ensure_task_data_found [OF Cons.prems(1,2)]])
  have nodes: "list_nodes ?t (Blocklist d) [alloc_next s]" "list_nodes ?t (Allowlist d) as"
    using Cons.prems(3,4) by (auto intro: publish_range_nodes)
  from Cons.IH [of ?t] Cons.prems nodes(2) obtain s1 where rest: "exclude_all K rs ?t = Some s1"
    "dom (vmranges s1) = dom (vmranges ?t) \<union> {alloc_next ?t ..< alloc_next ?t + length rs}"
    "list_nodes s1 (Allowlist d) as" "rs \<noteq> [] \<longrightarrow> list_nodes s1 (Blocklist d) [alloc_next ?t + length rs - 1]"
    by (auto simp: less_Suc_eq)
  have "dom (vmranges s1) = dom (vmranges s) \<union> {alloc_next s ..< alloc_next s + length (r # rs)}"
    using rest(2) by (auto simp: publish_range_nodes(3))
  moreover have "list_nodes s1 (Blocklist d) [alloc_next s + length (r # rs) - 1]"
    using rest(1,4) nodes(1) by (cases rs) auto
  ultimately show ?case using run rest(1,3) by (simp add: r)
qed simp

text \<open>C40. How much a client can make the module leak. After \<open>length rs\<close> calls of \<open>exclude_vmrange\<close>,
  which allocate a range each, the callback that ends the life of the task data frees the last range
  and those of the allow list. All other ranges stay allocated with no pointer to them: what the
  block list held before, and exactly \<open>length rs - 1\<close> of the new ones, without any bound on the
  number of calls.\<close>

theorem excluded_ranges_leak:
  assumes "registry_ok s" and "registry_map s (current s) = Some d" and "no_oom K" and "rs \<noteq> []"
    and "list_nodes s (Allowlist d) as" and "\<forall>n \<in> set as \<union> dom (vmranges s). n < alloc_next s"
  shows "\<exists>s1 s2. exclude_all K rs s = Some s1 \<and> task_data_free_callback d s1 = Some s2 \<and>
     dom (vmranges s1) = dom (vmranges s) \<union> {alloc_next s ..< alloc_next s + length rs} \<and>
     dom (vmranges s2) = (dom (vmranges s) - set as) \<union> {alloc_next s ..< alloc_next s + length rs - 1} \<and>
     card {alloc_next s ..< alloc_next s + length rs - 1} = length rs - 1"
proof -
  let ?last = "alloc_next s + length rs - 1"
  obtain s1 where run: "exclude_all K rs s = Some s1"
    and dom1: "dom (vmranges s1) = dom (vmranges s) \<union> {alloc_next s ..< alloc_next s + length rs}"
    and nodes: "list_nodes s1 (Allowlist d) as" "list_nodes s1 (Blocklist d) [?last]"
    using exclude_all_ok [OF assms(1,2,3,5), of rs] assms(4,6) by auto
  have last: "?last \<notin> set as" "alloc_next s \<le> ?last" "Suc ?last = alloc_next s + length rs"
    using assms(4,6) by (cases rs; auto)+
  obtain s2 where free: "task_data_free_callback d s1 = Some s2"
    and s2: "s2 = s1\<lparr>td_heap := (td_heap s1)(d := None), lheap := lheap s2,
                vmranges := (\<lambda>n. if n \<in> set [?last] \<union> set as then None else vmranges s1 n)\<rparr>"
    by (rule task_data_free_callback_ok [OF nodes(2,1)]) (use last(1) in auto)
  have "vmranges s2 = (\<lambda>n. if n \<in> set [?last] \<union> set as then None else vmranges s1 n)"
    by (subst s2) simp
  then have "dom (vmranges s2) = dom (vmranges s1) - ({?last} \<union> set as)" by (auto split: if_splits)
  also have "\<dots> = (dom (vmranges s) - set as) \<union> {alloc_next s ..< ?last}"
    unfolding dom1 using assms(6) last by (auto simp: Ball_def dest: leD)
  finally show ?thesis using run free dom1 by (intro exI [of _ s1] exI [of _ s2]) simp
qed

text \<open>Three ranges after the one that is there: three objects are left when the task data is freed.\<close>

theorem excluded_ranges_leak_witness:
  "\<exists>s1 s2. exclude_all ref_kernel [(0x5000, 0x6000), (0x7000, 0x8000), (0x9000, 0xa000)] two_tasks = Some s1 \<and>
     task_data_free_callback 100 s1 = Some s2 \<and> dom (vmranges two_tasks) = {200} \<and> dom (vmranges s2) = {300, 301, 200}"
proof -
  have d: "registry_map two_tasks (current two_tasks) = Some 100"
    using two_tasks_ok(3) by (simp add: two_tasks_def)
  have n: "list_nodes two_tasks (Allowlist 100) []" "alloc_next two_tasks = 300" "dom (vmranges two_tasks) = {200}"
    by (auto simp: list_nodes_def dlist_def two_tasks_def list_add_def list_link_def Let_def)
  have "{300 ..< 302} = {300, 301 :: nat}" by auto
  with excluded_ranges_leak [OF two_tasks_ok(1) d ref_no_oom, of "[(0x5000, 0x6000), (0x7000, 0x8000), (0x9000, 0xa000)]" "[]"] n
  show ?thesis by simp blast
qed

end
