(* ===== verification/Phases.thy ===== *)
theory Phases
  imports Roundtrip Reclaim
begin

text \<open>
  The lifecycle of a snapshot as a state machine over three phases, and the entry points as its
  transitions: no task data, task data without a snapshot (after a range has been included or
  excluded), and an active snapshot.
\<close>

section \<open>Dropping a snapshot\<close>

text \<open>The task data as \<open>clean_snapshot\<close> leaves it for the grace period.\<close>

definition cleaned :: "task_data \<Rightarrow> task_data" where
  "cleaned data = clear_snapshot (set_files None None
     (upd_ss (\<lambda>x. x\<lparr>ss_pages := (\<lambda>_. [])\<rparr>) (clean_snapshot_vmas data)))"

lemma cleaned_simps [simp]:
  "tsk (cleaned data) = tsk data" "config (cleaned data) = config data" "\<not> have_snapshot (cleaned data)"
  "ss_pages (ss (cleaned data)) = (\<lambda>_. [])" "all_vmas (ss (cleaned data)) = []"
  "ss_files (ss (cleaned data)) = \<lparr>sf_files = None, sf_offsets = None\<rparr>"
proof -
  show "\<not> have_snapshot (cleaned data)" by (simp add: cleaned_def)
qed (simp_all add: cleaned_def clean_snapshot_vmas_def set_files_def clear_snapshot_def)

text \<open>The table that the snapshot holds loses its reference.\<close>

definition table_released :: "nat option \<Rightarrow> (nat \<Rightarrow> files_struct option) \<Rightarrow> (nat \<Rightarrow> files_struct option)" where
  "table_released i fs =
     (case i of None \<Rightarrow> fs | Some i \<Rightarrow> fs(i := Option.bind (fs i) (drop_refs 1)))"

definition table_live :: "task_data \<Rightarrow> 's files_state_scheme \<Rightarrow> bool" where
  "table_live data s \<longleftrightarrow> (\<forall>i. sf_files (ss_files (ss data)) = Some i \<longrightarrow> files_structs s i \<noteq> None)"

lemma invalidate_eq:
  obtains lt ld where "invalidate_task_data_cache K t s = s\<lparr>last_task := lt, last_task_data := ld\<rparr>"
proof -
  have "\<exists>lt ld. fold (invalidate_cpu t) is s = s\<lparr>last_task := lt, last_task_data := ld\<rparr>" for "is"
  proof (induction "is" arbitrary: s)
    case Nil
    have "s = s\<lparr>last_task := last_task s, last_task_data := last_task_data s\<rparr>" by simp
    then show ?case by (metis fold_simps(1))
  next
    case (Cons i "is")
    obtain lt ld where "fold (invalidate_cpu t) is (invalidate_cpu t i s) =
        (invalidate_cpu t i s)\<lparr>last_task := lt, last_task_data := ld\<rparr>" using Cons.IH by blast
    moreover have "(invalidate_cpu t i s)\<lparr>last_task := lt, last_task_data := ld\<rparr> =
        s\<lparr>last_task := lt, last_task_data := ld\<rparr>" by (simp add: invalidate_cpu_def)
    ultimately show ?case by auto
  qed
  then show ?thesis using that unfolding invalidate_task_data_cache_def by blast
qed

lemma clean_snapshot_run:
  assumes ok: "registry_ok s" and d: "registry_map s (current s) = Some d" and td: "td_heap s d = Some data"
    and live: "table_live data s"
  shows "clean_snapshot K s = Some (remove_task_data d (put_td d (cleaned data)
     (invalidate_task_data_cache K (tsk data) s
        \<lparr>files_structs := table_released (sf_files (ss_files (ss data))) (files_structs s)\<rparr>)))"
proof -
  obtain lt ld where inv: "invalidate_task_data_cache K (tsk data) s = s\<lparr>last_task := lt, last_task_data := ld\<rparr>"
    by (rule invalidate_eq)
  have cm: "clean_memory_snapshot K d s = Some (put_td d (upd_ss (\<lambda>x. x\<lparr>ss_pages := (\<lambda>_. [])\<rparr>) (clean_snapshot_vmas data))
      (s\<lparr>last_task := lt, last_task_data := ld\<rparr>))"
    using td by (simp add: clean_memory_snapshot_def inv Let_def)
  have files: "ss_files (ss (clean_snapshot_vmas data)) = ss_files (ss data)"
    by (simp add: clean_snapshot_vmas_def)
  show ?thesis
  proof (cases "sf_files (ss_files (ss data))")
    case None
    then show ?thesis
      by (simp add: clean_snapshot_def get_task_data_map [OF ok] d cm clean_files_snapshot_def files table_released_def
          cleaned_def inv put_td_def remove_task_data_def)
  next
    case (Some i)
    then obtain fs where "files_structs s i = Some fs" using live by (auto simp: table_live_def)
    with Some show ?thesis
      by (simp add: clean_snapshot_def get_task_data_map [OF ok] d cm clean_files_snapshot_def files table_released_def
          cleaned_def inv put_td_def remove_task_data_def put_files_struct_def drop_refs_def)
  qed
qed

text \<open>The same with the caches spelled out: these fields are all that the call changes.\<close>

lemma clean_snapshot_exact:
  assumes ok: "registry_ok s" and d: "registry_map s (current s) = Some d" and td: "td_heap s d = Some data"
    and live: "table_live data s"
  shows "clean_snapshot K s = Some (s\<lparr>td_heap := (td_heap s)(d \<mapsto> cleaned data),
       task_data_list := remove1 d (task_data_list s), rcu_pending := rcu_pending s @ [d],
       last_task := (\<lambda>i. if i < nr_cpu_ids K \<and> last_task s i = current s then 0 else last_task s i),
       last_task_data := (\<lambda>i. if i < nr_cpu_ids K \<and> last_task s i = current s then None else last_task_data s i),
       files_structs := table_released (sf_files (ss_files (ss data))) (files_structs s)\<rparr>)"
proof -
  have tsk: "tsk data = current s"
    using d td by (auto simp: registry_map_eq_Some_iff [OF ok] owner_of_def)
  obtain lt ld where iv: "invalidate_task_data_cache K (tsk data) s = s\<lparr>last_task := lt, last_task_data := ld\<rparr>"
    by (rule invalidate_eq)
  have "lt = (\<lambda>i. if i < nr_cpu_ids K \<and> last_task s i = current s then 0 else last_task s i)"
    and "ld = (\<lambda>i. if i < nr_cpu_ids K \<and> last_task s i = current s then None else last_task_data s i)"
    using arg_cong [OF iv, of last_task] arg_cong [OF iv, of last_task_data] tsk by (simp_all add: fun_eq_iff)
  then show ?thesis
    unfolding clean_snapshot_run [OF assms] iv by (simp add: put_td_def remove_task_data_def)
qed

text \<open>Afterwards the task is unknown, no CPU has its pointer cached, the object waits for the end
  of a grace period, and every other snapshot is as good as before.\<close>

lemma clean_snapshot_inv:
  assumes inv: "sys_inv K G s" and d: "registry_map s (current s) = Some d" and td: "td_heap s d = Some data"
    and live: "table_live data s"
  obtains s' where "clean_snapshot K s = Some s'" and "sys_inv K G s'"
    and "registry_map s' = (registry_map s)(current s := None)" and "rcu_pending s' = rcu_pending s @ [d]"
    and "td_heap s' = (td_heap s)(d \<mapsto> cleaned data)"
    and "\<And>i. i < nr_cpu_ids K \<Longrightarrow> last_task_data s' i \<noteq> Some d"
    and "files_structs s' = table_released (sf_files (ss_files (ss data))) (files_structs s)"
    and "mem s' = mem s" and "current s' = current s" and "tasks s' = tasks s"
    and "lheap s' = lheap s" and "vmranges s' = vmranges s"
proof -
  have ok: "registry_ok s" using inv by (rule sys_invD)
  have dl: "d \<in> set (task_data_list s)" and own: "owner_of s d = current s"
    using d by (simp_all add: registry_map_eq_Some_iff [OF ok])
  then have tsk: "tsk data = current s" by (simp add: owner_of_def td)
  obtain lt ld where iv: "invalidate_task_data_cache K (tsk data) s = s\<lparr>last_task := lt, last_task_data := ld\<rparr>"
    by (rule invalidate_eq)
  let ?fs = "table_released (sf_files (ss_files (ss data))) (files_structs s)"
  define s1 where "s1 = put_td d (cleaned data) (s\<lparr>last_task := lt, last_task_data := ld, files_structs := ?fs\<rparr>)"
  let ?s' = "remove_task_data d s1"
  have run: "clean_snapshot K s = Some ?s'"
    unfolding clean_snapshot_run [OF ok d td live] iv s1_def ..
  have lt: "lt i = (if i < nr_cpu_ids K \<and> last_task s i = current s then 0 else last_task s i)"
    and ld: "ld i = (if i < nr_cpu_ids K \<and> last_task s i = current s then None else last_task_data s i)" for i
    using arg_cong [OF iv, of last_task] arg_cong [OF iv, of last_task_data] tsk
    by (simp_all add: fun_eq_iff)
  have s1: "td_heap s1 = (td_heap s)(d \<mapsto> cleaned data)" "task_data_list s1 = task_data_list s"
    "rcu_pending s1 = rcu_pending s" "last_task s1 = lt" "last_task_data s1 = ld" "mem s1 = mem s"
    "this_cpu s1 = this_cpu s" "alloc_next s1 = alloc_next s" "current s1 = current s" "tasks s1 = tasks s"
    "files_structs s1 = ?fs" "lheap s1 = lheap s" "vmranges s1 = vmranges s"
    by (simp_all add: s1_def put_td_def)
  have o1: "owner_of s1 = owner_of s" by (simp add: owner_of_def fun_eq_iff s1 td)
  have r1: "registry_map s1 = registry_map s" by (rule registry_map_cong) (simp_all add: s1 o1)
  have ok1: "registry_ok s1"
    using ok by (rule registry_ok_cong [rotated -1]) (simp_all add: s1 o1 td)
  have ok': "registry_ok ?s'" using ok1 by (rule registry_ok_remove) (simp add: s1 dl)
  have r': "registry_map ?s' = (registry_map s)(current s := None)"
    using registry_map_remove [OF ok1, of "current s" d] d by (simp add: r1)
  have others: "e \<noteq> d" if "registry_map s t = Some e" "t \<noteq> current s" for t e
    using that own by (auto simp: registry_map_eq_Some_iff [OF ok])
  have cache: "cache_entry_ok ?s' i" if i: "i < nr_cpu_ids K" for i
  proof (cases "last_task s i = current s")
    case True
    then show ?thesis using i registry_map_NULL [OF ok']
      by (simp add: cache_entry_ok_def s1 lt ld)
  next
    case False
    have "cache_entry_ok s i" using sys_invD(2) [OF inv] i by (simp add: cache_ok_def)
    then show ?thesis
      by (rule cache_entry_ok_cong [rotated -1])
        (use False others in \<open>auto simp: s1 lt ld r' split: if_splits\<close>)
  qed
  have "cache_ok K ?s'"
    using cache sys_invD(2) [OF inv] by (simp add: cache_ok_def s1)
  moreover have m': "mem ?s' = mem s" by (simp add: remove_task_data_def s1)
  moreover have "page_inv K n (fst (G n)) (snd (G n)) x (mem s)"
    if n: "registry_map ?s' (owner s n) = Some e" "td_heap ?s' e = Some x" "have_snapshot x" for n e x
  proof -
    have e: "registry_map s (owner s n) = Some e" and "owner s n \<noteq> current s"
      using n(1) by (auto simp: r' split: if_splits)
    then have "e \<noteq> d" using others by blast
    then have "td_heap s e = Some x" using n(2) by (simp add: s1)
    from sys_invD(4) [OF inv e this n(3)] show ?thesis .
  qed
  moreover have "n' = n" if "registry_map ?s' (owner s n) \<noteq> None" "owner s n' = owner s n" for n n'
  proof -
    have "registry_map s (owner s n) \<noteq> None" using that(1) by (auto simp: r' split: if_splits)
    with that(2) inv show ?thesis unfolding sys_inv_def by blast
  qed
  ultimately have "sys_inv K G ?s'"
    using ok' sys_invD(3) [OF inv] unfolding sys_inv_def by simp
  moreover have "last_task_data ?s' i \<noteq> Some d" if i: "i < nr_cpu_ids K" for i
  proof
    assume "last_task_data ?s' i = Some d"
    then have "registry_map ?s' (last_task ?s' i) = Some d"
      using cache [OF i] by (simp add: cache_entry_ok_def)
    then have "d \<in> set (task_data_list ?s')" by (simp add: registry_map_eq_Some_iff [OF ok'])
    then show False using ok by (simp add: s1 registry_ok_def)
  qed
  moreover have "tasks ?s' = tasks s" "lheap ?s' = lheap s" "vmranges ?s' = vmranges s" "files_structs ?s' = ?fs"
    by (simp_all add: remove_task_data_def s1)
  ultimately show ?thesis
    using run r' m' by (intro that [of ?s']) (simp_all add: s1)
qed

section \<open>The phases\<close>

text \<open>What the rest of the module can tell about a task: it has no data, data without a snapshot,
  or a snapshot, which may have the option EXIT.\<close>

datatype phase = Absent | Idle | Active bool

definition phase_of_data :: "task_data \<Rightarrow> phase" where
  "phase_of_data data =
     (if have_snapshot data then Active (config_has (config data) AFL_SNAPSHOT_EXIT) else Idle)"

definition phase_of :: "'s td_state_scheme \<Rightarrow> task \<Rightarrow> phase" where
  "phase_of s t = (case registry_map s t of None \<Rightarrow> Absent | Some d \<Rightarrow> phase_of_data (the (td_heap s d)))"

text \<open>The two status flags agree on registered data: the flag HAD is set with the flag MADE, and
  the data is removed when the latter is cleared.\<close>

definition statuses_ok :: "'s td_state_scheme \<Rightarrow> bool" where
  "statuses_ok s \<longleftrightarrow>
     (\<forall>t d. registry_map s t = Some d \<longrightarrow> had_snapshot (the (td_heap s d)) = have_snapshot (the (td_heap s d)))"

definition moves :: "'s td_state_scheme \<Rightarrow> 's td_state_scheme \<Rightarrow> phase \<Rightarrow> bool" where
  "moves s s' q \<longleftrightarrow>
     phase_of s' = (phase_of s)(current s := q) \<and> current s' = current s \<and> (statuses_ok s \<longrightarrow> statuses_ok s')"

lemma moves_stay:
  assumes "registry_map s' = registry_map s" and "td_heap s' = td_heap s" and "current s' = current s"
  shows "moves s s' (phase_of s (current s))"
proof -
  have "phase_of s' = phase_of s" by (rule ext) (simp only: phase_of_def assms)
  then show ?thesis by (simp add: moves_def statuses_ok_def assms)
qed

lemma same_tasks_phases:
  assumes ok: "registry_ok s" and "same_tasks s s'"
  shows "phase_of s' = phase_of s" and "statuses_ok s \<Longrightarrow> statuses_ok s'"
proof -
  have r: "registry_map s' = registry_map s" using assms(2) by (simp add: same_tasks_def)
  have e: "phase_of_data (the (td_heap s' d)) = phase_of_data (the (td_heap s d)) \<and>
      had_snapshot (the (td_heap s' d)) = had_snapshot (the (td_heap s d)) \<and>
      have_snapshot (the (td_heap s' d)) = have_snapshot (the (td_heap s d))"
    if d: "registry_map s t = Some d" for t d
  proof -
    obtain data where data: "td_heap s d = Some data" by (rule registry_map_SomeD [OF ok d])
    have "rel_option same_but_pages (td_heap s d) (td_heap s' d)" using assms(2) by (simp add: same_tasks_def)
    then show ?thesis
      by (cases "td_heap s' d")
        (auto simp: data same_but_pages_def phase_of_data_def have_snapshot_def had_snapshot_def)
  qed
  show "phase_of s' = phase_of s"
    by (rule ext) (auto simp: phase_of_def r e split: option.split)
  show "statuses_ok s'" if "statuses_ok s"
    unfolding statuses_ok_def r
  proof (intro allI impI)
    fix t d assume d: "registry_map s t = Some d"
    then have "had_snapshot (the (td_heap s d)) = have_snapshot (the (td_heap s d))"
      using that by (simp add: statuses_ok_def)
    moreover have "had_snapshot (the (td_heap s' d)) = had_snapshot (the (td_heap s d))"
      and "have_snapshot (the (td_heap s' d)) = have_snapshot (the (td_heap s d))" using e [OF d] by blast+
    ultimately show "had_snapshot (the (td_heap s' d)) = have_snapshot (the (td_heap s' d))" by blast
  qed
qed

lemma same_tasks_moves:
  "registry_ok s \<Longrightarrow> same_tasks s s' \<Longrightarrow> current s' = current s \<Longrightarrow> moves s s' (phase_of s (current s))"
  using same_tasks_phases [of s s'] by (simp add: moves_def)

text \<open>When only the data of the current task changes.\<close>

lemma moves_one:
  assumes r: "\<And>t. t \<noteq> current s \<Longrightarrow> registry_map s' t = registry_map s t"
    and h: "\<And>t d. t \<noteq> current s \<Longrightarrow> registry_map s t = Some d \<Longrightarrow> td_heap s' d = td_heap s d"
    and c: "current s' = current s" and q: "phase_of s' (current s) = q"
    and st: "\<And>d. registry_map s' (current s) = Some d \<Longrightarrow>
               had_snapshot (the (td_heap s' d)) = have_snapshot (the (td_heap s' d))"
  shows "moves s s' q"
proof -
  have "phase_of s' t = phase_of s t" if "t \<noteq> current s" for t
    using r [OF that] h [OF that] by (auto simp: phase_of_def split: option.split)
  then have "phase_of s' = (phase_of s)(current s := q)" using q by auto
  moreover have "statuses_ok s'" if "statuses_ok s"
    unfolding statuses_ok_def
  proof (intro allI impI)
    fix t d assume d: "registry_map s' t = Some d"
    show "had_snapshot (the (td_heap s' d)) = have_snapshot (the (td_heap s' d))"
    proof (cases "t = current s")
      case True
      with d st show ?thesis by simp
    next
      case False
      with d r have d': "registry_map s t = Some d" by simp
      with that h [OF False d'] show ?thesis by (simp add: statuses_ok_def)
    qed
  qed
  ultimately show ?thesis by (simp add: moves_def c)
qed

section \<open>The entry points as transitions\<close>

datatype request =
    Req_exclude u64 u64
  | Req_include u64 u64
  | Req_take u32
  | Req_restore
  | Req_clean
  | Req_exit_group
  | Req_do_exit int

text \<open>What each entry point does to the phase of the caller, and what it answers.\<close>

fun phase_step :: "request \<Rightarrow> phase \<Rightarrow> int \<times> phase" where
  "phase_step (Req_exclude st en) q = (0, if q = Absent then Idle else q)"
| "phase_step (Req_include st en) q = (0, if q = Absent then Idle else q)"
| "phase_step (Req_take cfg) (Active e) = (0, Active e)"
| "phase_step (Req_take cfg) _ = (1, Active (config_has cfg AFL_SNAPSHOT_EXIT))"
| "phase_step Req_restore Absent = (1, Absent)"
| "phase_step Req_restore q = (0, q)"
| "phase_step Req_clean _ = (0, Absent)"
| "phase_step Req_exit_group (Active True) = (0, Active True)"
| "phase_step Req_exit_group (Active False) = (1, Absent)"
| "phase_step Req_exit_group q = (1, q)"
| "phase_step (Req_do_exit code) (Active e) = (0, Absent)"
| "phase_step (Req_do_exit code) q = (0, q)"

fun serve ::
  "'k files_kernel_scheme \<Rightarrow> request \<Rightarrow> 's system_state_scheme \<Rightarrow> (int \<times> 's system_state_scheme) option" where
  "serve K (Req_exclude st en) s = map_option (Pair 0) (exclude_vmrange K st en s)"
| "serve K (Req_include st en) s = map_option (Pair 0) (include_vmrange K st en s)"
| "serve K (Req_take cfg) s = take_snapshot K cfg s"
| "serve K Req_restore s = recover_snapshot K s"
| "serve K Req_clean s = map_option (Pair 0) (clean_snapshot K s)"
| "serve K Req_exit_group s = exit_snapshot K s"
| "serve K (Req_do_exit code) s = map_option (Pair 0) (do_exit_hook K code s)"

text \<open>When an entry point may be called. \<open>Req_restore\<close> needs a snapshot if there is any
  data; theory \<open>Defects\<close> shows what it does otherwise.\<close>

definition sole_owner :: "'s mem_state_scheme \<Rightarrow> bool" where
  "sole_owner s \<longleftrightarrow>
     current s \<noteq> 0 \<and> (\<forall>m m'. owner s m = current s \<longrightarrow> owner s m' = current s \<longrightarrow> m' = m)"

definition take_ready :: "'k files_kernel_scheme \<Rightarrow> u32 \<Rightarrow> 's files_state_scheme \<Rightarrow> bool" where
  "take_ready K cfg s \<longleftrightarrow>
     (case phase_of s (current s) of
        Active e \<Rightarrow> True
      | Idle \<Rightarrow> (\<exists>G m d al bl. idle_process K G m d al bl s)
      | Absent \<Rightarrow> sole_owner s \<and> owner s (task_mm (tasks s (current s))) = current s \<and>
                  areas_ok (mm_mmap (current_mm s)) \<and> no_swap (mem s)) \<and>
     (config_has cfg AFL_SNAPSHOT_FDS \<longrightarrow> (\<exists>fs. files_ready K fs s))"

definition restore_ready :: "'k files_kernel_scheme \<Rightarrow> 's system_state_scheme \<Rightarrow> bool" where
  "restore_ready K s \<longleftrightarrow>
     (\<forall>d. registry_map s (current s) = Some d \<longrightarrow>
       (\<exists>G m data ts fds p ofs. sys_inv K G s \<and> tracked s m d data \<and> ready_to_restore K G m data ts s \<and>
          (config_has (config data) AFL_SNAPSHOT_FDS \<longrightarrow> ready_to_seek K d fds p ofs s)))"

definition clean_ready :: "'s files_state_scheme \<Rightarrow> bool" where
  "clean_ready s \<longleftrightarrow>
     (\<forall>d data. registry_map s (current s) = Some d \<longrightarrow> td_heap s d = Some data \<longrightarrow> table_live data s)"

fun request_ready :: "'k files_kernel_scheme \<Rightarrow> request \<Rightarrow> 's system_state_scheme \<Rightarrow> bool" where
  "request_ready K (Req_exclude st en) s = sole_owner s"
| "request_ready K (Req_include st en) s = sole_owner s"
| "request_ready K (Req_take cfg) s = take_ready K cfg s"
| "request_ready K Req_restore s = restore_ready K s"
| "request_ready K Req_clean s = clean_ready s"
| "request_ready K Req_exit_group s =
     (if phase_of s (current s) = Active True then restore_ready K s else clean_ready s)"
| "request_ready K (Req_do_exit code) s = clean_ready s"

definition kernel_ok :: "'k kernel_scheme \<Rightarrow> bool" where
  "kernel_ok K \<longleftrightarrow>
     no_oom K \<and> vma_walker_law K \<and> memory_laws K \<and> restore_laws K \<and> munmap_areas_law K"

text \<open>The promise: the request returns, with the answer and the phase of the abstract step.\<close>

definition served ::
  "'k files_kernel_scheme \<Rightarrow> (int \<times> 's system_state_scheme) option \<Rightarrow> 's system_state_scheme \<Rightarrow> int \<times> phase \<Rightarrow> bool" where
  "served K res s oq \<longleftrightarrow>
     (\<exists>s' G. res = Some (fst oq, s') \<and> sys_inv K G s' \<and> moves s s' (snd oq))"

lemma servedI: "res = Some (r, s') \<Longrightarrow> sys_inv K G s' \<Longrightarrow> moves s s' q \<Longrightarrow> served K res s (r, q)"
  by (auto simp: served_def)

lemma phase_of_None [simp]: "registry_map s t = None \<Longrightarrow> phase_of s t = Absent"
  by (simp add: phase_of_def)

lemma phase_of_Some: "registry_map s t = Some d \<Longrightarrow> td_heap s d = Some data \<Longrightarrow> phase_of s t = phase_of_data data"
  by (simp add: phase_of_def)

lemma phase_of_data_new [simp]: "phase_of_data (new_task_data t) = Idle"
  by (simp add: phase_of_data_def)

text \<open>A pointer in the registry belongs to one task.\<close>

lemma registry_map_inj:
  "registry_ok s \<Longrightarrow> registry_map s t = Some d \<Longrightarrow> registry_map s u = Some d \<Longrightarrow> u = t"
  by (simp add: registry_map_eq_Some_iff)

lemma sys_inv_same_machine_moves:
  assumes "sys_inv K G s" and "same_machine s s'" and "current s' = current s"
  shows "sys_inv K G s'" and "moves s s' (phase_of s (current s))"
proof -
  show "sys_inv K G s'" using assms(2,1) by (rule same_machine_inv)
  show "moves s s' (phase_of s (current s))"
    using same_machine_registry [OF assms(2)] _ assms(3) by (rule moves_stay)
      (use assms(2) in \<open>simp add: same_machine_def\<close>)
qed

lemma moves_trans: "moves s s1 q \<Longrightarrow> moves s1 s2 q' \<Longrightarrow> moves s s2 q'"
  by (auto simp: moves_def)

lemma moves_current: "moves s s' q \<Longrightarrow> phase_of s' (current s') = q"
  by (simp add: moves_def)

lemma ensure_moves:
  assumes inv: "sys_inv K G s" and oom: "no_oom K" and sole: "sole_owner s"
  obtains d s1 where "ensure_task_data K (current s) s = Some (Some d, s1)" and "sys_inv K G s1"
    and "moves s s1 (if phase_of s (current s) = Absent then Idle else phase_of s (current s))"
proof (cases "registry_map s (current s)")
  case None
  obtain s1 where run: "ensure_task_data K (current s) s = Some (Some (alloc_next s), s1)" and inv1: "sys_inv K G s1"
    and r: "registry_map s1 = (registry_map s)(current s \<mapsto> alloc_next s)"
    and td: "td_heap s1 = (td_heap s)(alloc_next s \<mapsto> new_task_data (current s))" and c: "current s1 = current s"
    by (rule ensure_inv [OF inv oom None]) (use sole in \<open>auto simp: sole_owner_def\<close>)
  have "moves s s1 Idle"
  proof (rule moves_one)
    fix t d assume "t \<noteq> current s" and d: "registry_map s t = Some d"
    then have "registry_map s1 t = Some d" by (simp add: r)
    then have "d \<noteq> alloc_next s"
      using registry_map_inj [OF sys_invD(1) [OF inv1], of "current s" "alloc_next s" t] \<open>t \<noteq> current s\<close>
      by (auto simp: r)
    then show "td_heap s1 d = td_heap s d" by (simp add: td)
  qed (simp_all add: r c phase_of_def td)
  with run inv1 show ?thesis using None by (intro that) simp_all
next
  case (Some d)
  then have "phase_of s (current s) \<noteq> Absent" by (simp add: phase_of_def phase_of_data_def)
  moreover have "moves s s (phase_of s (current s))" by (rule moves_stay) simp_all
  moreover note ensure_task_data_found [OF sys_invD(1) [OF inv] Some, of K]
  ultimately show ?thesis using that inv by simp
qed

lemma publish_same_machine: "same_machine s (publish_range head st en s)"
  by (simp add: same_machine_def) (simp add: publish_range_def new_vmrange_def Let_def)

lemma serve_range:
  assumes inv: "sys_inv K G s" and oom: "no_oom K" and sole: "sole_owner s"
  shows "served K (serve K (Req_exclude st en) s) s (phase_step (Req_exclude st en) (phase_of s (current s)))"
    and "served K (serve K (Req_include st en) s) s (phase_step (Req_include st en) (phase_of s (current s)))"
proof -
  obtain d s1 where run: "ensure_task_data K (current s) s = Some (Some d, s1)" and inv1: "sys_inv K G s1"
    and mv: "moves s s1 (if phase_of s (current s) = Absent then Idle else phase_of s (current s))"
    by (rule ensure_moves [OF assms])
  have step: "sys_inv K G (publish_range head st en s1)"
    "moves s (publish_range head st en s1) (if phase_of s (current s) = Absent then Idle else phase_of s (current s))"
    for head
  proof -
    have c: "current (publish_range head st en s1) = current s1" by simp
    note pub = sys_inv_same_machine_moves [OF inv1 publish_same_machine c]
    show "sys_inv K G (publish_range head st en s1)" by (rule pub(1))
    show "moves s (publish_range head st en s1) (if phase_of s (current s) = Absent then Idle else phase_of s (current s))"
      using moves_trans [OF mv pub(2)] mv by (simp add: moves_def)
  qed
  show "served K (serve K (Req_exclude st en) s) s (phase_step (Req_exclude st en) (phase_of s (current s)))"
    unfolding phase_step.simps
    by (rule servedI [OF _ step, of _ _ "Blocklist d"]) (simp add: exclude_vmrange_run [OF oom run])
  show "served K (serve K (Req_include st en) s) s (phase_step (Req_include st en) (phase_of s (current s)))"
    unfolding phase_step.simps
    by (rule servedI [OF _ step, of _ _ "Allowlist d"]) (simp add: include_vmrange_run [OF oom run])
qed

section \<open>Taking, restoring and dropping as transitions\<close>

lemma take_again:
  assumes "registry_ok s" and d: "registry_map s (current s) = Some d" and td: "td_heap s d = Some data"
    and "have_snapshot data"
  shows "take_snapshot K cfg s = Some (0, s)"
  using assms by (simp add: take_snapshot_def ensure_task_data_found)

lemma take_after_ensure:
  assumes "registry_ok s1" and "ensure_task_data K (current s) s = Some (Some d, s1)"
    and "registry_map s1 (current s1) = Some d" and "current s1 = current s"
  shows "take_snapshot K cfg s = take_snapshot K cfg s1"
  using assms(2,4) by (simp add: take_snapshot_def ensure_task_data_found [OF assms(1,3), unfolded assms(4)])

lemma serve_take_idle:
  assumes idle: "idle_process K G m d al bl s" and k: "kernel_ok K"
    and files: "config_has cfg AFL_SNAPSHOT_FDS \<longrightarrow> files_ready K fs s"
  obtains s' G' where "take_snapshot K cfg s = Some (1, s')" and "sys_inv K G' s'"
    and "moves s s' (Active (config_has cfg AFL_SNAPSHOT_EXIT))"
proof -
  have oom: "no_oom K" and law: "vma_walker_law K" using k by (simp_all add: kernel_ok_def)
  obtain s' data orig U where take: "take_snapshot K cfg s = Some (1, s')" and made: "snapshot_made K cfg m d fs s s' data"
    and inv': "sys_inv K (G(m := (orig, U))) s'"
    by (rule take_snapshot_idle [OF idle oom law]) (use files in blast)+
  have id: "registry_map s (current s) = Some d" "td_heap s d = Some (new_task_data (current s))"
    and inv: "sys_inv K G s" using idle by (simp_all add: idle_process_def)
  have md: "tracked s' m d data" "tsk data = current s" "config data = cfg" "had_snapshot data"
    "current s' = current s" "task_data_list s' = task_data_list s" "\<And>e. e \<noteq> d \<Longrightarrow> td_heap s' e = td_heap s e"
    using made unfolding snapshot_made_def by blast+
  have td: "td_heap s' d = Some data" and hs: "have_snapshot data" using md(1) by (simp_all add: tracked_def)
  have "owner_of s' e = owner_of s e" for e
    by (cases "e = d") (simp_all add: owner_of_def td id md)
  then have r: "registry_map s' = registry_map s"
    using md(6) by (intro registry_map_cong) auto
  have "moves s s' (Active (config_has cfg AFL_SNAPSHOT_EXIT))"
  proof (rule moves_one)
    fix t e assume t: "t \<noteq> current s" and e: "registry_map s t = Some e"
    then have "e \<noteq> d" using registry_map_inj [OF sys_invD(1) [OF inv] id(1), of t] by auto
    then show "td_heap s' e = td_heap s e" by (rule md)
  qed (simp_all add: r md id phase_of_def td phase_of_data_def hs)
  with take inv' show ?thesis by (rule that)
qed

lemma serve_take:
  assumes inv: "sys_inv K G s" and k: "kernel_ok K" and ready: "take_ready K cfg s"
  shows "served K (serve K (Req_take cfg) s) s (phase_step (Req_take cfg) (phase_of s (current s)))"
proof (cases "phase_of s (current s)")
  case (Active e)
  then obtain d where d: "registry_map s (current s) = Some d"
    by (auto simp: phase_of_def split: option.splits)
  obtain data where td: "td_heap s d = Some data" by (rule registry_map_SomeD [OF sys_invD(1) [OF inv] d])
  have "have_snapshot data" using Active by (auto simp: phase_of_Some [OF d td] phase_of_data_def split: if_splits)
  from take_again [OF sys_invD(1) [OF inv] d td this]
  have "serve K (Req_take cfg) s = Some (0, s)" by simp
  moreover have "moves s s (phase_of s (current s))" by (rule moves_stay) simp_all
  ultimately show ?thesis unfolding Active phase_step.simps using inv by (intro servedI)
next
  case Idle
  then obtain G' m d al bl where idle: "idle_process K G' m d al bl s" using ready by (auto simp: take_ready_def)
  have "\<exists>fs. config_has cfg AFL_SNAPSHOT_FDS \<longrightarrow> files_ready K fs s" using ready unfolding take_ready_def by blast
  then obtain fs where files: "config_has cfg AFL_SNAPSHOT_FDS \<longrightarrow> files_ready K fs s" ..
  show ?thesis
    unfolding Idle phase_step.simps
    by (rule serve_take_idle [OF idle k files]) (auto intro: servedI)
next
  case Absent
  have oom: "no_oom K" using k by (simp add: kernel_ok_def)
  have none: "registry_map s (current s) = None"
    using Absent by (auto simp: phase_of_def phase_of_data_def split: option.splits if_splits)
  have rd: "sole_owner s" "owner s (task_mm (tasks s (current s))) = current s" "areas_ok (mm_mmap (current_mm s))"
    "no_swap (mem s)" using ready Absent by (simp_all add: take_ready_def)
  let ?d = "alloc_next s"
  obtain s1 where run: "ensure_task_data K (current s) s = Some (Some ?d, s1)"
    and idle: "idle_process K G (task_mm (tasks s (current s))) ?d [] [] s1"
    and s1: "tasks s1 = tasks s" "current s1 = current s" "mem s1 = mem s" "mem_state.more s1 = mem_state.more s"
    and r: "registry_map s1 = (registry_map s)(current s \<mapsto> ?d)"
    by (rule ensure_idle [OF inv oom none _ refl rd(2) _ rd(3,4)]) (use rd(1,2) in \<open>auto simp: sole_owner_def\<close>)
  have inv1: "sys_inv K G s1" using idle by (simp add: idle_process_def)
  have take: "take_snapshot K cfg s = take_snapshot K cfg s1"
    by (rule take_after_ensure [OF sys_invD(1) [OF inv1] run]) (simp_all add: r s1)
  obtain d' s1' where mv: "ensure_task_data K (current s) s = Some (Some d', s1')" "moves s s1' Idle"
    by (rule ensure_moves [OF inv oom rd(1)]) (simp add: Absent)
  then have mv1: "moves s s1 Idle" using run by simp
  have "\<exists>fs. config_has cfg AFL_SNAPSHOT_FDS \<longrightarrow> files_ready K fs s" using ready unfolding take_ready_def by blast
  then obtain fs where f: "config_has cfg AFL_SNAPSHOT_FDS \<longrightarrow> files_ready K fs s" ..
  have "files_structs s1 = files_structs s" using s1(4) by (cases s, cases s1) simp
  then have files: "config_has cfg AFL_SNAPSHOT_FDS \<longrightarrow> files_ready K fs s1"
    using f by (simp add: files_ready_def s1(1,2))
  obtain s' G' where take1: "take_snapshot K cfg s1 = Some (1, s')" and inv': "sys_inv K G' s'"
    and mv': "moves s1 s' (Active (config_has cfg AFL_SNAPSHOT_EXIT))"
    by (rule serve_take_idle [OF idle k files])
  show ?thesis
    unfolding Absent phase_step.simps
    by (rule servedI [OF _ inv' moves_trans [OF mv1 mv']]) (simp add: take take1)
qed

lemma restore_moves:
  assumes inv: "sys_inv K G0 s" and k: "kernel_ok K" and ready: "restore_ready K s"
    and d: "registry_map s (current s) = Some d"
  obtains s' G where "restore_snapshot K d s = Some s'" and "sys_inv K G s'"
    and "moves s s' (phase_of s (current s))"
proof -
  have oom: "no_oom K" and laws: "memory_laws K" "restore_laws K" "munmap_areas_law K"
    using k by (simp_all add: kernel_ok_def)
  obtain G m data ts fds p ofs where inv': "sys_inv K G s" and tr: "tracked s m d data"
    and rd: "ready_to_restore K G m data ts s"
    and seek: "config_has (config data) AFL_SNAPSHOT_FDS \<longrightarrow> ready_to_seek K d fds p ofs s"
    using ready d unfolding restore_ready_def by blast
  obtain s' where run: "restore_snapshot K d s = Some s'" and inv1: "sys_inv K G s'" and c: "current s' = current s"
    and st: "same_tasks s s'"
    by (rule restore_snapshot_ok [OF inv' tr oom laws rd]) (use seek in blast)+
  show ?thesis
    using run inv1 same_tasks_moves [OF sys_invD(1) [OF inv] st c] by (rule that)
qed

lemma serve_restore:
  assumes inv: "sys_inv K G s" and k: "kernel_ok K" and ready: "restore_ready K s"
  shows "served K (serve K Req_restore s) s (phase_step Req_restore (phase_of s (current s)))"
proof (cases "registry_map s (current s)")
  case None
  have "moves s s (phase_of s (current s))" by (rule moves_stay) simp_all
  then have "moves s s Absent" using None by simp
  with inv show ?thesis using None
    by (simp add: recover_snapshot_def get_task_data_map [OF sys_invD(1) [OF inv]] servedI)
next
  case (Some d)
  obtain s' G' where run: "restore_snapshot K d s = Some s'" and inv': "sys_inv K G' s'"
    and mv: "moves s s' (phase_of s (current s))"
    by (rule restore_moves [OF inv k ready Some])
  have "phase_of s (current s) \<noteq> Absent" using Some by (simp add: phase_of_def phase_of_data_def)
  then have "phase_step Req_restore (phase_of s (current s)) = (0, phase_of s (current s))"
    by (cases "phase_of s (current s)") auto
  moreover have "serve K Req_restore s = Some (0, s')"
    by (simp add: recover_snapshot_def get_task_data_map [OF sys_invD(1) [OF inv]] Some run)
  ultimately show ?thesis using inv' mv by (auto intro: servedI)
qed

text \<open>Dropping the snapshot makes the task unknown.\<close>

lemma clean_moves:
  assumes inv: "sys_inv K G s" and ready: "clean_ready s"
  obtains s' where "clean_snapshot K s = Some s'" and "sys_inv K G s'" and "moves s s' Absent"
    and "do_exit_calls s' = do_exit_calls s"
proof (cases "registry_map s (current s)")
  case None
  have "moves s s (phase_of s (current s))" by (rule moves_stay) simp_all
  then have "moves s s Absent" using None by simp
  moreover have "clean_snapshot K s = Some s"
    using None by (simp add: clean_snapshot_def get_task_data_map [OF sys_invD(1) [OF inv]])
  ultimately show ?thesis using inv by (intro that) simp_all
next
  case (Some d)
  obtain data where td: "td_heap s d = Some data" by (rule registry_map_SomeD [OF sys_invD(1) [OF inv] Some])
  have live: "table_live data s" using ready Some td by (simp add: clean_ready_def)
  obtain s' where run: "clean_snapshot K s = Some s'" and inv': "sys_inv K G s'"
    and r: "registry_map s' = (registry_map s)(current s := None)" and h: "td_heap s' = (td_heap s)(d \<mapsto> cleaned data)"
    and c: "current s' = current s"
    by (rule clean_snapshot_inv [OF inv Some td live])
  have "moves s s' Absent"
  proof (rule moves_one)
    fix t e assume "t \<noteq> current s" and "registry_map s t = Some e"
    then have "e \<noteq> d" using registry_map_inj [OF sys_invD(1) [OF inv] Some, of t] by auto
    then show "td_heap s' e = td_heap s e" by (simp add: h)
  qed (simp_all add: r c)
  moreover have "do_exit_calls s' = do_exit_calls s"
  proof -
    obtain lt ld where iv: "invalidate_task_data_cache K (tsk data) s = s\<lparr>last_task := lt, last_task_data := ld\<rparr>"
      by (rule invalidate_eq)
    show ?thesis
      using run [unfolded clean_snapshot_run [OF sys_invD(1) [OF inv] Some td live] iv]
      by (auto simp: remove_task_data_def put_td_def)
  qed
  ultimately show ?thesis using run inv' by (rule_tac that)
qed

lemma exit_calls_same_machine:
  "same_machine s (do_exit_orig code s)" "current (do_exit_orig code s) = current s"
  by (simp_all add: same_machine_def do_exit_orig_def)

lemma phase_status:
  assumes "statuses_ok s" and "registry_map s t = Some d" and "td_heap s d = Some data"
  shows "had_snapshot data = have_snapshot data" and "phase_of s t = phase_of_data data"
proof -
  have "had_snapshot (the (td_heap s d)) = have_snapshot (the (td_heap s d))"
    using assms(1,2) by (simp add: statuses_ok_def)
  then show "had_snapshot data = have_snapshot data" by (simp add: assms(3))
  show "phase_of s t = phase_of_data data" using assms(2,3) by (simp add: phase_of_def)
qed

lemma serve_clean:
  assumes inv: "sys_inv K G s" and ready: "clean_ready s"
  shows "served K (serve K Req_clean s) s (phase_step Req_clean (phase_of s (current s)))"
proof -
  obtain s' where "clean_snapshot K s = Some s'" and "sys_inv K G s'" and "moves s s' Absent"
    by (rule clean_moves [OF assms])
  then show ?thesis by (auto intro: servedI)
qed

lemma serve_exit:
  assumes inv: "sys_inv K G s" and k: "kernel_ok K" and st: "statuses_ok s"
    and ready: "request_ready K Req_exit_group s"
  shows "served K (serve K Req_exit_group s) s (phase_step Req_exit_group (phase_of s (current s)))"
proof (cases "registry_map s (current s)")
  case None
  have "moves s s (phase_of s (current s))" by (rule moves_stay) simp_all
  then have "moves s s Absent" using None by simp
  with inv show ?thesis using None
    by (simp add: exit_snapshot_def get_task_data_map [OF sys_invD(1) [OF inv]] servedI)
next
  case (Some d)
  note ok = sys_invD(1) [OF inv]
  obtain data where td: "td_heap s d = Some data" by (rule registry_map_SomeD [OF ok Some])
  note ph = phase_status [OF st Some td]
  note run = exit_snapshot_def get_task_data_map [OF ok] Some td
  consider (again) "phase_of s (current s) = Active True" | (ended) "phase_of s (current s) = Active False"
    | (idle) "phase_of s (current s) = Idle"
    by (cases "have_snapshot data"; cases "config_has (config data) AFL_SNAPSHOT_EXIT")
      (simp_all add: ph(2) phase_of_data_def)
  then show ?thesis
  proof cases
    case again
    then have c: "have_snapshot data" "config_has (config data) AFL_SNAPSHOT_EXIT"
      by (auto simp: ph(2) phase_of_data_def split: if_splits)
    have "restore_ready K s" using ready again by simp
    then obtain s' G' where "restore_snapshot K d s = Some s'" "sys_inv K G' s'"
      "moves s s' (phase_of s (current s))" by (rule restore_moves [OF inv k _ Some])
    then show ?thesis unfolding again phase_step.simps by (auto simp: run c intro: servedI)
  next
    case ended
    then have c: "have_snapshot data" "\<not> config_has (config data) AFL_SNAPSHOT_EXIT"
      by (auto simp: ph(2) phase_of_data_def split: if_splits)
    have "clean_ready s" using ready ended by simp
    then obtain s' where "clean_snapshot K s = Some s'" "sys_inv K G s'" "moves s s' Absent"
      by (rule clean_moves [OF inv])
    then show ?thesis unfolding ended phase_step.simps
      by (auto simp: run c ph(1) intro: servedI)
  next
    case idle
    then have c: "\<not> have_snapshot data" by (auto simp: ph(2) phase_of_data_def split: if_splits)
    have "moves s s Idle" using moves_stay [OF refl refl refl, of s] by (simp add: idle)
    then show ?thesis unfolding idle phase_step.simps using inv
      by (auto simp: run c ph(1) intro: servedI)
  qed
qed

lemma serve_do_exit:
  assumes inv: "sys_inv K G s" and st: "statuses_ok s" and ready: "clean_ready s"
  obtains s' where "do_exit_hook K code s = Some s'" and "sys_inv K G s'"
    and "moves s s' (snd (phase_step (Req_do_exit code) (phase_of s (current s))))"
    and "do_exit_calls s' = do_exit_calls s @ [(current s, code)]"
proof -
  note ok = sys_invD(1) [OF inv]
  have leave: "sys_inv K G (do_exit_orig code s1)" "moves s (do_exit_orig code s1) q"
    "do_exit_calls (do_exit_orig code s1) = do_exit_calls s @ [(current s, code)]"
    if s1: "sys_inv K G s1" "moves s s1 q" "do_exit_calls s1 = do_exit_calls s" for s1 q
  proof -
    note mv = sys_inv_same_machine_moves [OF s1(1) exit_calls_same_machine, of code]
    show "sys_inv K G (do_exit_orig code s1)" by (rule mv)
    have c: "current s1 = current s" "phase_of s1 (current s1) = q" using s1(2) by (simp_all add: moves_def)
    show "moves s (do_exit_orig code s1) q" using moves_trans [OF s1(2) mv(2)] unfolding c(2) .
    show "do_exit_calls (do_exit_orig code s1) = do_exit_calls s @ [(current s, code)]"
      by (simp add: do_exit_orig_def s1 c)
  qed
  have stay: "moves s s (phase_of s (current s))" by (rule moves_stay) simp_all
  show ?thesis
  proof (cases "registry_map s (current s)")
    case None
    have "do_exit_hook K code s = Some (do_exit_orig code s)"
      by (simp add: do_exit_hook_def get_task_data_map [OF ok] None)
    then show ?thesis using leave [OF inv stay refl] None by (rule_tac that) simp_all
  next
    case (Some d)
    obtain data where td: "td_heap s d = Some data" by (rule registry_map_SomeD [OF ok Some])
    note ph = phase_status [OF st Some td]
    show ?thesis
    proof (cases "have_snapshot data")
      case False
      then have "do_exit_hook K code s = Some (do_exit_orig code s)"
        by (simp add: do_exit_hook_def get_task_data_map [OF ok] Some td ph(1))
      moreover have "phase_of s (current s) = Idle" using False by (simp add: ph(2) phase_of_data_def)
      ultimately show ?thesis using leave [OF inv stay refl] by (rule_tac that) simp_all
    next
      case True
      obtain s1 where s1: "clean_snapshot K s = Some s1" "sys_inv K G s1" "moves s s1 Absent"
        "do_exit_calls s1 = do_exit_calls s" by (rule clean_moves [OF inv ready])
      then have "do_exit_hook K code s = Some (do_exit_orig code s1)"
        by (simp add: do_exit_hook_def get_task_data_map [OF ok] Some td ph(1) True)
      moreover have "snd (phase_step (Req_do_exit code) (phase_of s (current s))) = Absent"
        using True by (simp add: ph(2) phase_of_data_def)
      ultimately show ?thesis using leave [OF s1(2-4)] by (rule_tac that) simp_all
    qed
  qed
qed

lemma serve_phase:
  assumes inv: "sys_inv K G s" and k: "kernel_ok K" and st: "statuses_ok s" and ready: "request_ready K r s"
  shows "served K (serve K r s) s (phase_step r (phase_of s (current s)))"
proof -
  have oom: "no_oom K" using k by (simp add: kernel_ok_def)
  show ?thesis
  proof (cases r)
    case (Req_do_exit code)
    then have ready': "clean_ready s" using ready by simp
    obtain s' where "do_exit_hook K code s = Some s'" and "sys_inv K G s'"
      and "moves s s' (snd (phase_step (Req_do_exit code) (phase_of s (current s))))"
      by (rule serve_do_exit [OF inv st ready'])
    moreover have "fst (phase_step (Req_do_exit code) q) = 0" for q by (cases q) simp_all
    ultimately show ?thesis by (auto simp: served_def Req_do_exit)
  qed (use ready serve_range [OF inv oom] serve_take [OF inv k] serve_restore [OF inv k] serve_clean [OF inv]
        serve_exit [OF inv k st] in simp_all)
qed

section \<open>Runs\<close>

text \<open>
  A simulation between two machines that answer requests: where the invariant holds and the
  request may be made, the concrete machine returns, keeps the invariant, and answers and moves
  as the abstract one. Runs follow.
\<close>

primrec answers :: "('r \<Rightarrow> 's \<Rightarrow> ('o \<times> 's) option) \<Rightarrow> 'r list \<Rightarrow> 's \<Rightarrow> ('o list \<times> 's) option" where
  "answers step [] s = Some ([], s)"
| "answers step (r # rs) s =
     do { (a, s1) \<leftarrow> step r s; (as, s2) \<leftarrow> answers step rs s1; Some (a # as, s2) }"

primrec spec_answers :: "('r \<Rightarrow> 'a \<Rightarrow> 'o \<times> 'a) \<Rightarrow> 'r list \<Rightarrow> 'a \<Rightarrow> 'o list \<times> 'a" where
  "spec_answers spec [] x = ([], x)"
| "spec_answers spec (r # rs) x =
     (let (a, x1) = spec r x; (as, x2) = spec_answers spec rs x1 in (a # as, x2))"

primrec all_ready :: "('r \<Rightarrow> 's \<Rightarrow> ('o \<times> 's) option) \<Rightarrow> ('r \<Rightarrow> 's \<Rightarrow> bool) \<Rightarrow> 'r list \<Rightarrow> 's \<Rightarrow> bool" where
  "all_ready step ready [] s = True"
| "all_ready step ready (r # rs) s =
     (ready r s \<and> (\<forall>a s1. step r s = Some (a, s1) \<longrightarrow> all_ready step ready rs s1))"

locale simulation =
  fixes good :: "'s \<Rightarrow> bool"
    and ready :: "'r \<Rightarrow> 's \<Rightarrow> bool"
    and step :: "'r \<Rightarrow> 's \<Rightarrow> ('o \<times> 's) option"
    and view :: "'s \<Rightarrow> 'a"
    and spec :: "'r \<Rightarrow> 'a \<Rightarrow> 'o \<times> 'a"
  assumes simulates: "good s \<Longrightarrow> ready r s \<Longrightarrow>
     \<exists>a s'. step r s = Some (a, s') \<and> good s' \<and> spec r (view s) = (a, view s')"
begin

lemma run_simulates:
  "good s \<Longrightarrow> all_ready step ready rs s \<Longrightarrow>
   \<exists>as s'. answers step rs s = Some (as, s') \<and> good s' \<and> spec_answers spec rs (view s) = (as, view s')"
proof (induction rs arbitrary: s)
  case (Cons r rs)
  from Cons.prems obtain a s1 where s1: "step r s = Some (a, s1)" "good s1" "spec r (view s) = (a, view s1)"
    using simulates [of s r] by auto
  with Cons.prems have "all_ready step ready rs s1" by simp
  from Cons.IH [OF s1(2) this] s1(1,3) show ?case by auto
qed simp

lemma run_total: "good s \<Longrightarrow> all_ready step ready rs s \<Longrightarrow> answers step rs s \<noteq> None"
  using run_simulates by fastforce

end

text \<open>What happens on the machine: a call of the module, memory events of the running process, a
  switch to another task.\<close>

datatype action = Call request | Run "mem_event list" | Switch task

fun act :: "'k files_kernel_scheme \<Rightarrow> action \<Rightarrow> 's system_state_scheme \<Rightarrow> (int \<times> 's system_state_scheme) option" where
  "act K (Call r) s = serve K r s"
| "act K (Run es) s = map_option (Pair 0) (run_events K es s)"
| "act K (Switch t) s = Some (0, s\<lparr>current := t\<rparr>)"

fun action_ready :: "'k files_kernel_scheme \<Rightarrow> action \<Rightarrow> 's system_state_scheme \<Rightarrow> bool" where
  "action_ready K (Call r) s = request_ready K r s"
| "action_ready K _ s = True"

fun action_spec :: "action \<Rightarrow> task \<times> (task \<Rightarrow> phase) \<Rightarrow> int \<times> task \<times> (task \<Rightarrow> phase)" where
  "action_spec (Call r) (t, ph) = (let (a, q) = phase_step r (ph t) in (a, t, ph(t := q)))"
| "action_spec (Run es) (t, ph) = (0, t, ph)"
| "action_spec (Switch u) (t, ph) = (0, u, ph)"

definition module_inv :: "'k files_kernel_scheme \<Rightarrow> 's system_state_scheme \<Rightarrow> bool" where
  "module_inv K s \<longleftrightarrow> kernel_ok K \<and> (\<exists>G. sys_inv K G s) \<and> statuses_ok s"

definition phases_view :: "'s td_state_scheme \<Rightarrow> task \<times> (task \<Rightarrow> phase)" where
  "phases_view s = (current s, phase_of s)"

lemma moves_view:
  "moves s s' q \<Longrightarrow> phases_view s' = (current s, (phase_of s)(current s := q))"
  by (simp add: moves_def phases_view_def)

lemma act_simulates:
  assumes inv: "module_inv K s" and ready: "action_ready K a s"
  shows "\<exists>r s'. act K a s = Some (r, s') \<and> module_inv K s' \<and> action_spec a (phases_view s) = (r, phases_view s')"
proof -
  obtain G where k: "kernel_ok K" and i: "sys_inv K G s" and st: "statuses_ok s"
    using inv by (auto simp: module_inv_def)
  show ?thesis
  proof (cases a)
    case (Call r)
    then have "request_ready K r s" using ready by simp
    from serve_phase [OF i k st this] obtain s' G' where
      run: "serve K r s = Some (fst (phase_step r (phase_of s (current s))), s')" and inv': "sys_inv K G' s'"
      and mv: "moves s s' (snd (phase_step r (phase_of s (current s))))"
      by (auto simp: served_def)
    have "module_inv K s'" using k inv' mv st by (auto simp: module_inv_def moves_def)
    moreover have "action_spec a (phases_view s) =
        (fst (phase_step r (phase_of s (current s))), current s, (phase_of s)(current s := snd (phase_step r (phase_of s (current s)))))"
      by (simp add: Call phases_view_def split_def Let_def)
    ultimately show ?thesis using run moves_view [OF mv] by (simp add: Call)
  next
    case (Run es)
    have laws: "no_oom K" "memory_laws K" using k by (simp_all add: kernel_ok_def)
    obtain s' where run: "run_events K es s = Some s'" and inv': "sys_inv K G s'" and same: "same_tasks s s'"
      using sys_inv_run_events [OF i laws, of es] by auto
    have "current s' = current s" using run_events_frame [OF run] by (simp add: same_env_def)
    moreover note ph = same_tasks_phases [OF sys_invD(1) [OF i] same]
    ultimately have "phases_view s' = phases_view s" by (simp add: phases_view_def)
    moreover have "module_inv K s'" using k inv' ph(2) [OF st] by (auto simp: module_inv_def)
    ultimately show ?thesis using run by (simp add: Run phases_view_def)
  next
    case (Switch t)
    let ?s = "s\<lparr>current := t\<rparr>"
    have same: "same_machine s ?s" by (simp add: same_machine_def)
    have "registry_map ?s = registry_map s" using same by (rule same_machine_registry)
    moreover have "td_heap ?s = td_heap s" by simp
    ultimately have "phase_of ?s = phase_of s" and "statuses_ok ?s = statuses_ok s"
      by (simp_all only: phase_of_def [abs_def] statuses_ok_def)
    moreover have "sys_inv K G ?s" using same i by (rule same_machine_inv)
    ultimately show ?thesis using k st by (auto simp: Switch module_inv_def phases_view_def)
  qed
qed

interpretation module: simulation "module_inv K" "action_ready K" "act K" phases_view action_spec
  for K :: "'k files_kernel_scheme"
  by unfold_locales (rule act_simulates)

end
