(* ===== verification/Defects.thy ===== *)
theory Defects
  imports Phases
begin

text \<open>
  Behaviour of the entry points that their users would not expect: restoring without a snapshot
  unmaps the program, task data without a snapshot outlives its task, and the per-CPU cache can
  be refilled between its invalidation and the removal of the data.
\<close>

section \<open>Restoring without a snapshot\<close>

text \<open>C29. \<open>recover_snapshot\<close> tests that there is task data, not that it holds a snapshot. When it is called after \<open>afl_snapshot_include_vmrange\<close> or
  \<open>afl_snapshot_exclude_vmrange\<close> but before any snapshot, the saved break is 0: everything
  below the current break is unmapped, the break is set to 0, and the caller is told 0.\<close>

theorem recover_without_snapshot_unmaps:
  assumes ok: "registry_ok s" "cache_ok K s"
    and d: "registry_map s (current s) = Some d" and td: "td_heap s d = Some (new_task_data (current s))"
    and ring: "thread_ring (tasks s) ts" "task_group_leader (tasks s (current s)) = hd ts"
    and m: "m = task_mm (tasks s (current s))" "mm_owner (mms (mem s) m) = current s"
    and brk: "PAGE_ALIGN (mm_brk (mms (mem s) m)) \<noteq> 0"
    and munmap: "do_munmap K m 0 (mm_brk (mms (mem s) m)) (mem s) = (0, M)"
  shows "\<exists>s'. recover_snapshot K s = Some (0, s') \<and> mem s' = upd_mm m (\<lambda>mm. mm\<lparr>mm_brk := 0\<rparr>) M"
proof -
  let ?t = "current s"
  define s1 where "s1 = s\<lparr>sent_signals := sent_signals s @
       map (Pair SIGKILL) (filter (\<lambda>u. u \<noteq> ?t) (visited (tasks s) ts))\<rparr>"
  have run1: "recover_threads_snapshot d s = Some s1"
    using recover_threads_ok [OF td ring(1)] ring(2) by (simp add: s1_def new_task_data_def)
  have same: "same_machine s s1" by (simp add: same_machine_def s1_def)
  have r: "registry_map s1 = registry_map s" using same by (rule same_machine_registry)
  have ok1: "registry_ok s1"
    using ok(1) by (rule registry_ok_cong [rotated -1]) (simp_all add: s1_def owner_of_def fun_eq_iff)
  have ok2: "cache_ok K s1"
    using ok(2) by (rule cache_ok_cong [rotated -1]) (simp_all add: r, simp_all add: s1_def)
  have s1: "mem s1 = mem s" "tasks s1 = tasks s" "current s1 = ?t" "td_heap s1 = td_heap s" by (simp_all add: s1_def)
  obtain f s2 where get: "get_task_data_with_cache ?t s1 = Some (f, s2)" and h2: "td_heap s2 = td_heap s1"
    and f: "f = registry_map s1 ?t \<or> f = None \<and> (\<exists>d. registry_map s1 ?t = Some d \<and> \<not> have_snapshot (the (td_heap s1 d)))"
    and e2: "\<exists>lt ld. s2 = s1\<lparr>last_task := lt, last_task_data := ld\<rparr>"
    by (rule get_with_cache_cases [OF ok1 ok2, of ?t])
  have s2: "mem s2 = mem s1" "tasks s2 = tasks s1" "current s2 = current s1" using e2 by auto
  have hook: "do_munmap_hook K m 0 (mm_brk (mms (mem s) m)) s1 = Some s2"
    using f get td by (auto simp: do_munmap_hook_def s1 m(2) h2 r d)
  define s3 where "s3 = s2\<lparr>mem := upd_mm m (\<lambda>mm. mm\<lparr>mm_brk := 0\<rparr>) M\<rparr>"
  have cfg: "\<not> config_has (config (new_task_data ?t)) f" for f
    by (simp add: new_task_data_def config_has_def)
  have brk0: "oldbrk (ss (new_task_data ?t)) = 0" by (simp add: new_task_data_def zero_snapshot_def)
  have "PAGE_ALIGN 0 = 0" by (simp add: PAGE_ALIGN_def)
  then have run2: "recover_state K d s1 = Some s3"
    using brk munmap td
    by (simp add: recover_state_def s1 restore_brk_def Let_def vm_munmap_def hook s2 s3_def config_has_def brk0
        flip: m(1))
  have td3: "td_heap s3 d = Some (new_task_data ?t)" by (simp add: s3_def h2 s1 td)
  have mm: "task_mm (tasks s3 (tsk (new_task_data ?t))) = m" "task_mm (tasks s3 (current s3)) = m"
    by (simp_all add: s3_def s2 s1 m new_task_data_def)
  have dirty: "dirty_pages (ss (new_task_data ?t)) = []"
    using no_pages_new [of ?t] by (simp add: no_pages_def)
  have run3: "recover_memory_snapshot K d s3 = Some (0, put_td d (new_task_data ?t) s3)"
    by (simp add: recover_memory_pages [OF td3 cfg mm] recover_process_def td3 dirty)
  have "recover_files_snapshot K d ths (put_td d (new_task_data ?t) s3) = Some (0, put_td d (new_task_data ?t) s3)" for ths
    by (simp add: recover_files_snapshot_def config_has_def)
  then have "recover_snapshot K s = Some (0, put_td d (new_task_data ?t) s3)"
    by (simp add: recover_snapshot_def get_task_data_map [OF ok(1)] d restore_snapshot_def run1 run2 run3)
  then show ?thesis by (simp add: s3_def)
qed

text \<open>The process loses its only area and the page in it.\<close>

theorem recover_without_snapshot_unmaps_witness:
  "\<exists>s'. recover_snapshot ref_files_kernel demo_system = Some (0, s') \<and>
     map vm_end (mm_mmap (mms (mem demo_system) 0)) = [0x3000] \<and> pte_present (pte_of (mem demo_system) 0 0x1000) \<and>
     mm_mmap (mms (mem s') 0) = [] \<and> \<not> pte_present (pte_of (mem s') 0 0x1000)"
proof -
  obtain r M where munmap: "do_munmap ref_files_kernel 0 0 (mm_brk (mms (mem demo_system) 0)) (mem demo_system) = (r, M)"
    by (cases "do_munmap ref_files_kernel 0 0 (mm_brk (mms (mem demo_system) 0)) (mem demo_system)")
  have "r = 0" and areas: "mm_mmap (mms M 0) = []" and pte: "\<not> pte_present (ptes (mms M 0) 0x1000)"
    using munmap
    by (auto simp: ref_files_kernel_core ref_munmap_def page_aligned_def offset_in_page_def fresh_mem_def
        demo_mem_def demo_mm_def upd_mm_def cut_area_def empty_pte_def)
  have inv: "registry_ok demo_system" "cache_ok ref_files_kernel demo_system"
    using demo_system_inv [of "\<lambda>_. (Map.empty, {})"] by (simp_all add: sys_inv_def)
  have d: "registry_map demo_system (current demo_system) = Some 100" by (simp add: registry_map_def owner_of_def)
  have ring: "thread_ring (tasks demo_system) [7, 8, 9]" "task_group_leader (tasks demo_system (current demo_system)) = hd [7, 8, 9]"
    by (simp_all add: thread_ring_def demo_thread_def)
  have "\<exists>s'. recover_snapshot ref_files_kernel demo_system = Some (0, s') \<and>
      mem s' = upd_mm 0 (\<lambda>mm. mm\<lparr>mm_brk := 0\<rparr>) M"
    by (rule recover_without_snapshot_unmaps [OF inv d _ ring])
      (use munmap \<open>r = 0\<close> in \<open>simp_all add: demo_thread_def fresh_owner\<close>,
       simp_all add: fresh_mem_def demo_mem_def demo_mm_def PAGE_ALIGN_def)
  then show ?thesis
    using areas pte
    by (auto simp: upd_mm_def) (simp_all add: fresh_mem_def demo_mem_def demo_mm_def)
qed

section \<open>Data that outlives its task\<close>

text \<open>A task that has only included or excluded ranges leaves its task data registered when it
  exits: neither \<open>exit_snapshot\<close> nor \<open>do_exit_hook\<close> removes it, and the next task that is
  given the same address inherits it.\<close>

theorem exit_keeps_idle_data:
  assumes ok: "registry_ok s" and st: "statuses_ok s" and idle: "phase_of s (current s) = Idle"
  shows "exit_snapshot K s = Some (1, s) \<and>
     (\<exists>s'. do_exit_hook K code s = Some s' \<and> do_exit_calls s' = do_exit_calls s @ [(current s, code)] \<and>
        registry_map s' (current s) = registry_map s (current s) \<and> registry_map s' (current s) \<noteq> None)"
proof -
  obtain d where d: "registry_map s (current s) = Some d"
    using idle by (auto simp: phase_of_def split: option.splits)
  obtain data where td: "td_heap s d = Some data" by (rule registry_map_SomeD [OF ok d])
  note ph = phase_status [OF st d td]
  have none: "\<not> have_snapshot data" "\<not> had_snapshot data"
    using idle ph by (auto simp: phase_of_data_def split: if_splits)
  have "registry_map (do_exit_orig code s) = registry_map s"
    by (rule same_machine_registry [OF exit_calls_same_machine(1)])
  then show ?thesis
    by (simp add: exit_snapshot_def do_exit_hook_def get_task_data_map [OF ok] d td none)
      (simp add: do_exit_orig_def)
qed

theorem exit_keeps_idle_data_witness:
  "exit_snapshot ref_files_kernel demo_system = Some (1, demo_system) \<and>
   (\<exists>s'. do_exit_hook ref_files_kernel 9 demo_system = Some s' \<and> do_exit_calls s' = [(7, 9)] \<and>
      registry_map s' 7 = Some 100)"
proof -
  have ok: "registry_ok demo_system"
    using demo_system_inv [of "\<lambda>_. (Map.empty, {})"] by (rule sys_invD)
  have r: "registry_map demo_system t = (if t = 7 then Some 100 else None)" for t
    by (simp add: registry_map_def owner_of_def)
  have "statuses_ok demo_system" "phase_of demo_system (current demo_system) = Idle"
    by (simp_all add: statuses_ok_def phase_of_def r split: if_split)
  from exit_keeps_idle_data [OF ok this, of ref_files_kernel 9] show ?thesis by (simp add: r) blast
qed

section \<open>A lookup while the snapshot is dropped\<close>

text \<open>
  \<open>clean_snapshot\<close> with another CPU looking the task up, as a hook does on behalf of any thread
  that shares the address space, after \<open>clean_memory_snapshot\<close> has emptied the caches and
  before \<open>remove_task_data\<close>; then a grace period ends.
\<close>

definition clean_snapshot_raced ::
  "'k kernel_scheme \<Rightarrow> nat \<Rightarrow> 's files_state_scheme \<Rightarrow> 's files_state_scheme option" where
  "clean_snapshot_raced K cpu s =
     do { found \<leftarrow> get_task_data (current s) s;
          d \<leftarrow> found;
          s1 \<leftarrow> clean_memory_snapshot K d s;
          (_, s2) \<leftarrow> get_task_data_with_cache (current s) (s1\<lparr>this_cpu := cpu\<rparr>);
          s3 \<leftarrow> clean_files_snapshot d s2;
          data \<leftarrow> td_heap s3 d;
          let s4 = remove_task_data d (put_td d (clear_snapshot data) s3);
          rcu_grace_period s4 }"

text \<open>C33. Afterwards that CPU holds a pointer to the freed object and will dereference it at its
  next fault of the task.\<close>

theorem cache_refilled_before_removal:
  assumes inv: "sys_inv K G s" and d: "registry_map s (current s) = Some d" and td: "td_heap s d = Some data"
    and live: "table_live data s" and one: "rcu_pending s = []" and cpu: "cpu < nr_cpu_ids K"
    and ls: "list_nodes s (Blocklist d) bs" "list_nodes s (Allowlist d) as" "set bs \<inter> set as = {}"
  shows "\<exists>s'. clean_snapshot_raced K cpu s = Some s' \<and> this_cpu s' = cpu \<and>
     last_task s' cpu = current s \<and> last_task_data s' cpu = Some d \<and> td_heap s' d = None \<and>
     get_task_data_with_cache (current s) s' = Some (Some d, s')"
proof -
  let ?t = "current s"
  note ok = sys_invD(1) [OF inv]
  have t: "?t \<noteq> 0" using d registry_map_NULL [OF ok] by (metis option.distinct(1))
  have tsk: "tsk data = ?t" using d td by (auto simp: registry_map_eq_Some_iff [OF ok] owner_of_def)
  obtain lt ld where iv: "invalidate_task_data_cache K ?t s = s\<lparr>last_task := lt, last_task_data := ld\<rparr>"
    by (rule invalidate_eq)
  have lt: "lt cpu \<noteq> ?t"
    using fun_cong [OF arg_cong [OF iv, of last_task], of cpu] cpu t by (auto split: if_splits)
  let ?D = "upd_ss (\<lambda>x. x\<lparr>ss_pages := (\<lambda>_. [])\<rparr>) (clean_snapshot_vmas data)"
  define s1 where "s1 = put_td d ?D (s\<lparr>last_task := lt, last_task_data := ld, this_cpu := cpu\<rparr>)"
  have run1: "clean_memory_snapshot K d s = Some (put_td d ?D (s\<lparr>last_task := lt, last_task_data := ld\<rparr>))"
    using td by (simp add: clean_memory_snapshot_def iv tsk Let_def)
  have s1: "(put_td d ?D (s\<lparr>last_task := lt, last_task_data := ld\<rparr>))\<lparr>this_cpu := cpu\<rparr> = s1"
    by (simp add: s1_def put_td_def)
  have o1: "owner_of s1 = owner_of s"
    by (simp add: s1_def owner_of_def fun_eq_iff td clean_snapshot_vmas_def)
  have ok1: "registry_ok s1"
    using ok by (rule registry_ok_cong [rotated -1]) (simp_all add: o1, simp_all add: s1_def td)
  have r1: "registry_map s1 = registry_map s" by (rule registry_map_cong) (simp_all add: o1, simp add: s1_def)
  define s2 where "s2 = s1\<lparr>last_task := lt(cpu := ?t), last_task_data := ld(cpu := Some d)\<rparr>"
  have run2: "get_task_data_with_cache ?t s1 = Some (Some d, s2)"
    using lt by (simp add: get_with_cache_eq [OF ok1] r1 d s2_def) (simp add: s1_def)
  let ?i = "sf_files (ss_files (ss data))"
  define s3 where "s3 = put_td d (set_files None None ?D) (s2\<lparr>files_structs := table_released ?i (files_structs s)\<rparr>)"
  have td2: "td_heap s2 d = Some ?D" by (simp add: s2_def s1_def)
  have files: "ss_files (ss (clean_snapshot_vmas data)) = ss_files (ss data)" "files_structs s2 = files_structs s"
    by (simp_all add: clean_snapshot_vmas_def s2_def s1_def put_td_def)
  have run3: "clean_files_snapshot d s2 = Some s3"
  proof (cases ?i)
    case None
    then have "s3 = put_td d (set_files None None ?D) s2"
      by (simp add: s3_def table_released_def flip: files(2))
    then show ?thesis by (simp add: clean_files_snapshot_def td2 files None)
  next
    case (Some i)
    then obtain fs where "files_structs s i = Some fs" using live by (auto simp: table_live_def)
    then show ?thesis
      by (simp add: clean_files_snapshot_def td2 files Some put_files_struct_def s3_def table_released_def drop_refs_def)
  qed
  define s4 where "s4 = remove_task_data d (put_td d (clear_snapshot (set_files None None ?D)) s3)"
  have s4: "rcu_pending s4 = [d]" "lheap s4 = lheap s" "this_cpu s4 = cpu"
    "last_task s4 = lt(cpu := ?t)" "last_task_data s4 = ld(cpu := Some d)"
    by (simp_all add: s4_def s3_def s2_def s1_def remove_task_data_def put_td_def one)
  let ?s4 = "s4\<lparr>rcu_pending := []\<rparr>"
  obtain s' where run4: "task_data_free_callback d ?s4 = Some s'"
    and eq: "s' = ?s4\<lparr>td_heap := (td_heap ?s4)(d := None), lheap := lheap s',
                vmranges := (\<lambda>n. if n \<in> set bs \<union> set as then None else vmranges ?s4 n)\<rparr>"
    by (rule task_data_free_callback_ok [of ?s4 d bs as]) (use ls in \<open>simp_all add: list_nodes_def s4\<close>)
  have s': "td_heap s' d = None" "this_cpu s' = cpu" "last_task s' = lt(cpu := ?t)"
    "last_task_data s' = ld(cpu := Some d)"
    by (subst eq, simp add: s4)+
  have "td_heap s3 d = Some (set_files None None ?D)" by (simp add: s3_def)
  moreover have "rcu_grace_period s4 = Some s'" by (simp add: rcu_grace_period_def s4(1) run4)
  ultimately have "clean_snapshot_raced K cpu s = Some s'"
    by (simp add: clean_snapshot_raced_def get_task_data_map [OF ok] d run1 s1 run2 run3 flip: s4_def)
  moreover have "get_task_data_with_cache ?t s' = Some (Some d, s')"
    by (simp add: get_task_data_with_cache_def s')
  ultimately show ?thesis using s' by simp
qed

theorem cache_refilled_before_removal_witness:
  "\<exists>s'. clean_snapshot_raced ref_files_kernel 1 demo_system = Some s' \<and> last_task_data s' 1 = Some 100 \<and>
     td_heap s' 100 = None"
proof -
  have d: "registry_map demo_system (current demo_system) = Some 100"
    by (simp add: registry_map_def owner_of_def)
  have lists: "list_nodes demo_system (Blocklist 100) []" "list_nodes demo_system (Allowlist 100) []"
    by (simp_all add: list_nodes_def dlist_def)
  from cache_refilled_before_removal [OF demo_system_inv d _ _ _ _ lists, of "new_task_data 7" 1]
  show ?thesis by (auto simp: table_live_def new_task_data_def zero_snapshot_def ref_files_kernel_core)
qed

end
