(* ===== verification/Rounds.thy ===== *)
theory Rounds
  imports Defects
begin

text \<open>
  The loop of a fuzzer: one snapshot, then any number of rounds, each of which lets the process
  run and restores it.
\<close>

section \<open>The loop\<close>

text \<open>
  What a round may not do to the areas, for a snapshot that was taken in state \<open>s0\<close>: they are
  ready in the sense of theory \<open>Roundtrip\<close>, and the break does not move down across a page
  boundary.
\<close>

definition keeps_areas ::
  "'k kernel_scheme \<Rightarrow> mm_id \<Rightarrow> u32 \<Rightarrow> vmrange list \<Rightarrow> vmrange list \<Rightarrow> 's mem_state_scheme \<Rightarrow> 's mem_state_scheme \<Rightarrow> bool" where
  "keeps_areas K m cfg al bl s0 s \<longleftrightarrow>
     (mm_brk (mms (mem s0) m) \<le> mm_brk (mms (mem s) m) \<or>
      PAGE_ALIGN (mm_brk (mms (mem s) m)) = PAGE_ALIGN (mm_brk (mms (mem s0) m))) \<and>
     areas_ready K cfg (mm_mmap (mms (mem s0) m)) (mm_brk (mms (mem s0) m)) (mm_mmap (mms (mem s) m)) (mm_brk (mms (mem s) m))
       (\<lambda>b. pte_present (pte_of (mem s0) m b) \<and> covered m cfg al bl (mem s0) b)"

text \<open>With the option FDS, the files that were open, in the table \<open>fs\<close>, can still be put back.\<close>

definition keeps_files :: "'k files_kernel_scheme \<Rightarrow> u32 \<Rightarrow> files_struct \<Rightarrow> 's system_state_scheme
   \<Rightarrow> 's system_state_scheme \<Rightarrow> bool" where
  "keeps_files K cfg fs s0 s \<longleftrightarrow>
     (config_has cfg AFL_SNAPSHOT_FDS \<longrightarrow>
        (\<exists>ofs. can_seek K (open_fds fs) (\<lambda>f. position (file_objects s0 f)) ofs s))"

inductive fuzz_rounds ::
  "'k files_kernel_scheme \<Rightarrow> mm_id \<Rightarrow> u32 \<Rightarrow> vmrange list \<Rightarrow> vmrange list \<Rightarrow> nat \<Rightarrow> files_struct \<Rightarrow> 's system_state_scheme
   \<Rightarrow> 's system_state_scheme \<Rightarrow> nat \<Rightarrow> 's system_state_scheme \<Rightarrow> bool"
  for K m cfg al bl d fs s0 s1 where
  none: "fuzz_rounds K m cfg al bl d fs s0 s1 0 s1"
| round: "fuzz_rounds K m cfg al bl d fs s0 s1 n s \<Longrightarrow> process_runs K es regs objs structs s = Some s' \<Longrightarrow>
     (\<forall>i. own_table d s = Some i \<longrightarrow> structs i = files_structs s i) \<Longrightarrow> keeps_areas K m cfg al bl s0 s' \<Longrightarrow>
     keeps_files K cfg fs s0 s' \<Longrightarrow> recover_snapshot K s' = Some (0, s'') \<Longrightarrow>
     fuzz_rounds K m cfg al bl d fs s0 s1 (Suc n) s''"

inductive_cases fuzz_roundE: "fuzz_rounds K m cfg al bl d fs s0 s1 (Suc n) s"

text \<open>The files \<open>fds\<close> are at the positions \<open>p\<close>, and task \<open>t\<close> has them open under their old descriptors.\<close>

definition files_as_before :: "(nat \<times> nat) list \<Rightarrow> (nat \<Rightarrow> int) \<Rightarrow> task \<Rightarrow> 's files_state_scheme \<Rightarrow> bool" where
  "files_as_before fds p t s \<longleftrightarrow>
     (\<forall>(fd, f) \<in> set fds. 0 \<le> p f \<longrightarrow> f_pos (file_objects s f) = p f) \<and>
     (\<exists>fs. files_structs s (task_files (tasks s t)) = Some fs \<and> open_fds fs = fds)"

lemma files_back_before:
  assumes "files_back fds p threads s s'" and "current s \<in> set threads"
  shows "files_as_before fds p (current s) s'"
  using assms by (force simp: files_back_def files_as_before_def seek_back_def sharing_def)

text \<open>What holds before and after every round.\<close>

definition armed ::
  "'k kernel_scheme \<Rightarrow> ghost \<Rightarrow> mm_id \<Rightarrow> nat \<Rightarrow> task_data \<Rightarrow> (nat \<times> nat) list \<Rightarrow> (nat \<Rightarrow> int)
   \<Rightarrow> 's system_state_scheme \<Rightarrow> 's system_state_scheme \<Rightarrow> bool" where
  "armed K G m d data0 fds p s0 s \<longleftrightarrow>
     sys_inv K G s \<and> current s = current s0 \<and> owner s m = current s0 \<and> same_shape (tasks s0) (tasks s) \<and>
     (\<exists>data. tracked s m d data \<and> same_but_pages data0 data \<and>
        (config_has (config data0) AFL_SNAPSHOT_FDS \<longrightarrow> files_saved d fds p s \<and> table_apart data s))"

lemma same_shape_trans: "same_shape T T1 \<Longrightarrow> same_shape T1 T2 \<Longrightarrow> same_shape T T2"
  by (simp add: same_shape_def same_links_def)

lemma process_runs_registry:
  assumes "sys_inv K G s" and "no_oom K" and "memory_laws K" and run: "process_runs K es regs objs structs s = Some s'"
  shows "registry_map s' = registry_map s"
proof -
  obtain x where x: "run_events K es s = Some x" and "same_tasks s x"
    using sys_inv_run_events [OF assms(1-3), of es] by blast
  moreover have "registry_map s' = registry_map x"
    by (rule registry_map_cong) (use run x in \<open>auto simp: process_runs_def owner_of_def fun_eq_iff\<close>)
  ultimately show ?thesis by (simp add: same_tasks_def)
qed

lemma armed_runs:
  assumes a: "armed K G m d data0 fds p s0 s" and oom: "no_oom K" and laws: "memory_laws K"
    and run: "process_runs K es regs objs structs s = Some s'"
    and own: "\<forall>i. own_table d s = Some i \<longrightarrow> structs i = files_structs s i"
  shows "armed K G m d data0 fds p s0 s'"
proof -
  obtain data where inv: "sys_inv K G s" and tr: "tracked s m d data" and same0: "same_but_pages data0 data"
    and c: "current s = current s0" and o: "owner s m = current s0" and sh: "same_shape (tasks s0) (tasks s)"
    and files: "config_has (config data0) AFL_SNAPSHOT_FDS \<longrightarrow> files_saved d fds p s \<and> table_apart data s"
    using a by (auto simp: armed_def)
  obtain data' where inv': "sys_inv K G s'" and tr': "tracked s' m d data'" and same: "same_but_pages data data'"
    and s': "tasks s' = (tasks s)(current s := (tasks s (current s))\<lparr>task_regs := regs\<rparr>)"
      "current s' = current s" "owner s' m = owner s m" "alloc_next s \<le> alloc_next s'"
    and saved: "\<And>fds p. files_saved d fds p s \<Longrightarrow> files_saved d fds p s'"
    by (rule process_runs_ok [OF inv tr oom laws run]) (use own in blast)+
  have "same_shape (tasks s) (tasks s')" by (simp add: same_shape_def same_links_def s')
  with sh have "same_shape (tasks s0) (tasks s')" by (rule same_shape_trans)
  moreover have "table_apart data s \<Longrightarrow> table_apart data' s'"
    using same s'(4) by (auto simp: table_apart_def s'(1,2) same_but_pages_def dest: less_le_trans)
  ultimately show ?thesis
    unfolding armed_def using inv' tr' same_but_pages_trans [OF same0 same] files saved by (auto simp: s'(2,3) c o)
qed

text \<open>An armed process is ready for \<open>restore_snapshot\<close> when its areas and files are.\<close>

lemma armed_ready:
  assumes a: "armed K G m d data0 fds p s0 s"
    and seek: "config_has (config data0) AFL_SNAPSHOT_FDS \<longrightarrow> (\<exists>ofs. can_seek K fds p ofs s)"
    and ring: "thread_ring (tasks s0) ts" "task_group_leader (tasks s0 (current s0)) = hd ts"
    and m: "m = task_mm (tasks s0 (current s0))" and tsk: "tsk data0 = current s0"
    and area: "oldbrk (ss data0) \<le> mm_brk (mms (mem s) m) \<or>
         PAGE_ALIGN (mm_brk (mms (mem s) m)) = PAGE_ALIGN (oldbrk (ss data0))"
      "memory_ready K data0 m (mem s) (\<lambda>b. fst (G m) b \<noteq> None)"
      "if config_has (config data0) AFL_SNAPSHOT_MMAP
       then \<not> page_aligned (oldbrk (ss data0)) \<or> PAGE_ALIGN (mm_brk (mms (mem s) m)) = PAGE_ALIGN (oldbrk (ss data0))
       else (\<forall>b. fst (G m) b \<noteq> None \<longrightarrow> b \<notin> {oldbrk (ss data0) ..< mm_brk (mms (mem s) m)})"
  obtains data ofs where "sys_inv K G s" and "tracked s m d data" and "same_but_pages data0 data"
    and "ready_to_restore K G m data ts s" and "config_has (config data) AFL_SNAPSHOT_FDS \<longrightarrow> ready_to_seek K d fds p ofs s"
proof -
  obtain data where inv: "sys_inv K G s" and tr: "tracked s m d data" and same0: "same_but_pages data0 data"
    and c: "current s = current s0" and sh: "same_shape (tasks s0) (tasks s)"
    and files: "config_has (config data0) AFL_SNAPSHOT_FDS \<longrightarrow> files_saved d fds p s \<and> table_apart data s"
    using a by (auto simp: armed_def)
  have d: "tsk data = current s0" "config data = config data0" "oldbrk (ss data) = oldbrk (ss data0)"
    "all_vmas (ss data) = all_vmas (ss data0)"
    using same0 tsk by (simp_all add: same_but_pages_def)
  have links: "same_links (tasks s0) (tasks s)" "\<And>t. task_mm (tasks s t) = task_mm (tasks s0 t)"
    using sh by (simp_all add: same_shape_def)
  have leader: "task_group_leader (tasks s (current s0)) = hd ts"
    using links(1) ring(2) by (simp add: same_links_def)
  have ready: "ready_to_restore K G m data ts s"
    unfolding ready_to_restore_def using ring(1) leader area m
    by (cases "config_has (config data0) AFL_SNAPSHOT_MMAP")
      (simp_all add: memory_ready_def mmap_ready_def d c links(2) thread_ring_cong [OF links(1)])
  obtain ofs where "config_has (config data) AFL_SNAPSHOT_FDS \<longrightarrow> ready_to_seek K d fds p ofs s"
    using seek files by (auto simp: ready_to_seek_def d(2))
  with inv tr same0 ready show ?thesis by (rule that)
qed

lemma armed_recovers:
  assumes a: "armed K G m d data0 fds p s0 s" and oom: "no_oom K"
    and laws: "memory_laws K" "restore_laws K" "munmap_areas_law K"
    and seek: "config_has (config data0) AFL_SNAPSHOT_FDS \<longrightarrow> (\<exists>ofs. can_seek K fds p ofs s)"
    and ring: "thread_ring (tasks s0) ts" "task_group_leader (tasks s0 (current s0)) = hd ts"
    and m: "m = task_mm (tasks s0 (current s0))" and tsk: "tsk data0 = current s0"
    and area: "oldbrk (ss data0) \<le> mm_brk (mms (mem s) m) \<or>
         PAGE_ALIGN (mm_brk (mms (mem s) m)) = PAGE_ALIGN (oldbrk (ss data0))"
      "memory_ready K data0 m (mem s) (\<lambda>b. fst (G m) b \<noteq> None)"
      "if config_has (config data0) AFL_SNAPSHOT_MMAP
       then \<not> page_aligned (oldbrk (ss data0)) \<or> PAGE_ALIGN (mm_brk (mms (mem s) m)) = PAGE_ALIGN (oldbrk (ss data0))
       else (\<forall>b. fst (G m) b \<noteq> None \<longrightarrow> b \<notin> {oldbrk (ss data0) ..< mm_brk (mms (mem s) m)})"
  obtains s' where "recover_snapshot K s = Some (0, s')" and "armed K G m d data0 fds p s0 s'"
    and "\<And>b q. promised K m (fst (G m)) (snd (G m)) b = Some q \<Longrightarrow> user_view K m (mem s') b = q"
    and "config_has (config data0) AFL_SNAPSHOT_REGS \<longrightarrow> task_regs (tasks s' (current s0)) = ss_regs (ss data0)"
    and "areas_restored data0 (mm_mmap (mms (mem s) m)) (mm_mmap (mms (mem s') m))"
    and "config_has (config data0) AFL_SNAPSHOT_FDS \<longrightarrow> files_as_before fds p (current s0) s'"
proof -
  obtain data ofs where inv: "sys_inv K G s" and tr: "tracked s m d data" and same0: "same_but_pages data0 data"
    and ready: "ready_to_restore K G m data ts s"
    and seek': "config_has (config data) AFL_SNAPSHOT_FDS \<longrightarrow> ready_to_seek K d fds p ofs s"
    by (rule armed_ready [OF a seek ring m tsk area]) blast
  have c: "current s = current s0" and o: "owner s m = current s0" and sh: "same_shape (tasks s0) (tasks s)"
    using a by (auto simp: armed_def)
  have files: "table_apart data s" if "config_has (config data) AFL_SNAPSHOT_FDS"
    using a that same0 tr by (auto simp: armed_def same_but_pages_def tracked_def)
  have d: "config data = config data0" "ss_regs (ss data) = ss_regs (ss data0)"
    using same0 tsk by (simp_all add: same_but_pages_def)
  obtain s' data' where res: "restore_snapshot K d s = Some s'" and inv': "sys_inv K G s'"
    and tr': "tracked s' m d data'" and same: "same_but_pages data data'" and c': "current s' = current s"
    and st: "same_tasks s s'" and sh': "same_shape (tasks s) (tasks s')"
    and view: "\<And>b q. promised K m (fst (G m)) (snd (G m)) b = Some q \<Longrightarrow> user_view K m (mem s') b = q"
    and regs: "config_has (config data) AFL_SNAPSHOT_REGS \<longrightarrow> task_regs (tasks s' (current s)) = ss_regs (ss data)"
    and returned: "config_has (config data) AFL_SNAPSHOT_FDS \<longrightarrow> files_back fds p (signal_threads s (current s)) s s'"
    and areas: "areas_restored data (mm_mmap (mms (mem s) m)) (mm_mmap (mms (mem s') m))"
    and files': "config_has (config data) AFL_SNAPSHOT_FDS \<longrightarrow> table_apart data s \<longrightarrow> files_saved d fds p s' \<and> table_apart data' s'"
    by (rule restore_snapshot_ok [OF inv tr oom laws ready seek' [rule_format]]) blast+
  have "owner s' m = owner s m" using st by (simp add: same_tasks_def)
  then have "armed K G m d data0 fds p s0 s'"
    unfolding armed_def
    using inv' tr' same_but_pages_trans [OF same0 same] same_shape_trans [OF sh sh'] c' c o files files'
    by (auto simp: d(1))
  moreover have "recover_snapshot K s = Some (0, s')"
    using inv tr _ res by (rule recover_snapshot_tracked) (simp add: o c)
  moreover have "files_as_before fds p (current s0) s'" if "config_has (config data0) AFL_SNAPSHOT_FDS"
    using files_back_before [of fds p "signal_threads s (current s)" s s'] returned seek that
    by (auto simp: d(1) c can_seek_def)
  ultimately show ?thesis using view regs areas
    by (rule_tac that [of s']) (simp_all add: d c areas_restored_cong [OF same0])
qed

text \<open>Taking a snapshot arms the process.\<close>

lemma snapshot_made_armed:
  assumes made: "snapshot_made K cfg m d fs s0 s1 data" and inv: "sys_inv K G s1"
    and files: "config_has cfg AFL_SNAPSHOT_FDS \<longrightarrow> task_files (tasks s0 (current s0)) < alloc_next s0"
  shows "armed K G m d data (open_fds fs) (\<lambda>f. position (file_objects s0 f)) s0 s1"
proof -
  have md: "tracked s1 m d data" "tsk data = current s0" "config data = cfg" "tasks s1 = tasks s0" "current s1 = current s0"
    "config_has cfg AFL_SNAPSHOT_FDS \<longrightarrow> files_saved d (open_fds fs) (\<lambda>f. position (file_objects s0 f)) s1"
    "\<forall>i. sf_files (ss_files (ss data)) = Some i \<longrightarrow> alloc_next s0 \<le> i \<and> i < alloc_next s1"
    using made unfolding snapshot_made_def by blast+
  have apart: "table_apart data s1" if "config_has cfg AFL_SNAPSHOT_FDS"
    using that files md(7) by (auto simp: table_apart_def md(4,5))
  have "registry_map s1 (owner s1 m) = Some d" "td_heap s1 d = Some data"
    using md(1) by (simp_all add: tracked_def)
  then have "owner s1 m = current s0"
    using registry_map_eq_Some_iff [OF sys_invD(1) [OF inv]] md(2) by (auto simp: owner_of_def)
  moreover have "same_shape (tasks s0) (tasks s1)" by (simp add: md same_shape_def same_links_def)
  ultimately show ?thesis
    unfolding armed_def using inv md apart by (auto intro: exI [of _ data])
qed

text \<open>C2. The loop of a fuzzer, with any options. After the snapshot has been taken, and after any
  number of rounds, the covered pages show the bytes they showed when it was taken; once there
  has been a round, the registers are the old ones with the option REGS, and with the option FDS
  the files that were open are at their old positions under their old descriptors. Whatever the
  process does next within \<open>keeps_areas\<close> and \<open>keeps_files\<close>, the next \<open>recover_snapshot\<close> succeeds
  and, with the option MMAP, restores the areas.\<close>

theorem fuzzing_rounds:
  assumes idle: "idle_process K G m d al bl s0" and oom: "no_oom K"
    and laws: "vma_walker_law K" "memory_laws K" "restore_laws K" "munmap_areas_law K"
    and files: "config_has cfg AFL_SNAPSHOT_FDS \<longrightarrow>
         files_ready K fs s0 \<and> task_files (tasks s0 (current s0)) < alloc_next s0"
    and ring: "thread_ring (tasks s0) ts" "task_group_leader (tasks s0 (current s0)) = hd ts"
    and take: "take_snapshot K cfg s0 = Some (r, s1)"
    and rounds: "fuzz_rounds K m cfg al bl d fs s0 s1 n s"
  shows "(\<forall>b. covered m cfg al bl (mem s0) b \<longrightarrow> user_view K m (mem s) b = user_view K m (mem s0) b) \<and>
     (0 < n \<and> config_has cfg AFL_SNAPSHOT_REGS \<longrightarrow>
        task_regs (tasks s (current s0)) = task_regs (tasks s0 (current s0))) \<and>
     (0 < n \<and> config_has cfg AFL_SNAPSHOT_FDS \<longrightarrow>
        files_as_before (open_fds fs) (\<lambda>f. position (file_objects s0 f)) (current s0) s) \<and>
     (\<forall>es regs objs structs s'. process_runs K es regs objs structs s = Some s' \<and>
        (\<forall>i. own_table d s = Some i \<longrightarrow> structs i = files_structs s i) \<and>
        keeps_areas K m cfg al bl s0 s' \<and> keeps_files K cfg fs s0 s' \<longrightarrow>
        (\<exists>s''. recover_snapshot K s' = Some (0, s'') \<and>
           (config_has cfg AFL_SNAPSHOT_MMAP \<longrightarrow>
             (\<forall>a. area_restored (saved_at (map area_view (mm_mmap (mms (mem s0) m))) a)
                    (flags_at (mm_mmap (mms (mem s') m)) a) (flags_at (mm_mmap (mms (mem s'') m)) a)))))"
proof -
  let ?p = "\<lambda>f. position (file_objects s0 f)"
  obtain s' data orig U where take': "take_snapshot K cfg s0 = Some (1, s')"
    and made: "snapshot_made K cfg m d fs s0 s' data" and inv: "sys_inv K (G(m := (orig, U))) s'"
    and prom: "\<And>b. covered m cfg al bl (mem s0) b \<Longrightarrow> promised K m orig U b = Some (user_view K m (mem s0) b)"
    and orig: "\<And>b. orig b \<noteq> None \<Longrightarrow> pte_present (pte_of (mem s0) m b) \<and> covered m cfg al bl (mem s0) b"
    by (rule take_snapshot_idle [OF idle oom laws(1), of cfg fs], use files in simp) blast
  define G' where "G' = G(m := (orig, U))"
  have s': "s' = s1" using take take' by simp
  have md: "tracked s1 m d data" "tsk data = current s0" "config data = cfg"
    "ss_regs (ss data) = task_regs (tasks s0 (current s0))" "oldbrk (ss data) = mm_brk (mms (mem s0) m)"
    "tasks s1 = tasks s0" "current s1 = current s0"
    "map sv_view (all_vmas (ss data)) = map area_view (mm_mmap (mms (mem s0) m))" "\<And>b. user_view K m (mem s1) b = user_view K m (mem s0) b"
    using made unfolding snapshot_made_def s' by blast+
  have m: "m = task_mm (tasks s0 (current s0))" and old: "areas_ok (mm_mmap (mms (mem s0) m))"
    using idle unfolding idle_process_def by blast+
  have start: "armed K G' m d data (open_fds fs) ?p s0 s1"
    by (rule snapshot_made_armed [OF made [unfolded s'] inv [unfolded s', folded G'_def]]) (use files in blast)
  have recovers: "\<exists>s''. recover_snapshot K u = Some (0, s'') \<and> armed K G' m d data (open_fds fs) ?p s0 s'' \<and>
      (\<forall>b. covered m cfg al bl (mem s0) b \<longrightarrow> user_view K m (mem s'') b = user_view K m (mem s0) b) \<and>
      (config_has cfg AFL_SNAPSHOT_REGS \<longrightarrow> task_regs (tasks s'' (current s0)) = task_regs (tasks s0 (current s0))) \<and>
      (config_has cfg AFL_SNAPSHOT_FDS \<longrightarrow> files_as_before (open_fds fs) ?p (current s0) s'') \<and>
      (config_has cfg AFL_SNAPSHOT_MMAP \<longrightarrow>
         (\<forall>a. area_restored (saved_at (map area_view (mm_mmap (mms (mem s0) m))) a)
                (flags_at (mm_mmap (mms (mem u) m)) a) (flags_at (mm_mmap (mms (mem s'') m)) a)))"
    if a: "armed K G' m d data (open_fds fs) ?p s0 u" and keep: "keeps_areas K m cfg al bl s0 u"
      and keepf: "keeps_files K cfg fs s0 u" for u
  proof -
    have ready: "areas_ready K cfg (mm_mmap (mms (mem s0) m)) (mm_brk (mms (mem s0) m)) (mm_mmap (mms (mem u) m))
        (mm_brk (mms (mem u) m)) (\<lambda>b. pte_present (pte_of (mem s0) m b) \<and> covered m cfg al bl (mem s0) b)"
      using keep by (simp add: keeps_areas_def)
    have "pte_present (pte_of (mem s0) m b) \<and> covered m cfg al bl (mem s0) b" if "fst (G' m) b \<noteq> None" for b
      using that by (intro orig) (simp add: G'_def)
    note mr = areas_ready_memory [OF ready md(3,8) old this, where P = "\<lambda>b. fst (G' m) b \<noteq> None"]
    have brk: "oldbrk (ss data) \<le> mm_brk (mms (mem u) m) \<or>
         PAGE_ALIGN (mm_brk (mms (mem u) m)) = PAGE_ALIGN (oldbrk (ss data))"
      using keep by (simp add: md keeps_areas_def)
    have fds: "config_has (config data) AFL_SNAPSHOT_FDS \<longrightarrow> (\<exists>ofs. can_seek K (open_fds fs) ?p ofs u)"
      using keepf by (simp add: keeps_files_def md)
    obtain s'' where "recover_snapshot K u = Some (0, s'')" and "armed K G' m d data (open_fds fs) ?p s0 s''"
      and view: "\<And>b q. promised K m (fst (G' m)) (snd (G' m)) b = Some q \<Longrightarrow> user_view K m (mem s'') b = q"
      and "config_has (config data) AFL_SNAPSHOT_REGS \<longrightarrow> task_regs (tasks s'' (current s0)) = ss_regs (ss data)"
      and "areas_restored data (mm_mmap (mms (mem u) m)) (mm_mmap (mms (mem s'') m))"
      and "config_has (config data) AFL_SNAPSHOT_FDS \<longrightarrow> files_as_before (open_fds fs) ?p (current s0) s''"
      by (rule armed_recovers [OF a oom laws(2-4) fds ring m md(2) brk mr(1) mr(2) [folded md(3,5)]]) blast+
    moreover have "user_view K m (mem s'') b = user_view K m (mem s0) b" if "covered m cfg al bl (mem s0) b" for b
      using prom [OF that] by (intro view) (simp add: G'_def)
    ultimately show ?thesis by (auto simp: md areas_restored_def)
  qed
  have "armed K G' m d data (open_fds fs) ?p s0 s \<and>
      (\<forall>b. covered m cfg al bl (mem s0) b \<longrightarrow> user_view K m (mem s) b = user_view K m (mem s0) b) \<and>
      (0 < n \<and> config_has cfg AFL_SNAPSHOT_REGS \<longrightarrow>
         task_regs (tasks s (current s0)) = task_regs (tasks s0 (current s0))) \<and>
      (0 < n \<and> config_has cfg AFL_SNAPSHOT_FDS \<longrightarrow> files_as_before (open_fds fs) ?p (current s0) s)"
    using rounds
  proof induction
    case none
    show ?case by (intro conjI start allI impI) (simp_all add: md(9))
  next
    case (round n s es regs objs structs u u')
    have "armed K G' m d data (open_fds fs) ?p s0 u"
      by (rule armed_runs [OF conjunct1 [OF round.IH] oom laws(2) round.hyps(2,3)])
    from recovers [OF this round.hyps(4,5)] round.hyps(6) show ?case by auto
  qed
  note now = this
  have "\<exists>s''. recover_snapshot K s' = Some (0, s'') \<and>
      (config_has cfg AFL_SNAPSHOT_MMAP \<longrightarrow>
        (\<forall>a. area_restored (saved_at (map area_view (mm_mmap (mms (mem s0) m))) a)
               (flags_at (mm_mmap (mms (mem s') m)) a) (flags_at (mm_mmap (mms (mem s'') m)) a)))"
    if "process_runs K es regs objs structs s = Some s'"
      and "\<forall>i. own_table d s = Some i \<longrightarrow> structs i = files_structs s i"
      and "keeps_areas K m cfg al bl s0 s'" "keeps_files K cfg fs s0 s'" for es regs objs structs s'
    using recovers [OF armed_runs [OF conjunct1 [OF now] oom laws(2) that(1,2)] that(3,4)] by blast
  with now show ?thesis by blast
qed

text \<open>A round of the process of theory \<open>Roundtrip\<close>, which writes to its first page, jumps, and reads its
  file up to position 90.\<close>

lemma demo_round:
  assumes inv: "sys_inv ref_files_kernel G s" and tr: "tracked s 0 100 data" and areas: "same_areas fresh_mem (mem s)"
    and s: "tasks s = demo_thread" "current s = 7" "files_state.more s = files_state.more demo_system" "200 \<le> alloc_next s"
      "files_structs s 0 = Some demo_fds" and cfg: "\<not> config_has cfg AFL_SNAPSHOT_MMAP"
  obtains s' where "process_runs ref_files_kernel fresh_events \<lparr>ip = 99, gprs = []\<rparr> (demo_files 90) (files_structs s) s = Some s'"
    and "keeps_areas ref_files_kernel 0 cfg [] [] demo_system s'" and "keeps_files ref_files_kernel cfg demo_fds demo_system s'"
proof -
  obtain s' where run: "process_runs ref_files_kernel fresh_events \<lparr>ip = 99, gprs = []\<rparr> (demo_files 90) (files_structs s) s = Some s'"
    using sys_inv_run_events [OF inv ref_files_kernel_laws(1,3), of fresh_events] by (auto simp: process_runs_def)
  obtain s': "tasks s' = (tasks s)(current s := (tasks s (current s))\<lparr>task_regs := \<lparr>ip = 99, gprs = []\<rparr>\<rparr>)"
      "current s' = current s" "alloc_next s \<le> alloc_next s'"
    and more: "mem_state.more s' = mem_state.more (s\<lparr>file_objects := demo_files 90, files_structs := files_structs s\<rparr>)"
    and faults: "list_all is_fault fresh_events \<longrightarrow> same_areas (mem s) (mem s')"
    by (rule process_runs_ok [OF inv tr ref_files_kernel_laws(1,3) run refl])
  have fields: "file_objects s' = demo_files 90" "files_structs s' = files_structs s" "signal_threads s' = (\<lambda>_. [7, 8])"
    using more s(3) by (cases s, cases s', simp add: demo_system_def files_state.defs threads_state.defs system_state.defs)+
  have same: "same_areas fresh_mem (mem s')"
    using areas faults by (auto simp: fresh_events_def intro: same_areas_trans)
  have "mm_brk (mms fresh_mem 0) = mm_brk (mms (mem s') 0)" using same by (simp add: same_areas_def)
  moreover have "area_writable (mem s') 0 0x1000"
    by (simp add: same_areas_writable [OF same]) (simp add: area_writable_def fresh_mem_def demo_mem_def demo_mm_def vm_flag_defs)
  ultimately have "keeps_areas ref_files_kernel 0 cfg [] [] demo_system s'"
    using cfg by (simp add: keeps_areas_def areas_ready_def area_writable_def fresh_pte empty_pte_def)
  moreover have "0 < alloc_next s'" using s(4) s'(3) by linarith
  then have "can_seek ref_files_kernel (open_fds demo_fds) (\<lambda>f. position (file_objects demo_system f)) demo_fds s'"
    using s
    by (simp add: can_seek_def ref_files_laws fields s' demo_thread_def sharing_def demo_open_fds position_def
        demo_files_def demo_fds_def ESPIPE_def)
  then have "keeps_files ref_files_kernel cfg demo_fds demo_system s'" by (auto simp: keeps_files_def)
  ultimately show ?thesis by (rule that [OF run])
qed

theorem fuzzing_rounds_witness:
  "\<exists>s1 s2 s. take_snapshot ref_files_kernel 12 demo_system = Some (1, s1) \<and>
     process_runs ref_files_kernel fresh_events \<lparr>ip = 99, gprs = []\<rparr> (demo_files 90) (files_structs s1) s1 = Some s2 \<and>
     recover_snapshot ref_files_kernel s2 = Some (0, s) \<and>
     user_view ref_files_kernel 0 (mem s) 0x1000 = demo_page \<and> ip (task_regs (tasks s 7)) = 0 \<and>
     f_pos (file_objects s2 1) = 90 \<and> f_pos (file_objects s 1) = 5"
proof -
  let ?K = ref_files_kernel and ?cfg = "12 :: u32"
  have cfg: "config_has ?cfg AFL_SNAPSHOT_FDS" "config_has ?cfg AFL_SNAPSHOT_REGS"
    "\<not> config_has ?cfg AFL_SNAPSHOT_BLOCK" "\<not> config_has ?cfg AFL_SNAPSHOT_NOSTACK" "\<not> config_has ?cfg AFL_SNAPSHOT_MMAP"
    by (simp_all add: config_has_def config_defs)
  have ready: "files_ready ?K demo_fds demo_system"
    by (simp add: files_ready_def ref_files_laws demo_thread_def)
  obtain s1 data orig U where take: "take_snapshot ?K ?cfg demo_system = Some (1, s1)"
    and made: "snapshot_made ?K ?cfg 0 100 demo_fds demo_system s1 data"
    and inv: "sys_inv ?K ((\<lambda>_. (Map.empty, {}))(0 := (orig, U))) s1"
    by (rule take_snapshot_idle [OF demo_system_idle ref_files_kernel_laws(1,2) ready])
  have tr: "tracked s1 0 100 data" and areas: "same_areas fresh_mem (mem s1)"
    and s1: "tasks s1 = demo_thread" "current s1 = 7" "files_state.more s1 = files_state.more demo_system" "200 \<le> alloc_next s1"
      "files_structs s1 0 = Some demo_fds"
    using made by (simp_all add: snapshot_made_def)
  obtain s2 where run: "process_runs ?K fresh_events \<lparr>ip = 99, gprs = []\<rparr> (demo_files 90) (files_structs s1) s1 = Some s2"
    and keep: "keeps_areas ?K 0 ?cfg [] [] demo_system s2" and keepf: "keeps_files ?K ?cfg demo_fds demo_system s2"
    by (rule demo_round [OF inv tr areas s1 cfg(5)])
  have ring: "thread_ring (tasks demo_system) [7, 8, 9]" "task_group_leader (tasks demo_system (current demo_system)) = hd [7, 8, 9]"
    by (simp_all add: thread_ring_def demo_thread_def)
  have files: "config_has ?cfg AFL_SNAPSHOT_FDS \<longrightarrow>
      files_ready ?K demo_fds demo_system \<and> task_files (tasks demo_system (current demo_system)) < alloc_next demo_system"
    using ready by (simp add: demo_thread_def)
  note loop = fuzzing_rounds [OF demo_system_idle ref_files_kernel_laws files ring take]
  have r0: "fuzz_rounds ?K 0 ?cfg [] [] 100 demo_fds demo_system s1 0 s1" by (rule fuzz_rounds.none)
  obtain s3 where rec: "recover_snapshot ?K s2 = Some (0, s3)" using loop [OF r0] run keep keepf by blast
  have r1: "fuzz_rounds ?K 0 ?cfg [] [] 100 demo_fds demo_system s1 (Suc 0) s3"
    by (rule fuzz_rounds.round [OF r0 run _ keep keepf rec]) simp
  have cov: "covered 0 ?cfg [] [] (mem demo_system) 0x1000"
    by (simp add: covered_def selected_def skip_vma_def fresh_mem_def demo_mem_def demo_mm_def vm_flag_defs
        cfg want_page_def)
  have "user_view ?K 0 fresh_mem 0x1000 = demo_page"
    by (simp add: user_view_def fresh_pte content_def) (simp add: fresh_mem_def demo_mem_def)
  then have "user_view ?K 0 (mem s3) 0x1000 = demo_page" using loop [OF r1] cov by simp
  moreover have "ip (task_regs (tasks s3 7)) = 0" using loop [OF r1] cfg(2) by (simp add: demo_thread_def)
  moreover have "files_as_before (open_fds demo_fds) (\<lambda>f. position (demo_files 5 f)) 7 s3" using loop [OF r1] cfg(1) by simp
  then have "f_pos (file_objects s3 1) = 5"
    by (simp add: files_as_before_def demo_open_fds position_def demo_files_def)
  moreover have "f_pos (file_objects s2 1) = 90" using run by (auto simp: process_runs_def demo_files_def)
  ultimately show ?thesis using take run rec by blast
qed

end
