(* ===== verification/Sessions.thy ===== *)
theory Sessions
  imports Rounds
begin

text \<open>
  Whole sessions: sequences of requests, memory events and task switches behave as the phases
  say, and a dropped snapshot is gone.
\<close>

section \<open>Dropping\<close>

text \<open>C10. \<open>clean_snapshot\<close> forgets the caller. Its data is unlisted, unflagged and without pages,
  saved areas or files; every CPU that had the caller cached has its cache entry cleared; the
  object waits for a grace period; the saved descriptor table loses one reference. These are all
  the changes: the range lists with their links, memory, tasks, file objects, signals, the other
  caches and every other task's data are as before. The machine stays in order.\<close>

theorem clean_snapshot_forgets:
  assumes inv: "sys_inv K G s" and d: "registry_map s (current s) = Some d" and td: "td_heap s d = Some data"
    and live: "table_live data s"
  shows "\<exists>s'. clean_snapshot K s = Some s' \<and> sys_inv K G s' \<and>
     registry_map s' = (registry_map s)(current s := None) \<and>
     (\<forall>i < nr_cpu_ids K. last_task_data s' i \<noteq> Some d) \<and> rcu_pending s' = rcu_pending s @ [d] \<and>
     (\<exists>data'. td_heap s' d = Some data' \<and> \<not> have_snapshot data' \<and> ss_pages (ss data') = (\<lambda>_. []) \<and>
        all_vmas (ss data') = [] \<and> sf_files (ss_files (ss data')) = None) \<and>
     (\<forall>e. e \<noteq> d \<longrightarrow> td_heap s' e = td_heap s e) \<and>
     files_structs s' = table_released (sf_files (ss_files (ss data))) (files_structs s) \<and>
     mem s' = mem s \<and> vmranges s' = vmranges s \<and>
     s' = s\<lparr>td_heap := (td_heap s)(d \<mapsto> cleaned data), task_data_list := remove1 d (task_data_list s),
       rcu_pending := rcu_pending s @ [d],
       last_task := (\<lambda>i. if i < nr_cpu_ids K \<and> last_task s i = current s then 0 else last_task s i),
       last_task_data := (\<lambda>i. if i < nr_cpu_ids K \<and> last_task s i = current s then None else last_task_data s i),
       files_structs := table_released (sf_files (ss_files (ss data))) (files_structs s)\<rparr>"
proof -
  obtain s' where run: "clean_snapshot K s = Some s'" and "sys_inv K G s'"
    and "registry_map s' = (registry_map s)(current s := None)" and "rcu_pending s' = rcu_pending s @ [d]"
    and h: "td_heap s' = (td_heap s)(d \<mapsto> cleaned data)"
    and "\<And>i. i < nr_cpu_ids K \<Longrightarrow> last_task_data s' i \<noteq> Some d"
    and "files_structs s' = table_released (sf_files (ss_files (ss data))) (files_structs s)"
    and "mem s' = mem s" and "vmranges s' = vmranges s"
    by (rule clean_snapshot_inv [OF assms]) blast
  moreover note clean_snapshot_exact [OF sys_invD(1) [OF inv] d td live, of K, unfolded run option.inject]
  ultimately show ?thesis by (intro exI [of _ s']) (simp add: h)
qed

text \<open>The process of theory \<open>Roundtrip\<close> after taking a snapshot with the options FDS and REGS.\<close>

definition demo_taken :: "system_state \<Rightarrow> task_data \<Rightarrow> ghost \<Rightarrow> bool" where
  "demo_taken s data G \<longleftrightarrow>
     take_snapshot ref_files_kernel 12 demo_system = Some (1, s) \<and> sys_inv ref_files_kernel G s \<and>
     snapshot_made ref_files_kernel 12 0 100 demo_fds demo_system s data"

lemma demo_taken_exists: obtains s data G where "demo_taken s data G"
proof -
  have ready: "files_ready ref_files_kernel demo_fds demo_system"
    by (simp add: files_ready_def ref_files_laws demo_thread_def)
  obtain s data orig U where "take_snapshot ref_files_kernel 12 demo_system = Some (1, s)"
    and "snapshot_made ref_files_kernel 12 0 100 demo_fds demo_system s data"
    and "sys_inv ref_files_kernel ((\<lambda>_. (Map.empty, {}))(0 := (orig, U))) s"
    by (rule take_snapshot_idle [OF demo_system_idle ref_files_kernel_laws(1,2) ready])
  then show ?thesis using that unfolding demo_taken_def by blast
qed

lemma demo_takenD:
  assumes "demo_taken s data G"
  shows "current s = 7" and "registry_map s 7 = Some 100" and "td_heap s 100 = Some data" and "have_snapshot data"
    and "had_snapshot data" and "config data = 12" and "tracked s 0 100 data"
    and "\<exists>fds p. files_saved 100 fds p s"
proof -
  note d = assms [unfolded demo_taken_def]
  have inv: "sys_inv ref_files_kernel G s" using d by simp
  have md: "tracked s 0 100 data" "tsk data = current demo_system" "current s = current demo_system"
    "had_snapshot data" "config data = 12" and f: "config_has 12 AFL_SNAPSHOT_FDS \<longrightarrow>
        files_saved 100 (open_fds demo_fds) (\<lambda>f. position (file_objects demo_system f)) s"
    using d unfolding snapshot_made_def by blast+
  show "current s = 7" "tracked s 0 100 data" "had_snapshot data" "config data = 12" using md by simp_all
  show td: "td_heap s 100 = Some data" and "have_snapshot data" using md(1) by (simp_all add: tracked_def)
  have "100 \<in> set (task_data_list s)" "owner_of s 100 = 7"
    using md(1,2) td by (auto simp: tracked_def registry_map_eq_Some_iff [OF sys_invD(1) [OF inv]] owner_of_def)
  then show "registry_map s 7 = Some 100" by (simp add: registry_map_eq_Some_iff [OF sys_invD(1) [OF inv]])
  show "\<exists>fds p. files_saved 100 fds p s" using f by (auto simp: config_has_def config_defs)
qed

lemma files_saved_live: "files_saved d fds p s \<Longrightarrow> td_heap s d = Some data \<Longrightarrow> table_live data s"
  by (auto simp: files_saved_def table_live_def)

theorem clean_snapshot_forgets_witness:
  "\<exists>s s'. take_snapshot ref_files_kernel 12 demo_system = Some (1, s) \<and> registry_map s 7 = Some 100 \<and>
     clean_snapshot ref_files_kernel s = Some s' \<and> registry_map s' 7 = None \<and> rcu_pending s' = rcu_pending s @ [100]"
proof -
  obtain s data G where demo: "demo_taken s data G" by (rule demo_taken_exists)
  note d = demo_takenD [OF demo]
  have inv: "sys_inv ref_files_kernel G s" and take: "take_snapshot ref_files_kernel 12 demo_system = Some (1, s)"
    using demo by (simp_all add: demo_taken_def)
  have live: "table_live data s" using d(8) files_saved_live [OF _ d(3)] by blast
  have "registry_map s (current s) = Some 100" by (simp add: d)
  from clean_snapshot_forgets [OF inv this d(3) live] take d show ?thesis by auto
qed

section \<open>Sessions\<close>

text \<open>C4. Refinement. Any sequence of requests, memory events and task switches, each made when
  \<open>action_ready\<close> allows it, runs to the end; the answers are those of the abstract machine,
  which only knows the current task and a phase per task; and the state it ends in is again in
  order and shows the phases of the abstract machine.\<close>

theorem sessions_refine_phases:
  assumes "module_inv K s" and "all_ready (act K) (action_ready K) as s"
  shows "\<exists>rs s'. answers (act K) as s = Some (rs, s') \<and> module_inv K s' \<and>
     spec_answers action_spec as (phases_view s) = (rs, phases_view s')"
  using assms by (rule module.run_simulates)

text \<open>Taking, running, taking again, dropping, restoring and exiting.\<close>

definition demo_session :: "action list" where
  "demo_session = [Call (Req_take 12), Run fresh_events, Call (Req_take 12), Call Req_clean, Call Req_restore,
     Call Req_exit_group, Switch 8]"

lemma same_env_table:
  "same_env s s' \<Longrightarrow> files_ready K fs s \<Longrightarrow> files_ready K fs s'"
  using same_env_files [of s s'] by (simp add: files_ready_def same_env_def)

lemma absent_ready:
  assumes "registry_map s (current s) = None"
  shows "restore_ready K s" and "clean_ready s" and "request_ready K Req_exit_group s"
  using assms by (simp_all add: restore_ready_def clean_ready_def)

lemma absent_answers:
  assumes "registry_ok s" and "registry_map s (current s) = None"
  shows "recover_snapshot K s = Some (1, s)" and "exit_snapshot K s = Some (1, s)"
  using assms by (simp_all add: recover_snapshot_def exit_snapshot_def get_task_data_map)

text \<open>The process in the middle of its first round.\<close>

lemma demo_running:
  obtains s1 s2 G data fs where "take_ready ref_files_kernel 12 demo_system"
    and "take_snapshot ref_files_kernel 12 demo_system = Some (1, s1)"
    and "run_events ref_files_kernel fresh_events s1 = Some s2" and "sys_inv ref_files_kernel G s2"
    and "current s2 = 7" and "registry_map s2 7 = Some 100" and "td_heap s2 100 = Some data" and "have_snapshot data"
    and "phase_of s2 7 = Active False" and "files_ready ref_files_kernel fs s2" and "clean_ready s2"
    and "\<exists>fds p. files_saved 100 fds p s2"
proof -
  let ?K = ref_files_kernel
  obtain s1 data G where demo: "demo_taken s1 data G" by (rule demo_taken_exists)
  note d = demo_takenD [OF demo]
  have inv1: "sys_inv ?K G s1" and take1: "take_snapshot ?K 12 demo_system = Some (1, s1)"
    using demo by (simp_all add: demo_taken_def)
  have files0: "files_ready ?K demo_fds demo_system"
    by (simp add: files_ready_def ref_files_laws demo_thread_def)
  have idle: "take_ready ?K 12 demo_system"
  proof -
    have "phase_of demo_system (current demo_system) = Idle"
      by (simp add: phase_of_def registry_map_def owner_of_def)
    moreover have "\<exists>G m d al bl. idle_process ?K G m d al bl demo_system" by (intro exI) (rule demo_system_idle)
    ultimately show ?thesis using files0 by (auto simp: take_ready_def)
  qed
  have files1: "files_ready ?K demo_fds s1"
    using demo files0 by (simp add: demo_taken_def snapshot_made_def files_ready_def demo_thread_def)
  obtain s2 where run: "run_events ?K fresh_events s1 = Some s2" and inv2: "sys_inv ?K G s2" and same: "same_tasks s1 s2"
    using sys_inv_run_events [OF inv1 ref_files_kernel_laws(1,3), of fresh_events] by auto
  have env: "same_env s1 s2" using run by (rule run_events_frame)
  obtain data2 where tr2: "tracked s2 0 100 data2" and sb: "same_but_pages data data2"
    using same_tasks_tracked [OF same d(7)] by blast
  have c: "current s2 = 7" and r2: "registry_map s2 7 = Some 100" using same env d by (simp_all add: same_tasks_def same_env_def)
  have td2: "td_heap s2 100 = Some data2" "have_snapshot data2" using tr2 by (simp_all add: tracked_def)
  have "config data2 = 12" using sb d(6) by (simp add: same_but_pages_def)
  then have ph: "phase_of s2 7 = Active False"
    by (simp add: phase_of_Some [OF r2 td2(1)] phase_of_data_def td2 config_has_def config_defs)
  obtain fds p where "files_saved 100 fds p s1" using d(8) by blast
  then have fl: "files_saved 100 fds p s2" using d(3) td2(1) sb
    by (rule files_saved_cong) (simp add: same_env_files [OF env])
  then have "clean_ready s2" using files_saved_live r2 c td2(1) by (auto simp: clean_ready_def)
  with idle take1 run inv2 c r2 td2 ph same_env_table [OF env files1] show ?thesis using fl by (intro that) blast+
qed

lemma demo_session_ready: "all_ready (act ref_files_kernel) (action_ready ref_files_kernel) demo_session demo_system"
proof -
  let ?K = ref_files_kernel
  obtain s1 s2 G data fs where idle: "take_ready ?K 12 demo_system" and take1: "take_snapshot ?K 12 demo_system = Some (1, s1)"
    and run: "run_events ?K fresh_events s1 = Some s2" and inv2: "sys_inv ?K G s2" and c: "current s2 = 7"
    and r2: "registry_map s2 7 = Some 100" and td2: "td_heap s2 100 = Some data" "have_snapshot data"
    and ph: "phase_of s2 7 = Active False" and files: "files_ready ?K fs s2" and clean2: "clean_ready s2"
    by (rule demo_running) blast
  have ready2: "take_ready ?K 12 s2" using ph files by (auto simp: take_ready_def c)
  have take2: "take_snapshot ?K 12 s2 = Some (0, s2)" by (rule take_again [OF sys_invD(1) [OF inv2] _ td2]) (simp add: c r2)
  obtain s3 where clean: "clean_snapshot ?K s2 = Some s3" and inv3: "sys_inv ?K G s3" and mv: "moves s2 s3 Absent"
    by (rule clean_moves [OF inv2 clean2])
  have r3: "registry_map s3 (current s3) = None"
    using moves_current [OF mv] by (auto simp: phase_of_def phase_of_data_def split: option.splits if_splits)
  show ?thesis
    by (simp add: demo_session_def idle take1 run ready2 take2 clean2 clean absent_ready [OF r3] r3
        absent_answers [OF sys_invD(1) [OF inv3] r3])
qed

lemma demo_module_inv: "module_inv ref_files_kernel demo_system"
proof -
  have "registry_map demo_system t = (if t = 7 then Some 100 else None)" for t
    by (simp add: registry_map_def owner_of_def)
  then show ?thesis
    using demo_system_inv by (auto simp: module_inv_def kernel_ok_def ref_files_kernel_laws statuses_ok_def)
qed

theorem sessions_refine_phases_witness:
  "\<exists>s'. answers (act ref_files_kernel) demo_session demo_system = Some ([1, 0, 0, 0, 1, 1, 0], s') \<and>
     module_inv ref_files_kernel s' \<and> current s' = 8 \<and> phase_of s' 7 = Absent"
proof -
  have r: "registry_map demo_system t = (if t = 7 then Some 100 else None)" for t
    by (simp add: registry_map_def owner_of_def)
  have "phase_of demo_system 7 = Idle" by (simp add: phase_of_def r)
  then have spec: "spec_answers action_spec demo_session (phases_view demo_system) =
      ([1, 0, 0, 0, 1, 1, 0], 8, (phase_of demo_system)(7 := Absent))"
    by (simp add: demo_session_def phases_view_def config_has_def config_defs)
  from sessions_refine_phases [OF demo_module_inv demo_session_ready] obtain rs s' where
    "answers (act ref_files_kernel) demo_session demo_system = Some (rs, s')" "module_inv ref_files_kernel s'"
    "spec_answers action_spec demo_session (phases_view demo_system) = (rs, phases_view s')" by blast
  moreover from this(3) have "rs = [1, 0, 0, 0, 1, 1, 0]" "phases_view s' = (8, (phase_of demo_system)(7 := Absent))"
    unfolding spec by simp_all
  ultimately show ?thesis by (auto simp: phases_view_def)
qed

end
