(* ===== verification/Device.thy ===== *)
theory Device
  imports Sessions
begin

text \<open>
  The device \<open>/dev/afl_snapshot\<close> and its users: the ioctl numbers of \<open>include/afl_snapshot.h\<close>, the
  dispatcher \<open>mod_dev_ioctl\<close> and the hook on \<open>exit_group\<close> of \<open>src/module.c\<close>, and the client
  library \<open>lib/libaflsnapshot.c\<close>.
\<close>

section \<open>The ioctl numbers\<close>

text \<open>
  The macros \<open>_IO\<close> and \<open>_IOW\<close> of the kernel's headers put four fields into a number: direction,
  type, command and size. Their composition is the parameter \<open>ioc\<close>; all the module needs is that
  the command field can be read back.
\<close>

type_synonym ioc_coding = "u32 \<Rightarrow> u32 \<Rightarrow> u32 \<Rightarrow> u32 \<Rightarrow> u32"

definition ioc_law :: "ioc_coding \<Rightarrow> bool" where
  "ioc_law ioc \<longleftrightarrow> (\<forall>dir ty nr sz. nr < 256 \<longrightarrow> ioc dir ty nr sz AND 255 = nr)"

definition IO :: "ioc_coding \<Rightarrow> u32 \<Rightarrow> u32 \<Rightarrow> u32" where "IO ioc ty nr = ioc 0 ty nr 0"
definition IOW :: "ioc_coding \<Rightarrow> u32 \<Rightarrow> u32 \<Rightarrow> u32 \<Rightarrow> u32" where "IOW ioc ty nr sz = ioc 1 ty nr sz"

definition AFL_SNAPSHOT_IOCTL_MAGIC :: u32 where "AFL_SNAPSHOT_IOCTL_MAGIC = 44313"

definition AFL_SNAPSHOT_IOCTL_DO :: "ioc_coding \<Rightarrow> u32" where
  "AFL_SNAPSHOT_IOCTL_DO ioc = IO ioc AFL_SNAPSHOT_IOCTL_MAGIC 1"
definition AFL_SNAPSHOT_IOCTL_CLEAN :: "ioc_coding \<Rightarrow> u32" where
  "AFL_SNAPSHOT_IOCTL_CLEAN ioc = IO ioc AFL_SNAPSHOT_IOCTL_MAGIC 2"
definition AFL_SNAPSHOT_EXCLUDE_VMRANGE :: "ioc_coding \<Rightarrow> u32" where
  "AFL_SNAPSHOT_EXCLUDE_VMRANGE ioc = IOW ioc AFL_SNAPSHOT_IOCTL_MAGIC 3 8"
definition AFL_SNAPSHOT_INCLUDE_VMRANGE :: "ioc_coding \<Rightarrow> u32" where
  "AFL_SNAPSHOT_INCLUDE_VMRANGE ioc = IOW ioc AFL_SNAPSHOT_IOCTL_MAGIC 4 8"
definition AFL_SNAPSHOT_IOCTL_TAKE :: "ioc_coding \<Rightarrow> u32" where
  "AFL_SNAPSHOT_IOCTL_TAKE ioc = IOW ioc AFL_SNAPSHOT_IOCTL_MAGIC 5 4"
definition AFL_SNAPSHOT_IOCTL_RESTORE :: "ioc_coding \<Rightarrow> u32" where
  "AFL_SNAPSHOT_IOCTL_RESTORE ioc = IO ioc AFL_SNAPSHOT_IOCTL_MAGIC 6"

lemmas ioctl_defs =
  AFL_SNAPSHOT_IOCTL_DO_def AFL_SNAPSHOT_IOCTL_CLEAN_def AFL_SNAPSHOT_EXCLUDE_VMRANGE_def
  AFL_SNAPSHOT_INCLUDE_VMRANGE_def AFL_SNAPSHOT_IOCTL_TAKE_def AFL_SNAPSHOT_IOCTL_RESTORE_def

text \<open>The composition on x86: two bits, fourteen bits, eight bits, eight bits.\<close>

definition uapi_ioc :: ioc_coding where
  "uapi_ioc dir ty nr sz = push_bit 30 dir OR push_bit 16 sz OR push_bit 8 ty OR nr"

definition IOC_TYPE :: "u32 \<Rightarrow> u32" where "IOC_TYPE n = drop_bit 8 n AND 255"
definition IOC_SIZE :: "u32 \<Rightarrow> u32" where "IOC_SIZE n = drop_bit 16 n AND 16383"

section \<open>The dispatcher\<close>

text \<open>The argument is an \<open>unsigned long\<close>: the address of two bounds, or a configuration, of which
  \<open>take_snapshot\<close> gets the low 32 bits.\<close>

definition mod_dev_ioctl ::
  "'k files_kernel_scheme \<Rightarrow> ioc_coding \<Rightarrow> u32 \<Rightarrow> u64 \<Rightarrow> 's system_state_scheme \<Rightarrow> (int \<times> 's system_state_scheme) option" where
  "mod_dev_ioctl K ioc cmd arg s =
     (let m = task_mm (tasks s (current s)) in
      if cmd = AFL_SNAPSHOT_EXCLUDE_VMRANGE ioc
      then (case copy_from_user K m arg (mem s) of
              None \<Rightarrow> Some (- EINVAL, s)
            | Some args \<Rightarrow>
                do { s1 \<leftarrow> exclude_vmrange K (args_start args) (args_end args) s; Some (0, s1) })
      else if cmd = AFL_SNAPSHOT_INCLUDE_VMRANGE ioc
      then (case copy_from_user K m arg (mem s) of
              None \<Rightarrow> Some (- EINVAL, s)
            | Some args \<Rightarrow>
                do { s1 \<leftarrow> include_vmrange K (args_start args) (args_end args) s; Some (0, s1) })
      else if cmd = AFL_SNAPSHOT_IOCTL_TAKE ioc then take_snapshot K (ucast arg) s
      else if cmd = AFL_SNAPSHOT_IOCTL_DO ioc
      then take_snapshot K (AFL_SNAPSHOT_MMAP OR AFL_SNAPSHOT_FDS OR AFL_SNAPSHOT_REGS OR AFL_SNAPSHOT_EXIT) s
      else if cmd = AFL_SNAPSHOT_IOCTL_RESTORE ioc then recover_snapshot K s
      else if cmd = AFL_SNAPSHOT_IOCTL_CLEAN ioc then do { s1 \<leftarrow> clean_snapshot K s; Some (0, s1) }
      else Some (- EINVAL, s))"

text \<open>The device file \<open>/dev/afl_snapshot\<close>: its name, its permissions and its only operation.\<close>

record 'i file_operations =
  unlocked_ioctl :: 'i

record 'i miscdevice =
  md_minor :: nat
  md_name :: string
  md_fops :: "'i file_operations"
  md_mode :: u32

definition DEVICE_NAME :: string where "DEVICE_NAME = ''afl_snapshot''"

definition MISC_DYNAMIC_MINOR :: nat where "MISC_DYNAMIC_MINOR = 255"

definition dev_fops ::
  "'k files_kernel_scheme \<Rightarrow> ioc_coding \<Rightarrow>
   (u32 \<Rightarrow> u64 \<Rightarrow> 's system_state_scheme \<Rightarrow> (int \<times> 's system_state_scheme) option) file_operations" where
  "dev_fops K ioc = \<lparr>unlocked_ioctl = mod_dev_ioctl K ioc\<rparr>"

text \<open>The mode is 0644 in octal.\<close>

definition misc_dev ::
  "'k files_kernel_scheme \<Rightarrow> ioc_coding \<Rightarrow>
   (u32 \<Rightarrow> u64 \<Rightarrow> 's system_state_scheme \<Rightarrow> (int \<times> 's system_state_scheme) option) miscdevice" where
  "misc_dev K ioc =
     \<lparr>md_minor = MISC_DYNAMIC_MINOR, md_name = DEVICE_NAME, md_fops = dev_fops K ioc, md_mode = 6 * 64 + 4 * 8 + 4\<rparr>"

section \<open>The hook on exit_group\<close>

text \<open>The handler that was replaced is the parameter \<open>orig\<close>.\<close>

definition sys_exit_group_hook ::
  "'k files_kernel_scheme \<Rightarrow> (pt_regs \<Rightarrow> 's system_state_scheme \<Rightarrow> (int \<times> 's system_state_scheme) option)
   \<Rightarrow> pt_regs \<Rightarrow> 's system_state_scheme \<Rightarrow> (int \<times> 's system_state_scheme) option" where
  "sys_exit_group_hook K orig regs s =
     do { (r, s1) \<leftarrow> exit_snapshot K s;
          if r \<noteq> 0 then orig regs s1 else Some (0, s1) }"

text \<open>The variant for kernels whose handlers take the arguments of the call instead of the registers.\<close>

definition sys_exit_group_hook_args ::
  "'k files_kernel_scheme \<Rightarrow> (int \<Rightarrow> 's system_state_scheme \<Rightarrow> (int \<times> 's system_state_scheme) option)
   \<Rightarrow> int \<Rightarrow> 's system_state_scheme \<Rightarrow> (int \<times> 's system_state_scheme) option" where
  "sys_exit_group_hook_args K orig error_code s =
     do { (r, s1) \<leftarrow> exit_snapshot K s;
          if r \<noteq> 0 then orig error_code s1 else Some (0, s1) }"

section \<open>The client library\<close>

text \<open>
  Its state is the static variable \<open>dev_fd\<close>, on top of the system. The system calls \<open>open\<close> and
  \<open>ioctl\<close> as libc offers them: \<open>open\<close> is a parameter, and \<open>ioctl\<close> on a descriptor of
  the device runs the operation of its file and turns its error codes into -1.
\<close>

record client_state = system_state +
  dev_fd :: int

definition libc_ioctl ::
  "'k files_kernel_scheme \<Rightarrow> ioc_coding \<Rightarrow> (int \<Rightarrow> bool) \<Rightarrow> int \<Rightarrow> u32 \<Rightarrow> u64 \<Rightarrow> 's client_state_scheme
   \<Rightarrow> (int \<times> 's client_state_scheme) option" where
  "libc_ioctl K ioc is_dev fd cmd arg s =
     (if is_dev fd
      then do { (r, s1) \<leftarrow> unlocked_ioctl (md_fops (misc_dev K ioc)) cmd arg s; Some (if r < 0 then - 1 else r, s1) }
      else Some (- 1, s))"

definition AFL_SNAPSHOT_FILE_NAME :: string where "AFL_SNAPSHOT_FILE_NAME = ''/dev/afl_snapshot''"

definition afl_snapshot_init ::
  "(string \<Rightarrow> u32 \<Rightarrow> int) \<Rightarrow> 's client_state_scheme \<Rightarrow> int \<times> 's client_state_scheme" where
  "afl_snapshot_init libc_open s =
     (let fd = libc_open AFL_SNAPSHOT_FILE_NAME 0 in (fd, s\<lparr>dev_fd := fd\<rparr>))"

text \<open>\<open>put_args\<close> stands for the initialisation of the local structure: it stores the two bounds in
  the process's memory and gives the address.\<close>

definition afl_snapshot_exclude_vmrange ::
  "'k files_kernel_scheme \<Rightarrow> ioc_coding \<Rightarrow> (int \<Rightarrow> bool)
   \<Rightarrow> (afl_snapshot_vmrange_args \<Rightarrow> 's client_state_scheme \<Rightarrow> u64 \<times> 's client_state_scheme) \<Rightarrow> u64 \<Rightarrow> u64
   \<Rightarrow> 's client_state_scheme \<Rightarrow> 's client_state_scheme option" where
  "afl_snapshot_exclude_vmrange K ioc is_dev put_args st en s =
     (let (args, s1) = put_args \<lparr>args_start = st, args_end = en\<rparr> s
      in map_option snd (libc_ioctl K ioc is_dev (dev_fd s1) (AFL_SNAPSHOT_EXCLUDE_VMRANGE ioc) args s1))"

definition afl_snapshot_include_vmrange ::
  "'k files_kernel_scheme \<Rightarrow> ioc_coding \<Rightarrow> (int \<Rightarrow> bool)
   \<Rightarrow> (afl_snapshot_vmrange_args \<Rightarrow> 's client_state_scheme \<Rightarrow> u64 \<times> 's client_state_scheme) \<Rightarrow> u64 \<Rightarrow> u64
   \<Rightarrow> 's client_state_scheme \<Rightarrow> 's client_state_scheme option" where
  "afl_snapshot_include_vmrange K ioc is_dev put_args st en s =
     (let (args, s1) = put_args \<lparr>args_start = st, args_end = en\<rparr> s
      in map_option snd (libc_ioctl K ioc is_dev (dev_fd s1) (AFL_SNAPSHOT_INCLUDE_VMRANGE ioc) args s1))"

definition afl_snapshot_take ::
  "'k files_kernel_scheme \<Rightarrow> ioc_coding \<Rightarrow> (int \<Rightarrow> bool) \<Rightarrow> u32 \<Rightarrow> 's client_state_scheme
   \<Rightarrow> (int \<times> 's client_state_scheme) option" where
  "afl_snapshot_take K ioc is_dev cfg s =
     libc_ioctl K ioc is_dev (dev_fd s) (AFL_SNAPSHOT_IOCTL_TAKE ioc) (scast cfg) s"

definition afl_snapshot_do ::
  "'k files_kernel_scheme \<Rightarrow> ioc_coding \<Rightarrow> (int \<Rightarrow> bool) \<Rightarrow> 's client_state_scheme \<Rightarrow> (int \<times> 's client_state_scheme) option" where
  "afl_snapshot_do K ioc is_dev s = libc_ioctl K ioc is_dev (dev_fd s) (AFL_SNAPSHOT_IOCTL_DO ioc) 0 s"

definition afl_snapshot_restore ::
  "'k files_kernel_scheme \<Rightarrow> ioc_coding \<Rightarrow> (int \<Rightarrow> bool) \<Rightarrow> 's client_state_scheme \<Rightarrow> 's client_state_scheme option" where
  "afl_snapshot_restore K ioc is_dev s =
     map_option snd (libc_ioctl K ioc is_dev (dev_fd s) (AFL_SNAPSHOT_IOCTL_RESTORE ioc) 0 s)"

definition afl_snapshot_clean ::
  "'k files_kernel_scheme \<Rightarrow> ioc_coding \<Rightarrow> (int \<Rightarrow> bool) \<Rightarrow> 's client_state_scheme \<Rightarrow> 's client_state_scheme option" where
  "afl_snapshot_clean K ioc is_dev s =
     map_option snd (libc_ioctl K ioc is_dev (dev_fd s) (AFL_SNAPSHOT_IOCTL_CLEAN ioc) 0 s)"

section \<open>Numbers\<close>

lemma ioctl_distinct:
  assumes "ioc_law ioc"
  shows "distinct [AFL_SNAPSHOT_IOCTL_DO ioc, AFL_SNAPSHOT_IOCTL_CLEAN ioc, AFL_SNAPSHOT_EXCLUDE_VMRANGE ioc,
     AFL_SNAPSHOT_INCLUDE_VMRANGE ioc, AFL_SNAPSHOT_IOCTL_TAKE ioc, AFL_SNAPSHOT_IOCTL_RESTORE ioc]"
proof -
  let ?cs = "[AFL_SNAPSHOT_IOCTL_DO ioc, AFL_SNAPSHOT_IOCTL_CLEAN ioc, AFL_SNAPSHOT_EXCLUDE_VMRANGE ioc,
     AFL_SNAPSHOT_INCLUDE_VMRANGE ioc, AFL_SNAPSHOT_IOCTL_TAKE ioc, AFL_SNAPSHOT_IOCTL_RESTORE ioc]"
  have nr: "ioc dir ty nr sz AND 255 = nr" if "nr < 256" for dir ty nr sz
    using assms that by (simp add: ioc_law_def)
  have "map (\<lambda>c. c AND 255) ?cs = [1, 2, 3, 4, 5, 6]" by (simp add: ioctl_defs IO_def IOW_def nr)
  then have "distinct (map (\<lambda>c. c AND 255) ?cs)" by simp
  then show ?thesis by (simp only: distinct_map)
qed

lemma uapi_ioc_law: "ioc_law uapi_ioc"
proof -
  have "uapi_ioc dir ty nr sz AND 255 = nr" if "nr < 256" for dir ty nr sz
  proof (rule bit_eqI)
    fix i assume "possible_bit TYPE(32 word) i"
    have "bit (mask 8 :: u32) i \<longleftrightarrow> i < 8" by (auto simp: bit_mask_iff)
    then have m: "bit (255 :: u32) i \<longleftrightarrow> i < 8" by (simp add: mask_eq_exp_minus_1)
    have "unat nr < 2 ^ 8" using that by (simp add: word_less_nat_alt)
    then have "unat (take_bit 8 nr) = unat nr" by (simp only: unsigned_take_bit_eq take_bit_nat_eq_self)
    then have "take_bit 8 nr = nr" by (rule unsigned_word_eqI)
    then have nr: "bit nr i \<longleftrightarrow> i < 8 \<and> bit nr i" by (metis bit_take_bit_iff)
    show "bit (uapi_ioc dir ty nr sz AND 255) i = bit nr i"
      unfolding uapi_ioc_def bit_and_iff bit_or_iff bit_push_bit_iff m using nr by auto
  qed
  then show ?thesis by (simp add: ioc_law_def)
qed

text \<open>The magic number does not fit into the eight bits of the type: its high byte lands in the
  size field. The type of the commands reads as 25, not 44313, and their sizes as 173, not 8 and 4.\<close>

theorem magic_overflows:
  "IOC_TYPE (AFL_SNAPSHOT_EXCLUDE_VMRANGE uapi_ioc) = 25 \<and> IOC_SIZE (AFL_SNAPSHOT_EXCLUDE_VMRANGE uapi_ioc) = 173 \<and>
   IOC_SIZE (AFL_SNAPSHOT_IOCTL_TAKE uapi_ioc) = 173 \<and> IOC_SIZE (AFL_SNAPSHOT_IOCTL_CLEAN uapi_ioc) = 173"
  by (simp add: ioctl_defs IO_def IOW_def uapi_ioc_def IOC_TYPE_def IOC_SIZE_def AFL_SNAPSHOT_IOCTL_MAGIC_def)

section \<open>From the client to the module\<close>

lemma take_snapshot_answers: "take_snapshot K cfg s = Some (r, s') \<Longrightarrow> r = 0 \<or> r = 1"
  by (auto simp: take_snapshot_def split: Option.bind_splits if_splits)

lemma misc_dev_simps [simp]:
  "unlocked_ioctl (md_fops (misc_dev K ioc)) = mod_dev_ioctl K ioc" "md_mode (misc_dev K ioc) AND 4 \<noteq> 0"
  by (simp_all add: misc_dev_def dev_fops_def)

text \<open>The file that the client opens is the file of the device.\<close>

lemma client_opens_device: "''/dev/'' @ md_name (misc_dev K ioc) = AFL_SNAPSHOT_FILE_NAME"
  by (simp add: misc_dev_def DEVICE_NAME_def AFL_SNAPSHOT_FILE_NAME_def)

text \<open>Documented behaviour of the file system of devices: the file has the name of the device, and
  whoever may read it can open it for reading.\<close>

definition device_node_law :: "(string \<Rightarrow> u32 \<Rightarrow> int) \<Rightarrow> (int \<Rightarrow> bool) \<Rightarrow> 'i miscdevice \<Rightarrow> bool" where
  "device_node_law libc_open is_dev dev \<longleftrightarrow>
     (md_mode dev AND 4 \<noteq> 0 \<longrightarrow> is_dev (libc_open (''/dev/'' @ md_name dev) 0))"

lemma libc_ioctl_answers:
  assumes "is_dev fd" and "mod_dev_ioctl K ioc cmd arg s = res" and "\<And>r s'. res = Some (r, s') \<Longrightarrow> 0 \<le> r"
  shows "libc_ioctl K ioc is_dev fd cmd arg s = res"
proof (cases res)
  case None
  with assms show ?thesis by (simp add: libc_ioctl_def)
next
  case (Some a)
  obtain r s' where "a = (r, s')" by (cases a)
  with Some assms(1,2) assms(3) [of r s'] show ?thesis by (simp add: libc_ioctl_def)
qed

lemma ucast_scast_u32: "ucast (scast (x :: u32) :: u64) = x"
  by (rule bit_word_eqI) (auto simp: bit_simps)

lemma bind_pair: "Option.bind a (\<lambda>x. Some (r, x)) = map_option (Pair r) a"
  by (cases a) simp_all

text \<open>What each command does.\<close>

lemma ioctl_requests:
  assumes "ioc_law ioc"
  shows "mod_dev_ioctl K ioc (AFL_SNAPSHOT_IOCTL_TAKE ioc) arg s = serve K (Req_take (ucast arg)) s"
    and "mod_dev_ioctl K ioc (AFL_SNAPSHOT_IOCTL_DO ioc) arg s = serve K (Req_take 29) s"
    and "mod_dev_ioctl K ioc (AFL_SNAPSHOT_IOCTL_RESTORE ioc) arg s = serve K Req_restore s"
    and "mod_dev_ioctl K ioc (AFL_SNAPSHOT_IOCTL_CLEAN ioc) arg s = serve K Req_clean s"
    and "copy_from_user K (task_mm (tasks s (current s))) arg (mem s) = Some \<lparr>args_start = st, args_end = en\<rparr> \<Longrightarrow>
       mod_dev_ioctl K ioc (AFL_SNAPSHOT_EXCLUDE_VMRANGE ioc) arg s = serve K (Req_exclude st en) s"
    and "copy_from_user K (task_mm (tasks s (current s))) arg (mem s) = Some \<lparr>args_start = st, args_end = en\<rparr> \<Longrightarrow>
       mod_dev_ioctl K ioc (AFL_SNAPSHOT_INCLUDE_VMRANGE ioc) arg s = serve K (Req_include st en) s"
proof -
  note d = ioctl_distinct [OF assms, simplified]
  have flags: "AFL_SNAPSHOT_MMAP OR AFL_SNAPSHOT_FDS OR AFL_SNAPSHOT_REGS OR AFL_SNAPSHOT_EXIT = 29"
    by (simp add: config_defs)
  show "mod_dev_ioctl K ioc (AFL_SNAPSHOT_IOCTL_TAKE ioc) arg s = serve K (Req_take (ucast arg)) s"
    and "mod_dev_ioctl K ioc (AFL_SNAPSHOT_IOCTL_DO ioc) arg s = serve K (Req_take 29) s"
    and "mod_dev_ioctl K ioc (AFL_SNAPSHOT_IOCTL_RESTORE ioc) arg s = serve K Req_restore s"
    and "mod_dev_ioctl K ioc (AFL_SNAPSHOT_IOCTL_CLEAN ioc) arg s = serve K Req_clean s"
    and "copy_from_user K (task_mm (tasks s (current s))) arg (mem s) = Some \<lparr>args_start = st, args_end = en\<rparr> \<Longrightarrow>
       mod_dev_ioctl K ioc (AFL_SNAPSHOT_EXCLUDE_VMRANGE ioc) arg s = serve K (Req_exclude st en) s"
    and "copy_from_user K (task_mm (tasks s (current s))) arg (mem s) = Some \<lparr>args_start = st, args_end = en\<rparr> \<Longrightarrow>
       mod_dev_ioctl K ioc (AFL_SNAPSHOT_INCLUDE_VMRANGE ioc) arg s = serve K (Req_include st en) s"
    using d by (auto simp: mod_dev_ioctl_def Let_def flags bind_pair)
qed

text \<open>C23. After \<open>afl_snapshot_init\<close>, which any user may call, every function of the client library
  performs exactly the request it is named after, with the arguments it was given, and returns its
  answer.\<close>

theorem client_reaches_module:
  assumes "ioc_law ioc"
    and node: "device_node_law libc_open is_dev
          (misc_dev K ioc :: (u32 \<Rightarrow> u64 \<Rightarrow> 's client_state_scheme \<Rightarrow> (int \<times> 's client_state_scheme) option) miscdevice)"
    and init: "afl_snapshot_init libc_open s0 = (fd, s)"
    and args: "put_args \<lparr>args_start = st, args_end = en\<rparr> s = (args, s1)" "dev_fd s1 = dev_fd s"
      "copy_from_user K (task_mm (tasks s1 (current s1))) args (mem s1) = Some \<lparr>args_start = st, args_end = en\<rparr>"
  shows "afl_snapshot_take K ioc is_dev cfg (s :: 's client_state_scheme) = serve K (Req_take cfg) s \<and>
     afl_snapshot_do K ioc is_dev s =
       serve K (Req_take (AFL_SNAPSHOT_MMAP OR AFL_SNAPSHOT_FDS OR AFL_SNAPSHOT_REGS OR AFL_SNAPSHOT_EXIT)) s \<and>
     afl_snapshot_restore K ioc is_dev s = map_option snd (serve K Req_restore s) \<and>
     afl_snapshot_clean K ioc is_dev s = map_option snd (serve K Req_clean s) \<and>
     afl_snapshot_exclude_vmrange K ioc is_dev put_args st en s = map_option snd (serve K (Req_exclude st en) s1) \<and>
     afl_snapshot_include_vmrange K ioc is_dev put_args st en s = map_option snd (serve K (Req_include st en) s1)"
proof -
  have dev: "is_dev (dev_fd s)"
    using node init unfolding device_node_law_def client_opens_device
    by (auto simp: afl_snapshot_init_def Let_def)
  note req = ioctl_requests [OF assms(1)]
  have take: "libc_ioctl K ioc is_dev (dev_fd s) cmd arg s = serve K (Req_take c) s"
    if "mod_dev_ioctl K ioc cmd arg s = serve K (Req_take c) s" for cmd arg c
    using dev that by (rule libc_ioctl_answers) (auto dest!: take_snapshot_answers)
  have dev1: "is_dev (dev_fd s1)" using dev args(2) by simp
  have drop: "map_option snd (libc_ioctl K ioc is_dev (dev_fd u) cmd arg u) = map_option snd res"
    if "mod_dev_ioctl K ioc cmd arg u = res" "is_dev (dev_fd u)" for cmd arg res u
    using that by (cases res) (auto simp: libc_ioctl_def)
  have flags: "AFL_SNAPSHOT_MMAP OR AFL_SNAPSHOT_FDS OR AFL_SNAPSHOT_REGS OR AFL_SNAPSHOT_EXIT = 29"
    by (simp add: config_defs)
  have "afl_snapshot_take K ioc is_dev cfg s = serve K (Req_take cfg) s"
    unfolding afl_snapshot_take_def by (rule take) (simp add: req(1) ucast_scast_u32 del: serve.simps)
  moreover have "afl_snapshot_do K ioc is_dev s = serve K (Req_take 29) s"
    unfolding afl_snapshot_do_def by (rule take [OF req(2)])
  moreover have "afl_snapshot_restore K ioc is_dev s = map_option snd (serve K Req_restore s)"
    unfolding afl_snapshot_restore_def by (rule drop [OF req(3) dev])
  moreover have "afl_snapshot_clean K ioc is_dev s = map_option snd (serve K Req_clean s)"
    unfolding afl_snapshot_clean_def by (rule drop [OF req(4) dev])
  moreover have "afl_snapshot_exclude_vmrange K ioc is_dev put_args st en s = map_option snd (serve K (Req_exclude st en) s1)"
    using drop [OF req(5) [OF args(3)] dev1] by (simp add: afl_snapshot_exclude_vmrange_def args(1) del: serve.simps)
  moreover have "afl_snapshot_include_vmrange K ioc is_dev put_args st en s = map_option snd (serve K (Req_include st en) s1)"
    using drop [OF req(6) [OF args(3)] dev1] by (simp add: afl_snapshot_include_vmrange_def args(1) del: serve.simps)
  ultimately show ?thesis unfolding flags by blast
qed

text \<open>C39. A command that is none of the six, and a range that cannot be read from user memory, are
  answered with -EINVAL and change nothing.\<close>

theorem ioctl_rejects:
  assumes "ioc_law ioc"
    and "cmd \<notin> {AFL_SNAPSHOT_IOCTL_DO ioc, AFL_SNAPSHOT_IOCTL_CLEAN ioc, AFL_SNAPSHOT_EXCLUDE_VMRANGE ioc,
           AFL_SNAPSHOT_INCLUDE_VMRANGE ioc, AFL_SNAPSHOT_IOCTL_TAKE ioc, AFL_SNAPSHOT_IOCTL_RESTORE ioc} \<or>
         cmd \<in> {AFL_SNAPSHOT_EXCLUDE_VMRANGE ioc, AFL_SNAPSHOT_INCLUDE_VMRANGE ioc} \<and>
         copy_from_user K (task_mm (tasks s (current s))) arg (mem s) = None"
  shows "mod_dev_ioctl K ioc cmd arg s = Some (- EINVAL, s)"
  using assms(2)
proof
  assume "cmd \<notin> {AFL_SNAPSHOT_IOCTL_DO ioc, AFL_SNAPSHOT_IOCTL_CLEAN ioc, AFL_SNAPSHOT_EXCLUDE_VMRANGE ioc,
           AFL_SNAPSHOT_INCLUDE_VMRANGE ioc, AFL_SNAPSHOT_IOCTL_TAKE ioc, AFL_SNAPSHOT_IOCTL_RESTORE ioc}"
  then show ?thesis by (simp add: mod_dev_ioctl_def)
next
  assume bad: "cmd \<in> {AFL_SNAPSHOT_EXCLUDE_VMRANGE ioc, AFL_SNAPSHOT_INCLUDE_VMRANGE ioc} \<and>
         copy_from_user K (task_mm (tasks s (current s))) arg (mem s) = None"
  then show ?thesis by (cases "cmd = AFL_SNAPSHOT_EXCLUDE_VMRANGE ioc") (simp_all add: mod_dev_ioctl_def)
qed

section \<open>Exiting\<close>

text \<open>What it means that the snapshot with the data \<open>d\<close> has been put back: whatever it promises about
  pages, areas, registers and files is so in \<open>s'\<close>, and the other threads have been killed.\<close>

definition put_back ::
  "'k files_kernel_scheme \<Rightarrow> nat \<Rightarrow> 's system_state_scheme \<Rightarrow> 's system_state_scheme \<Rightarrow> bool" where
  "put_back K d s s' \<longleftrightarrow>
     (\<forall>G m data ts. sys_inv K G s \<and> tracked s m d data \<and> ready_to_restore K G m data ts s \<longrightarrow>
        (\<forall>b q. promised K m (fst (G m)) (snd (G m)) b = Some q \<longrightarrow> user_view K m (mem s') b = q) \<and>
        areas_restored data (mm_mmap (mms (mem s) m)) (mm_mmap (mms (mem s') m)) \<and>
        (config_has (config data) AFL_SNAPSHOT_REGS \<longrightarrow> task_regs (tasks s' (current s)) = ss_regs (ss data)) \<and>
        sent_signals s' = sent_signals s @
          map (Pair SIGKILL) (filter (\<lambda>t. t \<noteq> current s) (visited (tasks s) ts)) \<and>
        (\<forall>fds p ofs. config_has (config data) AFL_SNAPSHOT_FDS \<and> ready_to_seek K d fds p ofs s \<longrightarrow>
           files_back fds p (signal_threads s (current s)) s s'))"

lemma restore_ready_puts_back:
  assumes k: "kernel_ok K" and ready: "restore_ready K s" and d: "registry_map s (current s) = Some d"
    and run: "restore_snapshot K d s = Some s'"
  shows "put_back K d s s'"
  unfolding put_back_def
proof (intro allI impI)
  fix G m data ts
  assume "sys_inv K G s \<and> tracked s m d data \<and> ready_to_restore K G m data ts s"
  then have inv: "sys_inv K G s" and tr: "tracked s m d data" and rd: "ready_to_restore K G m data ts s" by simp_all
  have laws: "no_oom K" "memory_laws K" "restore_laws K" "munmap_areas_law K" using k by (simp_all add: kernel_ok_def)
  have restored: "(\<forall>b q. promised K m (fst (G m)) (snd (G m)) b = Some q \<longrightarrow> user_view K m (mem s') b = q) \<and>
        areas_restored data (mm_mmap (mms (mem s) m)) (mm_mmap (mms (mem s') m)) \<and>
        (config_has (config data) AFL_SNAPSHOT_REGS \<longrightarrow> task_regs (tasks s' (current s)) = ss_regs (ss data)) \<and>
        sent_signals s' = sent_signals s @
          map (Pair SIGKILL) (filter (\<lambda>t. t \<noteq> current s) (visited (tasks s) ts)) \<and>
        (config_has (config data) AFL_SNAPSHOT_FDS \<longrightarrow> files_back fds p (signal_threads s (current s)) s s')"
    if "config_has (config data) AFL_SNAPSHOT_FDS \<longrightarrow> ready_to_seek K d fds p ofs s" for fds p ofs
    by (rule restore_snapshot_ok [OF inv tr laws rd that [rule_format]]) (use run in auto)
  obtain data' m' fds p ofs where "tracked s m' d data'"
    and seek: "config_has (config data') AFL_SNAPSHOT_FDS \<longrightarrow> ready_to_seek K d fds p ofs s"
    using ready d unfolding restore_ready_def by blast
  then have "data' = data" using tr by (simp add: tracked_def)
  from restored [OF seek [unfolded this]] restored
  show "(\<forall>b q. promised K m (fst (G m)) (snd (G m)) b = Some q \<longrightarrow> user_view K m (mem s') b = q) \<and>
        areas_restored data (mm_mmap (mms (mem s) m)) (mm_mmap (mms (mem s') m)) \<and>
        (config_has (config data) AFL_SNAPSHOT_REGS \<longrightarrow> task_regs (tasks s' (current s)) = ss_regs (ss data)) \<and>
        sent_signals s' = sent_signals s @
          map (Pair SIGKILL) (filter (\<lambda>t. t \<noteq> current s) (visited (tasks s) ts)) \<and>
        (\<forall>fds p ofs. config_has (config data) AFL_SNAPSHOT_FDS \<and> ready_to_seek K d fds p ofs s \<longrightarrow>
           files_back fds p (signal_threads s (current s)) s s')"
    by blast
qed

text \<open>What \<open>exit_snapshot\<close> calls in each phase.\<close>

lemma exit_snapshot_calls:
  assumes ok: "registry_ok s" and st: "statuses_ok s" and run: "exit_snapshot K s = Some (r, s')"
  shows "case phase_of s (current s) of
      Active True \<Rightarrow> (\<exists>d. registry_map s (current s) = Some d \<and> restore_snapshot K d s = Some s')
    | Active False \<Rightarrow> clean_snapshot K s = Some s'
    | _ \<Rightarrow> s' = s"
proof (cases "registry_map s (current s)")
  case None
  then show ?thesis using run by (simp add: exit_snapshot_def get_task_data_map [OF ok])
next
  case (Some d)
  obtain data where td: "td_heap s d = Some data" by (rule registry_map_SomeD [OF ok Some])
  have "had_snapshot (the (td_heap s d)) = have_snapshot (the (td_heap s d))"
    using st Some unfolding statuses_ok_def by blast
  then have had: "had_snapshot data = have_snapshot data" by (simp add: td)
  have "phase_of s (current s) = phase_of_data data" using Some td by (rule phase_of_Some)
  then show ?thesis
    using run by (auto simp: exit_snapshot_def get_task_data_map [OF ok] Some td had phase_of_data_def
        split: if_splits Option.bind_splits)
qed

text \<open>C11. The hook on \<open>exit_group\<close>, in both variants. A process whose snapshot has the option EXIT
  does not exit: the handler answers 0, the state is the one \<open>recover_snapshot\<close> leaves, the
  snapshot's pages, areas, registers and files are back, and the snapshot stays. Any other process
  goes on to the original handler; if it had a snapshot this has been dropped first by
  \<open>clean_snapshot\<close>, otherwise nothing has changed.\<close>

theorem exit_group_hook_intercepts:
  assumes inv: "sys_inv K G s" and k: "kernel_ok K" and st: "statuses_ok s"
    and ready: "request_ready K Req_exit_group s"
  shows "\<exists>s' G'. sys_inv K G' s' \<and> current s' = current s \<and>
     (case phase_of s (current s) of
        Active True \<Rightarrow> sys_exit_group_hook K orig regs s = Some (0, s') \<and>
          sys_exit_group_hook_args K orig_args code s = Some (0, s') \<and> phase_of s' = phase_of s \<and>
          recover_snapshot K s = Some (0, s') \<and>
          (\<exists>d. registry_map s (current s) = Some d \<and> put_back K d s s')
      | q \<Rightarrow> sys_exit_group_hook K orig regs s = orig regs s' \<and>
          sys_exit_group_hook_args K orig_args code s = orig_args code s' \<and>
          phase_of s' = (if q = Active False then (phase_of s)(current s := Absent) else phase_of s) \<and>
          (if q = Active False then clean_snapshot K s = Some s' else s' = s))"
proof -
  obtain s' G' where run: "exit_snapshot K s = Some (fst (phase_step Req_exit_group (phase_of s (current s))), s')"
    and inv': "sys_inv K G' s'" and mv: "moves s s' (snd (phase_step Req_exit_group (phase_of s (current s))))"
    using serve_exit [OF assms] by (auto simp: served_def)
  note ok = sys_invD(1) [OF inv]
  have c: "current s' = current s"
    and ph: "phase_of s' = (phase_of s)(current s := snd (phase_step Req_exit_group (phase_of s (current s))))"
    using mv by (simp_all add: moves_def)
  note calls = exit_snapshot_calls [OF ok st run]
  have again: "recover_snapshot K s = Some (0, s')" "put_back K d s s'"
    if "phase_of s (current s) = Active True" "registry_map s (current s) = Some d" "restore_snapshot K d s = Some s'" for d
  proof -
    show "recover_snapshot K s = Some (0, s')"
      using that by (simp add: recover_snapshot_def get_task_data_map [OF ok])
    show "put_back K d s s'"
      by (rule restore_ready_puts_back [OF k _ that(2,3)]) (use ready that(1) in simp)
  qed
  show ?thesis
    by (intro exI [of _ s'] exI [of _ G'] conjI inv' c)
      (use run ph calls again in \<open>auto simp: sys_exit_group_hook_def sys_exit_group_hook_args_def fun_upd_idem
         split: phase.split bool.split\<close>)
qed

section \<open>Concrete calls\<close>

definition demo_open :: "string \<Rightarrow> u32 \<Rightarrow> int" where
  "demo_open path flags = (if path = ''/dev/afl_snapshot'' then 5 else - 1)"

definition demo_client :: client_state where
  "demo_client = snd (afl_snapshot_init demo_open (system_state.extend demo_system (client_state.fields 0)))"

definition demo_args :: "afl_snapshot_vmrange_args \<Rightarrow> client_state \<Rightarrow> u64 \<times> client_state" where
  "demo_args args s = (args_start args, s)"

theorem client_reaches_module_witness:
  "afl_snapshot_take ref_files_kernel uapi_ioc (\<lambda>fd. fd = 5) 12 demo_client = take_snapshot ref_files_kernel 12 demo_client \<and>
   afl_snapshot_exclude_vmrange ref_files_kernel uapi_ioc (\<lambda>fd. fd = 5) demo_args 0x1000 0x2000 demo_client =
     exclude_vmrange ref_files_kernel 0x1000 0x2000 demo_client"
proof -
  let ?dev = "misc_dev ref_files_kernel uapi_ioc :: (u32 \<Rightarrow> u64 \<Rightarrow> client_state \<Rightarrow> (int \<times> client_state) option) miscdevice"
  have node: "device_node_law demo_open (\<lambda>fd. fd = 5) ?dev"
    by (simp add: device_node_law_def misc_dev_def DEVICE_NAME_def demo_open_def)
  have init: "afl_snapshot_init demo_open (system_state.extend demo_system (client_state.fields 0)) = (5, demo_client)"
    by (simp add: demo_client_def afl_snapshot_init_def Let_def demo_open_def AFL_SNAPSHOT_FILE_NAME_def)
  have copy: "copy_from_user ref_files_kernel (task_mm (tasks demo_client (current demo_client))) 0x1000 (mem demo_client) =
      Some \<lparr>args_start = 0x1000, args_end = 0x2000\<rparr>"
    by (simp add: ref_files_kernel_def ref_kernel_def kernel.defs)
  have args: "demo_args \<lparr>args_start = 0x1000, args_end = 0x2000\<rparr> demo_client = (0x1000, demo_client)" by (simp add: demo_args_def)
  have "map_option snd (map_option (Pair (0 :: int)) r) = r" for r :: "client_state option" by (cases r) simp_all
  with client_reaches_module [where put_args = demo_args and cfg = 12, OF uapi_ioc_law node init args refl copy]
  show ?thesis by simp
qed

theorem ioctl_rejects_witness:
  "mod_dev_ioctl ref_files_kernel uapi_ioc 7 0 demo_system = Some (- EINVAL, demo_system) \<and>
   mod_dev_ioctl ref_files_kernel uapi_ioc (AFL_SNAPSHOT_EXCLUDE_VMRANGE uapi_ioc) 0 demo_system = Some (- EINVAL, demo_system)"
proof
  show "mod_dev_ioctl ref_files_kernel uapi_ioc 7 0 demo_system = Some (- EINVAL, demo_system)"
    by (rule ioctl_rejects [OF uapi_ioc_law])
      (simp add: ioctl_defs IO_def IOW_def uapi_ioc_def AFL_SNAPSHOT_IOCTL_MAGIC_def)
  show "mod_dev_ioctl ref_files_kernel uapi_ioc (AFL_SNAPSHOT_EXCLUDE_VMRANGE uapi_ioc) 0 demo_system = Some (- EINVAL, demo_system)"
    by (rule ioctl_rejects [OF uapi_ioc_law]) (simp add: ref_files_kernel_def ref_kernel_def kernel.defs)
qed

text \<open>The process of theory \<open>Rounds\<close>, with the options FDS, REGS and EXIT, exits in the middle of a
  round; the one of theory \<open>Sessions\<close> has no option EXIT.\<close>

lemma demo_exit_ready:
  assumes "cfg = 28"
  obtains s1 s G data ts where "take_snapshot ref_files_kernel cfg demo_system = Some (1, s1)"
    and "process_runs ref_files_kernel fresh_events \<lparr>ip = 99, gprs = []\<rparr> (demo_files 90) (files_structs s1) s1 = Some s"
    and "sys_inv ref_files_kernel G s" and "statuses_ok s" and "current s = 7" and "registry_map s 7 = Some 100"
    and "phase_of s 7 = Active True" and "tracked s 0 100 data" and "ready_to_restore ref_files_kernel G 0 data ts s"
    and "restore_ready ref_files_kernel s"
    and "promised ref_files_kernel 0 (fst (G 0)) (snd (G 0)) 0x1000 = Some demo_page"
proof -
  let ?K = ref_files_kernel and ?p = "\<lambda>f. position (file_objects demo_system f)"
  have cfg: "config_has cfg AFL_SNAPSHOT_FDS" "config_has cfg AFL_SNAPSHOT_EXIT" "\<not> config_has cfg AFL_SNAPSHOT_MMAP"
    "\<not> config_has cfg AFL_SNAPSHOT_BLOCK" "\<not> config_has cfg AFL_SNAPSHOT_NOSTACK"
    by (simp_all add: assms config_has_def config_defs)
  have ready: "files_ready ?K demo_fds demo_system"
    by (simp add: files_ready_def ref_files_laws demo_thread_def)
  obtain s1 data0 orig U where take: "take_snapshot ?K cfg demo_system = Some (1, s1)"
    and made: "snapshot_made ?K cfg 0 100 demo_fds demo_system s1 data0"
    and inv: "sys_inv ?K ((\<lambda>_. (Map.empty, {}))(0 := (orig, U))) s1"
    and prom: "\<And>b. covered 0 cfg [] [] (mem demo_system) b \<Longrightarrow> promised ?K 0 orig U b = Some (user_view ?K 0 (mem demo_system) b)"
    and orig: "\<And>b. orig b \<noteq> None \<Longrightarrow> pte_present (pte_of (mem demo_system) 0 b) \<and> covered 0 cfg [] [] (mem demo_system) b"
    by (rule take_snapshot_idle [OF demo_system_idle ref_files_kernel_laws(1,2) ready]) blast
  define G :: ghost where "G = (\<lambda>_. (Map.empty, {}))(0 := (orig, U))"
  have tr: "tracked s1 0 100 data0" and areas: "same_areas fresh_mem (mem s1)"
    and s1: "tasks s1 = demo_thread" "current s1 = 7" "files_state.more s1 = files_state.more demo_system" "200 \<le> alloc_next s1"
      "files_structs s1 0 = Some demo_fds"
    and d0: "tsk data0 = 7" "config data0 = cfg" "had_snapshot data0" "task_data_list s1 = [100]"
      "oldbrk (ss data0) = mm_brk (mms fresh_mem 0)"
      "map sv_view (all_vmas (ss data0)) = map area_view (mm_mmap (mms fresh_mem 0))"
    using made by (simp_all add: snapshot_made_def)
  have inv1: "sys_inv ?K G s1" using inv by (simp add: G_def)
  obtain s where run: "process_runs ?K fresh_events \<lparr>ip = 99, gprs = []\<rparr> (demo_files 90) (files_structs s1) s1 = Some s"
    and keep: "keeps_areas ?K 0 cfg [] [] demo_system s" and keepf: "keeps_files ?K cfg demo_fds demo_system s"
    by (rule demo_round [OF inv1 tr areas s1 cfg(3)])
  have armed1: "armed ?K G 0 100 data0 (open_fds demo_fds) ?p demo_system s1"
    by (rule snapshot_made_armed [OF made inv1]) (simp add: demo_thread_def)
  have armed: "armed ?K G 0 100 data0 (open_fds demo_fds) ?p demo_system s"
    by (rule armed_runs [OF armed1 ref_files_kernel_laws(1,3) run]) simp
  have old: "areas_ok (mm_mmap (mms fresh_mem 0))"
    using demo_system_idle [of G] by (simp add: idle_process_def)
  have brk: "oldbrk (ss data0) \<le> mm_brk (mms (mem s) 0) \<or>
      PAGE_ALIGN (mm_brk (mms (mem s) 0)) = PAGE_ALIGN (oldbrk (ss data0))"
    and am: "areas_ready ?K cfg (mm_mmap (mms fresh_mem 0)) (mm_brk (mms fresh_mem 0)) (mm_mmap (mms (mem s) 0))
        (mm_brk (mms (mem s) 0)) (\<lambda>b. pte_present (pte_of fresh_mem 0 b) \<and> covered 0 cfg [] [] fresh_mem b)"
    using keep by (simp_all add: keeps_areas_def d0)
  have "pte_present (pte_of fresh_mem 0 b) \<and> covered 0 cfg [] [] fresh_mem b" if "fst (G 0) b \<noteq> None" for b
    using orig [of b] that by (simp add: G_def)
  note mr = areas_ready_memory [OF am d0(2,6) old this, where P = "\<lambda>b. fst (G 0) b \<noteq> None"]
  have ring: "thread_ring (tasks demo_system) [7, 8, 9]" "task_group_leader (tasks demo_system (current demo_system)) = hd [7, 8, 9]"
    by (simp_all add: thread_ring_def demo_thread_def)
  have seek: "config_has (config data0) AFL_SNAPSHOT_FDS \<longrightarrow> (\<exists>ofs. can_seek ?K (open_fds demo_fds) ?p ofs s)"
    using keepf by (simp add: keeps_files_def d0)
  obtain data ofs where inv2: "sys_inv ?K G s" and tr2: "tracked s 0 100 data" and same: "same_but_pages data0 data"
    and rd: "ready_to_restore ?K G 0 data [7, 8, 9] s"
    and sk: "config_has (config data) AFL_SNAPSHOT_FDS \<longrightarrow> ready_to_seek ?K 100 (open_fds demo_fds) ?p ofs s"
    by (rule armed_ready [OF armed seek ring _ _ brk mr(1) mr(2) [folded d0(2,5)]]) (auto simp: demo_thread_def d0(1))
  have d: "tsk data = 7" "config data = cfg" "had_snapshot data" "have_snapshot data" "td_heap s 100 = Some data"
    using same d0 tr2 by (simp_all add: same_but_pages_def tracked_def had_snapshot_def)
  have c: "current s = 7" using armed by (simp add: armed_def)
  have "owner s 0 = 7" using armed by (simp add: armed_def)
  then have r: "registry_map s 7 = Some 100" using tr2 by (simp add: tracked_def)
  have reg: "registry_map s = registry_map s1"
    by (rule process_runs_registry [OF inv1 ref_files_kernel_laws(1,3) run])
  have "e = 100" if "registry_map s t = Some e" for t e
    using that by (simp add: reg registry_map_eq_Some_iff [OF sys_invD(1) [OF inv1]] d0)
  then have st: "statuses_ok s" using d by (auto simp: statuses_ok_def)
  have ph: "phase_of s 7 = Active True" by (simp add: phase_of_Some [OF r d(5)] phase_of_data_def d cfg)
  have rr: "restore_ready ?K s" unfolding restore_ready_def using inv2 tr2 rd sk r c by fastforce
  have "covered 0 cfg [] [] fresh_mem 0x1000"
    by (simp add: covered_def selected_def skip_vma_def fresh_mem_def demo_mem_def demo_mm_def vm_flag_defs
        cfg want_page_def)
  moreover have "user_view ?K 0 fresh_mem 0x1000 = demo_page"
    by (simp add: user_view_def fresh_pte content_def) (simp add: fresh_mem_def demo_mem_def)
  ultimately have "promised ?K 0 (fst (G 0)) (snd (G 0)) 0x1000 = Some demo_page"
    using prom [of "0x1000"] by (simp add: G_def)
  with take run inv2 st c r ph tr2 rd rr show ?thesis by (rule that)
qed

theorem exit_group_hook_intercepts_witness:
  "(\<exists>s1 s s'. take_snapshot ref_files_kernel 28 demo_system = Some (1, s1) \<and>
     process_runs ref_files_kernel fresh_events \<lparr>ip = 99, gprs = []\<rparr> (demo_files 90) (files_structs s1) s1 = Some s \<and>
     phase_of s 7 = Active True \<and>
     sys_exit_group_hook ref_files_kernel (\<lambda>r s. Some (7, s)) \<lparr>ip = 0, gprs = []\<rparr> s = Some (0, s') \<and>
     sys_exit_group_hook_args ref_files_kernel (\<lambda>c s. Some (c, s)) 3 s = Some (0, s') \<and>
     user_view ref_files_kernel 0 (mem s') 0x1000 = demo_page \<and> phase_of s' 7 = Active True) \<and>
   (\<exists>s s'. take_snapshot ref_files_kernel 12 demo_system = Some (1, s) \<and> phase_of s 7 = Active False \<and>
     sys_exit_group_hook ref_files_kernel (\<lambda>r s. Some (7, s)) \<lparr>ip = 0, gprs = []\<rparr> s = Some (7, s') \<and>
     clean_snapshot ref_files_kernel s = Some s' \<and> phase_of s' 7 = Absent)"
proof
  have k: "kernel_ok ref_files_kernel" by (simp add: kernel_ok_def ref_files_kernel_laws)
  obtain s1 s G data ts where take: "take_snapshot ref_files_kernel 28 demo_system = Some (1, s1)"
    and run: "process_runs ref_files_kernel fresh_events \<lparr>ip = 99, gprs = []\<rparr> (demo_files 90) (files_structs s1) s1 = Some s"
    and inv: "sys_inv ref_files_kernel G s" and st: "statuses_ok s" and s: "current s = 7" "registry_map s 7 = Some 100"
      "phase_of s 7 = Active True" and tr: "tracked s 0 100 data" and rd: "ready_to_restore ref_files_kernel G 0 data ts s"
    and rr: "restore_ready ref_files_kernel s"
    and page: "promised ref_files_kernel 0 (fst (G 0)) (snd (G 0)) 0x1000 = Some demo_page"
    by (rule demo_exit_ready [OF refl])
  have ready: "request_ready ref_files_kernel Req_exit_group s" using s rr by simp
  obtain s' where out: "sys_exit_group_hook ref_files_kernel (\<lambda>r s. Some (7, s)) \<lparr>ip = 0, gprs = []\<rparr> s = Some (0, s')"
    "sys_exit_group_hook_args ref_files_kernel (\<lambda>c s. Some (c, s)) 3 s = Some (0, s')" "phase_of s' = phase_of s"
    and pb: "put_back ref_files_kernel 100 s s'"
    using exit_group_hook_intercepts [OF inv k st ready, of "\<lambda>r s. Some (7, s)" "\<lparr>ip = 0, gprs = []\<rparr>" "\<lambda>c s. Some (c, s)" 3] s
    by auto
  have "user_view ref_files_kernel 0 (mem s') 0x1000 = demo_page"
    using pb inv tr rd page unfolding put_back_def by blast
  with take run out s(3) show "\<exists>s1 s s'. take_snapshot ref_files_kernel 28 demo_system = Some (1, s1) \<and>
     process_runs ref_files_kernel fresh_events \<lparr>ip = 99, gprs = []\<rparr> (demo_files 90) (files_structs s1) s1 = Some s \<and>
     phase_of s 7 = Active True \<and>
     sys_exit_group_hook ref_files_kernel (\<lambda>r s. Some (7, s)) \<lparr>ip = 0, gprs = []\<rparr> s = Some (0, s') \<and>
     sys_exit_group_hook_args ref_files_kernel (\<lambda>c s. Some (c, s)) 3 s = Some (0, s') \<and>
     user_view ref_files_kernel 0 (mem s') 0x1000 = demo_page \<and> phase_of s' 7 = Active True" by auto
next
  obtain s data G where demo: "demo_taken s data G" by (rule demo_taken_exists)
  note d = demo_takenD [OF demo]
  have inv: "sys_inv ref_files_kernel G s" and take: "take_snapshot ref_files_kernel 12 demo_system = Some (1, s)"
    and made: "snapshot_made ref_files_kernel 12 0 100 demo_fds demo_system s data"
    using demo by (simp_all add: demo_taken_def)
  have k: "kernel_ok ref_files_kernel" by (simp add: kernel_ok_def ref_files_kernel_laws)
  have ph: "phase_of s 7 = Active False"
    by (simp add: phase_of_Some [OF d(2,3)] phase_of_data_def d(4,6) config_has_def config_defs)
  have "task_data_list s = [100]" using made by (simp add: snapshot_made_def)
  then have "e = 100" if "registry_map s t = Some e" for t e
    using that by (simp add: registry_map_eq_Some_iff [OF sys_invD(1) [OF inv]])
  then have st: "statuses_ok s" using d(3-5) by (auto simp: statuses_ok_def)
  have live: "table_live data s" using d(8) files_saved_live [OF _ d(3)] by blast
  then have ready: "request_ready ref_files_kernel Req_exit_group s" using d(1-3) ph by (simp add: clean_ready_def)
  from exit_group_hook_intercepts [OF inv k st ready, of "\<lambda>r s. Some (7, s)" "\<lparr>ip = 0, gprs = []\<rparr>" "\<lambda>c s. Some (c, s)" 3]
  show "\<exists>s s'. take_snapshot ref_files_kernel 12 demo_system = Some (1, s) \<and> phase_of s 7 = Active False \<and>
     sys_exit_group_hook ref_files_kernel (\<lambda>r s. Some (7, s)) \<lparr>ip = 0, gprs = []\<rparr> s = Some (7, s') \<and>
     clean_snapshot ref_files_kernel s = Some s' \<and> phase_of s' 7 = Absent"
    using take ph d(1) by auto
qed

end
