(* ===== verification/Hook.thy ===== *)
theory Hook
  imports Kernel_List Kernel_Instance
begin

text \<open>
  \<open>src/hook.c\<close>: the list of installed ftrace hooks, with \<open>try_hook\<close>, \<open>unhook\<close> and
  \<open>unhook_all\<close>; and \<open>src/ftrace_util.h\<close>, which bridges kernel versions.

  The kernel's ftrace is a parameter: its own state has the type variable \<open>'f\<close>, and each of the
  functions the module calls is a function on it. What is known of them are the laws in
  \<open>ftrace_laws\<close>.
\<close>

section \<open>The kernel's ftrace\<close>

text \<open>The \<open>ftrace_ops\<close> objects of the module: one in every \<open>struct hook\<close> and one in every
  \<open>struct ftrace_hook\<close> of the array of \<open>module.c\<close>.\<close>

datatype ops = Hook_ops nat | Fh_ops nat

datatype handler = H_do_wp_page_hook | H_page_add_new_anon_rmap_hook | H_do_munmap_hook | H_fh_ftrace_thunk

datatype ops_flag = FL_SAVE_REGS | FL_IPMODIFY | FL_RECURSION | FL_RECURSION_SAFE

record ftrace_ops =
  ops_func :: handler
  ops_flags :: "ops_flag set"

record 'f ftrace_kernel = kernel +
  LINUX_VERSION_CODE :: nat
  CONFIG_X86_64 :: bool
  ft_set_filter :: "ops \<Rightarrow> string \<Rightarrow> 'f \<Rightarrow> int \<times> 'f"
  ft_set_filter_ip :: "ops \<Rightarrow> u64 \<Rightarrow> bool \<Rightarrow> 'f \<Rightarrow> int \<times> 'f"
  ft_register :: "ops \<Rightarrow> ftrace_ops \<Rightarrow> 'f \<Rightarrow> int \<times> 'f"
  ft_unregister :: "ops \<Rightarrow> 'f \<Rightarrow> int \<times> 'f"
  kprobe_kallsyms :: u64 \<comment> \<open>where a kprobe finds \<open>kallsyms_lookup_name\<close>; 0 when it fails\<close>
  kallsyms :: "string \<Rightarrow> u64"
  misc_register_result :: int

text \<open>The build configuration, which the preprocessor tests.\<close>

definition KERNEL_VERSION :: "nat \<Rightarrow> nat \<Rightarrow> nat \<Rightarrow> nat" where
  "KERNEL_VERSION a b c = a * 65536 + b * 256 + min c 255"

definition since_5_11 :: "('f, 'k) ftrace_kernel_scheme \<Rightarrow> bool" where
  "since_5_11 K \<longleftrightarrow> \<not> LINUX_VERSION_CODE K < KERNEL_VERSION 5 11 0"

text \<open>Which ops are registered, as an observation \<open>act\<close> on the state of ftrace. A registration
  or its removal takes effect exactly when it answers 0, and a registered ops can be removed.\<close>

definition ftrace_laws :: "('f, 'k) ftrace_kernel_scheme \<Rightarrow> ('f \<Rightarrow> ops set) \<Rightarrow> bool" where
  "ftrace_laws K act \<longleftrightarrow>
     (\<forall>q name f r f'. ft_set_filter K q name f = (r, f') \<longrightarrow> act f' = act f) \<and>
     (\<forall>q a rm f r f'. ft_set_filter_ip K q a rm f = (r, f') \<longrightarrow> act f' = act f) \<and>
     (\<forall>q x f r f'. ft_register K q x f = (r, f') \<longrightarrow> act f' = (if r = 0 then insert q (act f) else act f)) \<and>
     (\<forall>q f r f'. ft_unregister K q f = (r, f') \<longrightarrow>
        act f' = (if r = 0 then act f - {q} else act f) \<and> (q \<in> act f \<longrightarrow> r = 0))"

lemma ftrace_lawsD:
  assumes "ftrace_laws K act"
  shows "ft_set_filter K q name f = (r, f') \<Longrightarrow> act f' = act f"
    and "ft_set_filter_ip K q a rm f = (r, f') \<Longrightarrow> act f' = act f"
    and "ft_register K q x f = (r, f') \<Longrightarrow> act f' = (if r = 0 then insert q (act f) else act f)"
    and "ft_unregister K q f = (r, f') \<Longrightarrow> act f' = (if r = 0 then act f - {q} else act f)"
    and "ft_unregister K q f = (r, f') \<Longrightarrow> q \<in> act f \<Longrightarrow> r = 0"
proof -
  note laws = assms [unfolded ftrace_laws_def]
  show "ft_set_filter K q name f = (r, f') \<Longrightarrow> act f' = act f"
    and "ft_set_filter_ip K q a rm f = (r, f') \<Longrightarrow> act f' = act f"
    and "ft_register K q x f = (r, f') \<Longrightarrow> act f' = (if r = 0 then insert q (act f) else act f)"
    and "ft_unregister K q f = (r, f') \<Longrightarrow> act f' = (if r = 0 then act f - {q} else act f)"
    and "ft_unregister K q f = (r, f') \<Longrightarrow> q \<in> act f \<Longrightarrow> r = 0"
    using laws by metis+
qed

text \<open>The two recursion flags, one asking for ftrace's protection against recursion and one, on older
  kernels, declining it: \<open>ftrace_util.h\<close> makes each empty on the versions that do not have it.\<close>

definition FTRACE_OPS_FL_RECURSION :: "('f, 'k) ftrace_kernel_scheme \<Rightarrow> ops_flag set" where
  "FTRACE_OPS_FL_RECURSION K = (if since_5_11 K then {FL_RECURSION} else {})"

definition FTRACE_OPS_FL_RECURSION_SAFE :: "('f, 'k) ftrace_kernel_scheme \<Rightarrow> ops_flag set" where
  "FTRACE_OPS_FL_RECURSION_SAFE K = (if since_5_11 K then {} else {FL_RECURSION_SAFE})"

section \<open>State\<close>

record hook =
  symbol_name :: string
  hook_fops :: ftrace_ops

datatype hook_node = Hooks | Hook_node nat | Hook_poison1 | Hook_poison2

record 'f hook_state = alloc_state +
  hook_heap :: "nat \<Rightarrow> hook option"
  hook_links :: "hook_node list_heap"
  ft :: 'f

section \<open>Operations\<close>

definition hook_ftrace_ops :: "('f, 'k) ftrace_kernel_scheme \<Rightarrow> handler \<Rightarrow> ftrace_ops" where
  "hook_ftrace_ops K h =
     \<lparr>ops_func = h, ops_flags = {FL_SAVE_REGS, FL_IPMODIFY} \<union> FTRACE_OPS_FL_RECURSION K\<rparr>"

definition try_hook ::
  "('f, 'k) ftrace_kernel_scheme \<Rightarrow> string \<Rightarrow> handler \<Rightarrow> ('f, 's) hook_state_scheme
   \<Rightarrow> int \<times> ('f, 's) hook_state_scheme" where
  "try_hook K func_name h s =
     (case kmalloc K s of
        (None, s1) \<Rightarrow> (- ENOMEM, s1)
      | (Some n, s1) \<Rightarrow>
          let fops = hook_ftrace_ops K h;
              s2 = s1\<lparr>hook_heap := (hook_heap s1)(n \<mapsto> \<lparr>symbol_name = func_name, hook_fops = fops\<rparr>),
                      hook_links := INIT_LIST_HEAD (Hook_node n) (hook_links s1)\<rparr>;
              (ret, f1) = ft_set_filter K (Hook_ops n) func_name (ft s2);
              s3 = s2\<lparr>ft := f1\<rparr>
          in if ret \<noteq> 0 then (ret, s3\<lparr>hook_heap := (hook_heap s3)(n := None)\<rparr>)
             else let (ret, f2) = ft_register K (Hook_ops n) fops (ft s3);
                      s4 = s3\<lparr>ft := f2\<rparr>
                  in if ret \<noteq> 0 then (ret, s4\<lparr>hook_heap := (hook_heap s4)(n := None)\<rparr>)
                     else (0, s4\<lparr>hook_links := list_add (Hook_node n) Hooks (hook_links s4)\<rparr>))"

text \<open>The end of both loop bodies below; the result of \<open>unregister_ftrace_function\<close> is only
  printed.\<close>

definition release_hook ::
  "('f, 'k) ftrace_kernel_scheme \<Rightarrow> nat \<Rightarrow> ('f, 's) hook_state_scheme \<Rightarrow> ('f, 's) hook_state_scheme" where
  "release_hook K n s =
     s\<lparr>ft := snd (ft_unregister K (Hook_ops n) (ft s)),
       hook_links := list_del Hook_poison1 Hook_poison2 (Hook_node n) (hook_links s),
       hook_heap := (hook_heap s)(n := None)\<rparr>"

partial_function (option) unhook_from ::
  "('f, 'k) ftrace_kernel_scheme \<Rightarrow> string \<Rightarrow> hook_node \<Rightarrow> ('f, 's) hook_state_scheme
   \<Rightarrow> ('f, 's) hook_state_scheme option" where
  "unhook_from K func_name pos s =
     (case pos of
        Hooks \<Rightarrow> Some s
      | Hook_node n \<Rightarrow>
          do { h \<leftarrow> hook_heap s n;
               let nxt = next_of (hook_links s) pos;
               if symbol_name h = func_name then Some (release_hook K n s)
               else unhook_from K func_name nxt s }
      | _ \<Rightarrow> None)"

definition unhook ::
  "('f, 'k) ftrace_kernel_scheme \<Rightarrow> string \<Rightarrow> ('f, 's) hook_state_scheme \<Rightarrow> ('f, 's) hook_state_scheme option" where
  "unhook K func_name s = unhook_from K func_name (next_of (hook_links s) Hooks) s"

partial_function (option) unhook_all_from ::
  "('f, 'k) ftrace_kernel_scheme \<Rightarrow> hook_node \<Rightarrow> ('f, 's) hook_state_scheme
   \<Rightarrow> ('f, 's) hook_state_scheme option" where
  "unhook_all_from K pos s =
     (case pos of
        Hooks \<Rightarrow> Some s
      | Hook_node n \<Rightarrow>
          do { h \<leftarrow> hook_heap s n;
               let nxt = next_of (hook_links s) pos;
               unhook_all_from K nxt (release_hook K n s) }
      | _ \<Rightarrow> None)"

definition unhook_all ::
  "('f, 'k) ftrace_kernel_scheme \<Rightarrow> ('f, 's) hook_state_scheme \<Rightarrow> ('f, 's) hook_state_scheme option" where
  "unhook_all K s = unhook_all_from K (next_of (hook_links s) Hooks) s"

section \<open>The list of hooks\<close>

text \<open>\<open>hooks_ok act ns s\<close>: the list holds the live objects \<open>ns\<close>, most recent first, and
  exactly their ops are registered.\<close>

definition hooks_ok :: "('f \<Rightarrow> ops set) \<Rightarrow> nat list \<Rightarrow> ('f, 's) hook_state_scheme \<Rightarrow> bool" where
  "hooks_ok act ns s \<longleftrightarrow>
     dlist (hook_links s) Hooks (map Hook_node ns) \<and> dom (hook_heap s) = set ns \<and>
     (\<forall>n. Hook_ops n \<in> act (ft s) \<longleftrightarrow> n \<in> set ns) \<and> (\<forall>n \<in> set ns. n < alloc_next s)"

definition hook_name :: "('f, 's) hook_state_scheme \<Rightarrow> nat \<Rightarrow> string" where
  "hook_name s n = symbol_name (the (hook_heap s n))"

definition fh_active :: "('f \<Rightarrow> ops set) \<Rightarrow> ('f, 's) hook_state_scheme \<Rightarrow> nat set" where
  "fh_active act s = {i. Fh_ops i \<in> act (ft s)}"

lemma hooks_okD:
  assumes "hooks_ok act ns s"
  shows "distinct ns" and "dlist (hook_links s) Hooks (map Hook_node ns)" and "dom (hook_heap s) = set ns"
    and "Hook_ops n \<in> act (ft s) \<longleftrightarrow> n \<in> set ns" and "n \<in> set ns \<Longrightarrow> n < alloc_next s"
  using assms by (simp_all add: hooks_ok_def dlist_def distinct_map)

text \<open>The three ways \<open>try_hook\<close> ends.\<close>

lemma try_hook_cases:
  assumes ok: "hooks_ok act ns s" and laws: "ftrace_laws K act" and run: "try_hook K name h s = (r, s')"
  obtains (failed) "r \<noteq> 0" "hooks_ok act ns s'" "hook_heap s' = hook_heap s" "fh_active act s' = fh_active act s"
      "alloc_next s' = Suc (alloc_next s)" "hook_state.more s' = hook_state.more s"
  | (hooked) n where "r = 0" "n = alloc_next s" "hooks_ok act (n # ns) s'"
      "hook_heap s' = (hook_heap s)(n \<mapsto> \<lparr>symbol_name = name, hook_fops = hook_ftrace_ops K h\<rparr>)"
      "fh_active act s' = fh_active act s" "hook_state.more s' = hook_state.more s"
proof -
  let ?n = "alloc_next s"
  let ?x = "hook_ftrace_ops K h"
  obtain r1 f1 where f1: "ft_set_filter K (Hook_ops ?n) name (ft s) = (r1, f1)"
    by (cases "ft_set_filter K (Hook_ops ?n) name (ft s)")
  obtain r2 f2 where f2: "ft_register K (Hook_ops ?n) ?x f1 = (r2, f2)" by (cases "ft_register K (Hook_ops ?n) ?x f1")
  have a1: "act f1 = act (ft s)" by (rule ftrace_lawsD(1) [OF laws f1])
  have a2: "act f2 = (if r2 = 0 then insert (Hook_ops ?n) (act (ft s)) else act (ft s))"
    using ftrace_lawsD(3) [OF laws f2] by (simp add: a1)
  note d = hooks_okD [OF ok]
  have fresh: "?n \<notin> set ns" using d(5) [of ?n] by blast
  then have heap: "(hook_heap s)(?n := None) = hook_heap s" using d(3) by (intro fun_upd_idem) blast
  have links: "dlist (INIT_LIST_HEAD (Hook_node ?n) (hook_links s)) Hooks (map Hook_node ns)"
    using d(2) fresh by (intro dlist_init_frame) auto
  have undone: "hooks_ok act ns (s\<lparr>alloc_next := Suc ?n, hook_heap := hook_heap s,
       hook_links := INIT_LIST_HEAD (Hook_node ?n) (hook_links s), ft := f\<rparr>)" if "act f = act (ft s)" for f
    using ok links that by (auto simp: hooks_ok_def less_Suc_eq)
  consider (oom) "\<not> kmalloc_ok K ?n"
    | (filtered) "kmalloc_ok K ?n" "r1 \<noteq> 0"
    | (reg) "kmalloc_ok K ?n" "r1 = 0" "r2 \<noteq> 0"
    | (linked) "kmalloc_ok K ?n" "r1 = 0" "r2 = 0" by blast
  then show ?thesis
  proof cases
    case oom
    then have "s' = s\<lparr>alloc_next := Suc ?n\<rparr>" "r = - ENOMEM" using run by (simp_all add: try_hook_def kmalloc_def)
    then show ?thesis using ok by (intro failed) (auto simp: hooks_ok_def fh_active_def ENOMEM_def less_Suc_eq)
  next
    case filtered
    then have "s' = s\<lparr>alloc_next := Suc ?n, hook_heap := hook_heap s,
       hook_links := INIT_LIST_HEAD (Hook_node ?n) (hook_links s), ft := f1\<rparr>" "r = r1"
      using run heap by (simp_all add: try_hook_def kmalloc_def f1 Let_def)
    then show ?thesis using filtered undone [OF a1] by (intro failed) (simp_all add: fh_active_def a1)
  next
    case reg
    then have "s' = s\<lparr>alloc_next := Suc ?n, hook_heap := hook_heap s,
       hook_links := INIT_LIST_HEAD (Hook_node ?n) (hook_links s), ft := f2\<rparr>" "r = r2"
      using run heap by (simp_all add: try_hook_def kmalloc_def f1 f2 Let_def)
    then show ?thesis using reg undone [of f2] a2 by (intro failed) (simp_all add: fh_active_def)
  next
    case linked
    have s': "s' = s\<lparr>alloc_next := Suc ?n, hook_heap := (hook_heap s)(?n \<mapsto> \<lparr>symbol_name = name, hook_fops = ?x\<rparr>),
       ft := f2, hook_links := list_add (Hook_node ?n) Hooks (INIT_LIST_HEAD (Hook_node ?n) (hook_links s))\<rparr>" "r = 0"
      using run linked by (simp_all add: try_hook_def kmalloc_def f1 f2 Let_def)
    have "dlist (list_add (Hook_node ?n) Hooks (INIT_LIST_HEAD (Hook_node ?n) (hook_links s))) Hooks (map Hook_node (?n # ns))"
      using dlist_list_add [OF links, of "Hook_node ?n"] fresh by auto
    moreover have "act f2 = insert (Hook_ops ?n) (act (ft s))" using a2 linked by simp
    ultimately have "hooks_ok act (?n # ns) s'"
      using d by (auto simp: s' hooks_ok_def less_Suc_eq)
    then show ?thesis using a2 linked s' by (intro hooked) (simp_all add: fh_active_def)
  qed
qed

lemma release_hook_ok:
  assumes ok: "hooks_ok act (ms @ n # ns) s" and laws: "ftrace_laws K act"
  shows "hooks_ok act (ms @ ns) (release_hook K n s)" and "fh_active act (release_hook K n s) = fh_active act s"
    and "hook_state.more (release_hook K n s) = hook_state.more s"
    and "hook_heap (release_hook K n s) = (hook_heap s)(n := None)"
proof -
  obtain r f' where f: "ft_unregister K (Hook_ops n) (ft s) = (r, f')" by (cases "ft_unregister K (Hook_ops n) (ft s)")
  note d = hooks_okD [OF ok]
  have "Hook_ops n \<in> act (ft s)" by (simp add: d(4))
  with ftrace_lawsD(4,5) [OF laws f] have a: "act f' = act (ft s) - {Hook_ops n}" by simp
  have "dlist (hook_links s) Hooks (map Hook_node ms @ Hook_node n # map Hook_node ns)" using d(2) by simp
  from dlist_list_del [OF this, of Hook_poison1 Hook_poison2]
  show "hooks_ok act (ms @ ns) (release_hook K n s)"
    using d(1,3-5) by (auto simp: hooks_ok_def release_hook_def f a)
  show "fh_active act (release_hook K n s) = fh_active act s" "hook_state.more (release_hook K n s) = hook_state.more s"
    "hook_heap (release_hook K n s) = (hook_heap s)(n := None)"
    by (simp_all add: release_hook_def f a fh_active_def)
qed

text \<open>The node after an entry, read before the entry is released.\<close>

lemma next_after:
  assumes "hooks_ok act (ms @ n # ns) s"
  shows "next_of (hook_links s) (Hook_node n) = (case ns of [] \<Rightarrow> Hooks | m # _ \<Rightarrow> Hook_node m)"
proof -
  have "dlist (hook_links s) Hooks (map Hook_node ms @ Hook_node n # map Hook_node ns)"
    using hooks_okD(2) [OF assms] by simp
  then have "chain (hook_links s) (Hook_node n) (map Hook_node ns) Hooks" by (auto simp: dlist_def chain_append)
  then show ?thesis by (cases ns) simp_all
qed

lemma unhook_all_from_ok:
  assumes "hooks_ok act ns s" and "ftrace_laws K act"
  shows "\<exists>s'. unhook_all_from K (case ns of [] \<Rightarrow> Hooks | n # _ \<Rightarrow> Hook_node n) s = Some s' \<and>
     hooks_ok act [] s' \<and> fh_active act s' = fh_active act s \<and> hook_state.more s' = hook_state.more s"
  using assms(1)
proof (induction ns arbitrary: s)
  case Nil
  then show ?case by (auto simp: unhook_all_from.simps)
next
  case (Cons n ns)
  have ok: "hooks_ok act ([] @ n # ns) s" using Cons.prems by simp
  obtain h where h: "hook_heap s n = Some h" using hooks_okD(3) [OF Cons.prems] by auto
  note rel = release_hook_ok [OF ok assms(2)]
  have "hooks_ok act ns (release_hook K n s)" using rel(1) by simp
  from Cons.IH [OF this] next_after [OF ok] h rel(2,3) show ?case
    by (subst unhook_all_from.simps) (simp add: Let_def)
qed

lemma unhook_all_ok:
  assumes "hooks_ok act ns s" and "ftrace_laws K act"
  obtains s' where "unhook_all K s = Some s'" and "hooks_ok act [] s'" and "fh_active act s' = fh_active act s"
    and "hook_state.more s' = hook_state.more s"
proof -
  have "next_of (hook_links s) Hooks = (case ns of [] \<Rightarrow> Hooks | n # _ \<Rightarrow> Hook_node n)"
    using hooks_okD(2) [OF assms(1)] by (cases ns) (auto simp: dlist_def)
  with unhook_all_from_ok [OF assms] that show ?thesis by (auto simp: unhook_all_def)
qed

text \<open>C24. \<open>unhook_all\<close> ends, unregisters every hook on the list, frees all of them and leaves the
  list empty; the hooks installed by \<open>ftrace_helper.h\<close> stay.\<close>

theorem unhook_all_removes:
  assumes "hooks_ok act ns s" and "ftrace_laws K act"
  shows "\<exists>s'. unhook_all K s = Some s' \<and> (\<forall>n. Hook_ops n \<notin> act (ft s')) \<and> hook_heap s' = Map.empty \<and>
     list_entries (hook_links s') Hooks = Some [] \<and> fh_active act s' = fh_active act s"
proof -
  obtain s' where run: "unhook_all K s = Some s'" and ok: "hooks_ok act [] s'"
    and fh: "fh_active act s' = fh_active act s"
    by (rule unhook_all_ok [OF assms])
  note d = hooks_okD [OF ok]
  have "list_entries (hook_links s') Hooks = Some []" using list_entries_dlist [OF d(2)] by simp
  then show ?thesis using run fh d(3,4) by auto
qed

lemma unhook_from_ok:
  assumes "hooks_ok act (ms @ ns) s" and "ftrace_laws K act" and "\<forall>m \<in> set ms. hook_name s m \<noteq> name"
  shows "\<exists>s'. unhook_from K name (case ns of [] \<Rightarrow> Hooks | n # _ \<Rightarrow> Hook_node n) s = Some s' \<and>
     (case find (\<lambda>n. hook_name s n = name) ns of
        None \<Rightarrow> s' = s
      | Some n \<Rightarrow> hooks_ok act (remove1 n (ms @ ns)) s' \<and> hook_heap s' = (hook_heap s)(n := None) \<and>
                  fh_active act s' = fh_active act s)"
  using assms(1,3)
proof (induction ns arbitrary: ms)
  case Nil
  show ?case by (subst unhook_from.simps) simp
next
  case (Cons n ns)
  obtain h where h: "hook_heap s n = Some h" using hooks_okD(3) [OF Cons.prems(1)] by auto
  note nxt = next_after [OF Cons.prems(1)]
  show ?case
  proof (cases "hook_name s n = name")
    case True
    have "n \<notin> set ms" using hooks_okD(1) [OF Cons.prems(1)] by auto
    then have "remove1 n (ms @ n # ns) = ms @ ns" by (simp add: remove1_append)
    moreover have "unhook_from K name (Hook_node n) s = Some (release_hook K n s)"
      using True h by (subst unhook_from.simps) (simp add: hook_name_def)
    ultimately show ?thesis using True release_hook_ok [OF Cons.prems(1) assms(2)] by simp
  next
    case False
    have "unhook_from K name (Hook_node n) s = unhook_from K name (next_of (hook_links s) (Hook_node n)) s"
      using False h by (subst unhook_from.simps) (simp add: hook_name_def)
    then show ?thesis
      using Cons.IH [of "ms @ [n]", unfolded append_assoc append.simps] Cons.prems False by (simp add: nxt)
  qed
qed

text \<open>C26. \<open>unhook\<close> ends and removes the most recent hook with the given name and no other; without
  such a hook nothing changes.\<close>

theorem unhook_removes_one:
  assumes "hooks_ok act ns s" and "ftrace_laws K act"
  shows "\<exists>s'. unhook K name s = Some s' \<and>
     (case find (\<lambda>n. hook_name s n = name) ns of
        None \<Rightarrow> s' = s
      | Some n \<Rightarrow> hooks_ok act (remove1 n ns) s' \<and> hook_heap s' = (hook_heap s)(n := None) \<and>
                  fh_active act s' = fh_active act s)"
proof -
  have "next_of (hook_links s) Hooks = (case ns of [] \<Rightarrow> Hooks | n # _ \<Rightarrow> Hook_node n)"
    using hooks_okD(2) [OF assms(1)] by (cases ns) (auto simp: dlist_def)
  with unhook_from_ok [of act "[]" ns s K name, unfolded append.simps] assms show ?thesis by (simp add: unhook_def)
qed

text \<open>C25. \<open>try_hook\<close> is all or nothing. If it answers 0, the new hook is the first on the list, alive
  with the given name and handler, and registered, and every older hook is as before; otherwise
  the list, the objects and the registrations are as they were.\<close>

theorem try_hook_all_or_nothing:
  assumes ok: "hooks_ok act ns s" and laws: "ftrace_laws K act"
  shows "\<exists>r s'. try_hook K name h s = (r, s') \<and> fh_active act s' = fh_active act s \<and>
     (if r = 0
      then hooks_ok act (alloc_next s # ns) s' \<and>
           hook_heap s' = (hook_heap s)(alloc_next s \<mapsto> \<lparr>symbol_name = name, hook_fops = hook_ftrace_ops K h\<rparr>)
      else hooks_ok act ns s' \<and> hook_heap s' = hook_heap s)"
proof -
  obtain r s' where run: "try_hook K name h s = (r, s')" by (cases "try_hook K name h s")
  from ok laws run show ?thesis by (cases rule: try_hook_cases) (simp_all add: run)
qed

section \<open>A concrete ftrace\<close>

text \<open>It keeps a list of the registered ops and rejects the names in \<open>bad\<close>.\<close>

definition ref_ftrace :: "string list \<Rightarrow> ops list ftrace_kernel" where
  "ref_ftrace bad = kernel.extend ref_kernel (ftrace_kernel.fields (KERNEL_VERSION 5 11 0) True
     (\<lambda>q name f. (if name \<in> set bad then - EINVAL else 0, f)) (\<lambda>q a rm f. (0, f)) (\<lambda>q x f. (0, q # f))
     (\<lambda>q f. if q \<in> set f then (0, removeAll q f) else (- ENOENT, f)) 0x1000 (\<lambda>name. if name \<in> set bad then 0 else 0x2000) 0)"

lemma ref_ftrace_simps [simp]:
  "kmalloc_ok (ref_ftrace bad) n" "LINUX_VERSION_CODE (ref_ftrace bad) = KERNEL_VERSION 5 11 0" "CONFIG_X86_64 (ref_ftrace bad)"
  "ft_set_filter (ref_ftrace bad) q name f = (if name \<in> set bad then - EINVAL else 0, f)"
  "ft_set_filter_ip (ref_ftrace bad) q a rm f = (0, f)" "ft_register (ref_ftrace bad) q x f = (0, q # f)"
  "ft_unregister (ref_ftrace bad) q f = (if q \<in> set f then (0, removeAll q f) else (- ENOENT, f))"
  "kprobe_kallsyms (ref_ftrace bad) = 0x1000" "kallsyms (ref_ftrace bad) name = (if name \<in> set bad then 0 else 0x2000)"
  "misc_register_result (ref_ftrace bad) = 0"
  by (simp_all add: ref_ftrace_def kernel.defs ftrace_kernel.defs ref_kernel_def)

lemma ref_ftrace_laws: "ftrace_laws (ref_ftrace bad) set"
  by (auto simp: ftrace_laws_def ENOENT_def split: if_splits)

definition no_hooks :: "ops list hook_state" where
  "no_hooks = \<lparr>alloc_next = 5, hook_heap = Map.empty, hook_links = \<lparr>next_of = (\<lambda>n. n), prev_of = (\<lambda>n. n)\<rparr>, ft = []\<rparr>"

lemma no_hooks_ok: "hooks_ok set [] no_hooks"
  by (simp add: hooks_ok_def no_hooks_def dlist_def)

text \<open>Two hooks with the same name on the list.\<close>

definition two_hooks :: "ops list hook_state" where
  "two_hooks = snd (try_hook (ref_ftrace []) ''f'' H_do_munmap_hook (snd (try_hook (ref_ftrace []) ''f'' H_do_wp_page_hook no_hooks)))"

lemma try_hook_ok_ref:
  "hooks_ok set ns s \<Longrightarrow> name \<notin> set bad \<Longrightarrow>
   hooks_ok set (alloc_next s # ns) (snd (try_hook (ref_ftrace bad) name h s)) \<and>
   alloc_next (snd (try_hook (ref_ftrace bad) name h s)) = Suc (alloc_next s) \<and>
   hook_name (snd (try_hook (ref_ftrace bad) name h s)) n = (if n = alloc_next s then name else hook_name s n)"
proof -
  assume ok: "hooks_ok set ns s" and bad: "name \<notin> set bad"
  obtain r s' where run: "try_hook (ref_ftrace bad) name h s = (r, s')" by (cases "try_hook (ref_ftrace bad) name h s")
  have "r = 0" "alloc_next s' = Suc (alloc_next s)"
    using run bad by (auto simp: try_hook_def kmalloc_def Let_def)
  with ok ref_ftrace_laws [of bad] run show ?thesis
    by (cases rule: try_hook_cases) (simp_all add: run hook_name_def)
qed

lemma two_hooks_ok: "hooks_ok set [6, 5] two_hooks" "hook_name two_hooks 6 = ''f''" "hook_name two_hooks 5 = ''f''"
proof -
  let ?s1 = "snd (try_hook (ref_ftrace []) ''f'' H_do_wp_page_hook no_hooks)"
  have n: "alloc_next no_hooks = 5" by (simp add: no_hooks_def)
  note s1 = try_hook_ok_ref [OF no_hooks_ok, of "''f''" "[]" H_do_wp_page_hook, unfolded n]
  have ok1: "hooks_ok set [5] ?s1" and n1: "alloc_next ?s1 = 6" using s1 by simp_all
  note s2 = try_hook_ok_ref [OF ok1, of "''f''" "[]" H_do_munmap_hook, unfolded n1]
  show "hooks_ok set [6, 5] two_hooks" "hook_name two_hooks 6 = ''f''" "hook_name two_hooks 5 = ''f''"
    unfolding two_hooks_def using s1 s2 by simp_all
qed

theorem unhook_all_removes_witness:
  "\<exists>s'. unhook_all (ref_ftrace []) two_hooks = Some s' \<and> Hook_ops 6 \<in> set (ft two_hooks) \<and> Hook_ops 6 \<notin> set (ft s') \<and>
     hook_heap s' = Map.empty"
  using unhook_all_removes [OF two_hooks_ok(1) ref_ftrace_laws [of "[]"]] hooks_okD(4) [OF two_hooks_ok(1), of 6] by auto

theorem unhook_removes_one_witness:
  "\<exists>s'. unhook (ref_ftrace []) ''f'' two_hooks = Some s' \<and> hooks_ok set [5] s' \<and> hook_heap s' 6 = None"
  using unhook_removes_one [OF two_hooks_ok(1) ref_ftrace_laws [of "[]"], of "''f''"] two_hooks_ok(2) by auto

theorem try_hook_all_or_nothing_witness:
  "(\<exists>s'. try_hook (ref_ftrace []) ''g'' H_do_wp_page_hook two_hooks = (0, s') \<and> hooks_ok set [7, 6, 5] s') \<and>
   (\<exists>s'. try_hook (ref_ftrace [''g'']) ''g'' H_do_wp_page_hook two_hooks = (- EINVAL, s') \<and> hooks_ok set [6, 5] s')"
proof -
  have n: "alloc_next two_hooks = 7"
    by (simp add: two_hooks_def no_hooks_def try_hook_def kmalloc_def Let_def)
  have run: "fst (try_hook (ref_ftrace []) ''g'' H_do_wp_page_hook two_hooks) = 0"
    "fst (try_hook (ref_ftrace [''g'']) ''g'' H_do_wp_page_hook two_hooks) = - EINVAL"
    by (simp_all add: try_hook_def kmalloc_def Let_def EINVAL_def)
  show ?thesis
    using try_hook_all_or_nothing [OF two_hooks_ok(1) ref_ftrace_laws [of "[]"], of "''g''" H_do_wp_page_hook]
      try_hook_all_or_nothing [OF two_hooks_ok(1) ref_ftrace_laws [of "[''g'']"], of "''g''" H_do_wp_page_hook] run
    by (auto simp: n EINVAL_def)
qed

end
