(* ===== verification/Ftrace_Helper.thy ===== *)
theory Ftrace_Helper
  imports Hook Snapshot_Types
begin

text \<open>
  \<open>src/ftrace_helper.h\<close>: redirecting kernel functions to functions of the module, for an array
  of hooks at once.
\<close>

section \<open>State\<close>

text \<open>The functions of the module that take over, and the variables that keep the address of the
  function they took over.\<close>

datatype hook_function = F_sys_exit_group_hook | F_do_exit_hook

datatype orig_var = V_sys_exit_group_orig | V_do_exit_orig

record ftrace_hook =
  fh_name :: string
  fh_function :: hook_function
  fh_original :: orig_var
  fh_address :: u64
  fh_ftrace_ops :: ftrace_ops

record 'f fh_state = "'f hook_state" +
  kallsyms_lookup_name_var :: u64
  fh_hooks :: "nat \<Rightarrow> ftrace_hook"
  originals :: "orig_var \<Rightarrow> u64"

definition PTREGS_SYSCALL_STUBS :: "('f, 'k) ftrace_kernel_scheme \<Rightarrow> bool" where
  "PTREGS_SYSCALL_STUBS K \<longleftrightarrow> CONFIG_X86_64 K \<and> LINUX_VERSION_CODE K \<ge> KERNEL_VERSION 4 17 0"

definition KPROBE_LOOKUP :: "('f, 'k) ftrace_kernel_scheme \<Rightarrow> bool" where
  "KPROBE_LOOKUP K \<longleftrightarrow> LINUX_VERSION_CODE K \<ge> KERNEL_VERSION 5 7 0"

lemma ref_ftrace_config [simp]: "PTREGS_SYSCALL_STUBS (ref_ftrace bad)" "KPROBE_LOOKUP (ref_ftrace bad)"
  by (simp_all add: PTREGS_SYSCALL_STUBS_def KPROBE_LOOKUP_def KERNEL_VERSION_def)

definition SYSCALL_NAME :: "('f, 'k) ftrace_kernel_scheme \<Rightarrow> string \<Rightarrow> string" where
  "SYSCALL_NAME K name = (if PTREGS_SYSCALL_STUBS K then ''__x64_'' @ name else name)"

text \<open>The entries that the macros \<open>HOOK\<close> and \<open>SYSCALL_HOOK\<close> initialise; the other fields are
  zero.\<close>

definition HOOK :: "string \<Rightarrow> hook_function \<Rightarrow> orig_var \<Rightarrow> ftrace_hook" where
  "HOOK name func orig =
     \<lparr>fh_name = name, fh_function = func, fh_original = orig, fh_address = 0,
      fh_ftrace_ops = \<lparr>ops_func = H_fh_ftrace_thunk, ops_flags = {}\<rparr>\<rparr>"

definition SYSCALL_HOOK ::
  "('f, 'k) ftrace_kernel_scheme \<Rightarrow> string \<Rightarrow> hook_function \<Rightarrow> orig_var \<Rightarrow> ftrace_hook" where
  "SYSCALL_HOOK K name func orig = HOOK (SYSCALL_NAME K name) func orig"

definition put_fh :: "nat \<Rightarrow> ftrace_hook \<Rightarrow> ('f, 's) fh_state_scheme \<Rightarrow> ('f, 's) fh_state_scheme" where
  "put_fh i h s = s\<lparr>fh_hooks := (fh_hooks s)(i := h)\<rparr>"

section \<open>One hook\<close>

text \<open>
  From 5.7 on \<open>kallsyms_lookup_name\<close> is not exported and its address is asked of a kprobe,
  whose registration is not checked; a call through a NULL pointer crashes.
\<close>

definition call_kallsyms :: "('f, 'k) ftrace_kernel_scheme \<Rightarrow> string \<Rightarrow> ('f, 's) fh_state_scheme \<Rightarrow> u64 option" where
  "call_kallsyms K name s =
     (if KPROBE_LOOKUP K \<and> kallsyms_lookup_name_var s = 0 then None else Some (kallsyms K name))"

definition fh_resolve_hook_address ::
  "('f, 'k) ftrace_kernel_scheme \<Rightarrow> nat \<Rightarrow> ('f, 's) fh_state_scheme \<Rightarrow> (int \<times> ('f, 's) fh_state_scheme) option" where
  "fh_resolve_hook_address K i s =
     (let s1 = (if KPROBE_LOOKUP K then s\<lparr>kallsyms_lookup_name_var := kprobe_kallsyms K\<rparr> else s);
          hook = fh_hooks s1 i
      in do { a \<leftarrow> call_kallsyms K (fh_name hook) s1;
              let s2 = put_fh i (hook\<lparr>fh_address := a\<rparr>) s1;
              if a = 0 then Some (- ENOENT, s2)
              else Some (0, s2\<lparr>originals := (originals s2)(fh_original hook := a)\<rparr>) })"

text \<open>The redirection itself, run by ftrace at the entry of a hooked function. \<open>code\<close> maps the
  functions of the module to their addresses.\<close>

definition fh_ftrace_thunk ::
  "(hook_function \<Rightarrow> u64) \<Rightarrow> (u64 \<Rightarrow> bool) \<Rightarrow> nat \<Rightarrow> u64 \<Rightarrow> pt_regs \<Rightarrow> ('f, 's) fh_state_scheme \<Rightarrow> pt_regs" where
  "fh_ftrace_thunk code within_module i parent_ip regs s =
     (if \<not> within_module parent_ip then regs\<lparr>ip := code (fh_function (fh_hooks s i))\<rparr> else regs)"

definition fh_ops_init :: "('f, 'k) ftrace_kernel_scheme \<Rightarrow> ftrace_ops" where
  "fh_ops_init K =
     \<lparr>ops_func = H_fh_ftrace_thunk,
      ops_flags = {FL_SAVE_REGS} \<union> FTRACE_OPS_FL_RECURSION_SAFE K \<union> {FL_IPMODIFY}\<rparr>"

definition fh_install_hook ::
  "('f, 'k) ftrace_kernel_scheme \<Rightarrow> nat \<Rightarrow> ('f, 's) fh_state_scheme \<Rightarrow> (int \<times> ('f, 's) fh_state_scheme) option" where
  "fh_install_hook K i s =
     do { (err, s1) \<leftarrow> fh_resolve_hook_address K i s;
          if err \<noteq> 0 then Some (err, s1)
          else
            let fops = fh_ops_init K;
                s2 = put_fh i ((fh_hooks s1 i)\<lparr>fh_ftrace_ops := fops\<rparr>) s1;
                (err, f1) = ft_set_filter_ip K (Fh_ops i) (fh_address (fh_hooks s2 i)) False (ft s2);
                s3 = s2\<lparr>ft := f1\<rparr>
            in if err \<noteq> 0 then Some (err, s3)
               else let (err, f2) = ft_register K (Fh_ops i) fops (ft s3);
                        s4 = s3\<lparr>ft := f2\<rparr>
                    in if err \<noteq> 0 then Some (err, s4) else Some (0, s4) }"

text \<open>Both results are only printed.\<close>

definition fh_remove_hook ::
  "('f, 'k) ftrace_kernel_scheme \<Rightarrow> nat \<Rightarrow> ('f, 's) fh_state_scheme \<Rightarrow> ('f, 's) fh_state_scheme" where
  "fh_remove_hook K i s =
     (let s1 = s\<lparr>ft := snd (ft_unregister K (Fh_ops i) (ft s))\<rparr>
      in s1\<lparr>ft := snd (ft_set_filter_ip K (Fh_ops i) (fh_address (fh_hooks s1 i)) True (ft s1))\<rparr>)"

section \<open>An array of hooks\<close>

text \<open>The loops of \<open>fh_install_hooks\<close>: forward from \<open>i\<close>, and back down after an error.\<close>

primrec remove_down :: "(nat \<Rightarrow> 's \<Rightarrow> 's) \<Rightarrow> nat \<Rightarrow> 's \<Rightarrow> 's" where
  "remove_down rm 0 s = s"
| "remove_down rm (Suc i) s = remove_down rm i (rm i s)"

function install_from ::
  "(nat \<Rightarrow> 's \<Rightarrow> (int \<times> 's) option) \<Rightarrow> (nat \<Rightarrow> 's \<Rightarrow> 's) \<Rightarrow> nat \<Rightarrow> nat \<Rightarrow> 's \<Rightarrow> (int \<times> 's) option" where
  "install_from inst rm n i s =
     (if i < n
      then do { (err, s1) \<leftarrow> inst i s;
                if err \<noteq> 0 then Some (err, remove_down rm i s1) else install_from inst rm n (Suc i) s1 }
      else Some (0, s))"
  by pat_completeness auto
termination by (relation "measure (\<lambda>(inst, rm, n, i, s). n - i)") auto

declare install_from.simps [simp del]

definition fh_install_hooks ::
  "('f, 'k) ftrace_kernel_scheme \<Rightarrow> nat \<Rightarrow> ('f, 's) fh_state_scheme \<Rightarrow> (int \<times> ('f, 's) fh_state_scheme) option" where
  "fh_install_hooks K count s = install_from (fh_install_hook K) (fh_remove_hook K) count 0 s"

definition fh_remove_hooks ::
  "('f, 'k) ftrace_kernel_scheme \<Rightarrow> nat \<Rightarrow> ('f, 's) fh_state_scheme \<Rightarrow> ('f, 's) fh_state_scheme" where
  "fh_remove_hooks K count s = fold (fh_remove_hook K) [0..<count] s"

text \<open>What the loops need of the two operations: installing answers 0 exactly when it activates its
  hook, and neither operation touches another hook.\<close>

locale installer =
  fixes ready :: "'s \<Rightarrow> bool"
    and active :: "'s \<Rightarrow> nat set"
    and install :: "nat \<Rightarrow> 's \<Rightarrow> (int \<times> 's) option"
    and remove :: "nat \<Rightarrow> 's \<Rightarrow> 's"
  assumes install_one: "ready s \<Longrightarrow> \<exists>r s'. install i s = Some (r, s') \<and> ready s' \<and>
       active s' = (if r = 0 then insert i (active s) else active s)"
    and remove_one: "ready s \<Longrightarrow> ready (remove i s) \<and> active (remove i s) = active s - {i}"
begin

lemma remove_down_active:
  "ready s \<Longrightarrow> ready (remove_down remove n s) \<and> active (remove_down remove n s) = active s - {..<n}"
  by (induction n arbitrary: s) (auto simp: remove_one lessThan_Suc)

lemma remove_all_active:
  "ready s \<Longrightarrow> ready (fold remove is s) \<and> active (fold remove is s) = active s - set is"
  by (induction "is" arbitrary: s) (auto simp: remove_one)

text \<open>All or nothing.\<close>

lemma install_from_active:
  assumes "ready s" and "i \<le> n" and "active s \<inter> {i..<n} = {}"
  shows "\<exists>r s'. install_from install remove n i s = Some (r, s') \<and> ready s' \<and>
     active s' = (if r = 0 then active s \<union> {i..<n} else active s - {..<i})"
  using assms
proof (induction "n - i" arbitrary: i s)
  case 0
  then show ?case by (subst install_from.simps) auto
next
  case (Suc k)
  then have i: "i < n" by simp
  obtain r s1 where s1: "install i s = Some (r, s1)" "ready s1"
    and a: "active s1 = (if r = 0 then insert i (active s) else active s)"
    using install_one [OF Suc.prems(1), of i] by blast
  show ?case
  proof (cases "r = 0")
    case False
    have "install_from install remove n i s = Some (r, remove_down remove i s1)"
      using i s1 False by (subst install_from.simps) simp
    then show ?thesis using remove_down_active [OF s1(2), of i] False a by simp
  next
    case True
    have run: "install_from install remove n i s = install_from install remove n (Suc i) s1"
      using i s1 True by (subst install_from.simps) simp
    have iv: "{i..<n} = insert i {Suc i..<n}" using i by auto
    have a1: "active s1 = insert i (active s)" using a True by simp
    have "k = n - Suc i" "Suc i \<le> n" using Suc.hyps(2) i by simp_all
    moreover have "active s1 \<inter> {Suc i..<n} = {}" using Suc.prems(3) unfolding iv a1 by auto
    ultimately obtain r' s' where s': "install_from install remove n (Suc i) s1 = Some (r', s')" "ready s'"
      "active s' = (if r' = 0 then active s1 \<union> {Suc i..<n} else active s1 - {..<Suc i})"
      using Suc.hyps(1) [of "Suc i" s1] s1(2) by blast
    have "i \<notin> active s" using Suc.prems(3) unfolding iv by simp
    then have "active s1 - {..<Suc i} = active s - {..<i}" unfolding a1 lessThan_Suc by blast
    moreover have "active s1 \<union> {Suc i..<n} = active s \<union> {i..<n}" unfolding iv a1 by simp
    ultimately have "active s' = (if r' = 0 then active s \<union> {i..<n} else active s - {..<i})"
      using s'(3) by simp
    with s'(1,2) show ?thesis unfolding run by blast
  qed
qed

end

text \<open>The hooks of the module, on a kernel whose kprobes work. Neither operation touches the list of
  \<open>hook.c\<close>.\<close>

definition fh_ready ::
  "('f, 'k) ftrace_kernel_scheme \<Rightarrow> ('f \<Rightarrow> ops set) \<Rightarrow> nat list \<Rightarrow> 's \<Rightarrow> ('f, 's) fh_state_scheme \<Rightarrow> bool" where
  "fh_ready K act ns rest s \<longleftrightarrow>
     ftrace_laws K act \<and> (KPROBE_LOOKUP K \<longrightarrow> kprobe_kallsyms K \<noteq> 0) \<and> hooks_ok act ns s \<and>
     fh_state.more s = rest"

lemma hooks_ok_cong:
  assumes "hooks_ok act ns s" and "hook_links s' = hook_links s" and "hook_heap s' = hook_heap s"
    and "\<And>n. Hook_ops n \<in> act (ft s') \<longleftrightarrow> Hook_ops n \<in> act (ft s)" and "alloc_next s' = alloc_next s"
  shows "hooks_ok act ns s'"
  using assms by (simp add: hooks_ok_def)

lemma fh_install_one:
  assumes "fh_ready K act ns rest s"
  shows "\<exists>r s'. fh_install_hook K i s = Some (r, s') \<and> fh_ready K act ns rest s' \<and>
     fh_active act s' = (if r = 0 then insert i (fh_active act s) else fh_active act s)"
proof -
  have laws: "ftrace_laws K act" and kp: "KPROBE_LOOKUP K \<longrightarrow> kprobe_kallsyms K \<noteq> 0" and ok: "hooks_ok act ns s"
    and rest: "fh_state.more s = rest" using assms by (simp_all add: fh_ready_def)
  have "\<exists>e s1. fh_resolve_hook_address K i s = Some (e, s1) \<and> ft s1 = ft s \<and>
      hook_links s1 = hook_links s \<and> hook_heap s1 = hook_heap s \<and> alloc_next s1 = alloc_next s \<and>
      fh_state.more s1 = fh_state.more s"
    by (cases "KPROBE_LOOKUP K"; cases "kallsyms K (fh_name (fh_hooks s i)) = 0")
      (use kp in \<open>simp_all add: fh_resolve_hook_address_def call_kallsyms_def put_fh_def Let_def\<close>)
  then obtain e s1 where res: "fh_resolve_hook_address K i s = Some (e, s1)" and s1: "ft s1 = ft s"
    "hook_links s1 = hook_links s" "hook_heap s1 = hook_heap s" "alloc_next s1 = alloc_next s"
    "fh_state.more s1 = fh_state.more s"
    by blast
  let ?x = "fh_ops_init K"
  define s2 where "s2 = put_fh i ((fh_hooks s1 i)\<lparr>fh_ftrace_ops := ?x\<rparr>) s1"
  have s2: "ft s2 = ft s" "hook_links s2 = hook_links s" "hook_heap s2 = hook_heap s" "alloc_next s2 = alloc_next s"
    "fh_state.more s2 = fh_state.more s"
    by (simp_all add: s2_def put_fh_def s1)
  obtain r1 f1 where f1: "ft_set_filter_ip K (Fh_ops i) (fh_address (fh_hooks s2 i)) False (ft s2) = (r1, f1)"
    by (cases "ft_set_filter_ip K (Fh_ops i) (fh_address (fh_hooks s2 i)) False (ft s2)")
  obtain r2 f2 where f2: "ft_register K (Fh_ops i) ?x f1 = (r2, f2)" by (cases "ft_register K (Fh_ops i) ?x f1")
  have a: "act f1 = act (ft s)" "act f2 = (if r2 = 0 then insert (Fh_ops i) (act (ft s)) else act (ft s))"
    using ftrace_lawsD(2) [OF laws f1] ftrace_lawsD(3) [OF laws f2] by (simp_all add: s2)
  have run: "fh_install_hook K i s =
      (if e \<noteq> 0 then Some (e, s1) else if r1 \<noteq> 0 then Some (r1, s2\<lparr>ft := f1\<rparr>) else Some (r2, s2\<lparr>ft := f2\<rparr>))"
    using f1 f2 by (simp add: fh_install_hook_def res Let_def s2_def)
  have keep: "fh_ready K act ns rest s1" "fh_ready K act ns rest (s2\<lparr>ft := f1\<rparr>)" "fh_ready K act ns rest (s2\<lparr>ft := f2\<rparr>)"
    unfolding fh_ready_def using laws kp rest
    by (auto intro!: hooks_ok_cong [OF ok] simp: s1 s2 a split: if_splits)
  show ?thesis
    unfolding run using keep by (auto simp: fh_active_def s1 s2 a)
qed

lemma fh_remove_one:
  assumes "fh_ready K act ns rest s"
  shows "fh_ready K act ns rest (fh_remove_hook K i s) \<and> fh_active act (fh_remove_hook K i s) = fh_active act s - {i}"
proof -
  have laws: "ftrace_laws K act" and kp: "KPROBE_LOOKUP K \<longrightarrow> kprobe_kallsyms K \<noteq> 0" and ok: "hooks_ok act ns s"
    and rest: "fh_state.more s = rest" using assms by (simp_all add: fh_ready_def)
  obtain r1 f1 where f1: "ft_unregister K (Fh_ops i) (ft s) = (r1, f1)" by (cases "ft_unregister K (Fh_ops i) (ft s)")
  obtain r2 f2 where f2: "ft_set_filter_ip K (Fh_ops i) (fh_address (fh_hooks s i)) True f1 = (r2, f2)"
    by (cases "ft_set_filter_ip K (Fh_ops i) (fh_address (fh_hooks s i)) True f1")
  have a: "act f2 = act (ft s) - {Fh_ops i}"
    using ftrace_lawsD(4,5) [OF laws f1] ftrace_lawsD(2) [OF laws f2] by auto
  have run: "fh_remove_hook K i s = s\<lparr>ft := f2\<rparr>" by (simp add: fh_remove_hook_def f1 f2 Let_def)
  have "hooks_ok act ns (s\<lparr>ft := f2\<rparr>)" by (rule hooks_ok_cong [OF ok]) (simp_all add: a)
  then show ?thesis using laws kp rest by (auto simp: run fh_ready_def fh_active_def a)
qed

interpretation fh: installer "fh_ready K act ns rest" "fh_active act" "fh_install_hook K" "fh_remove_hook K"
  for K :: "('f, 'k) ftrace_kernel_scheme" and act :: "'f \<Rightarrow> ops set" and ns :: "nat list" and rest :: 's
  by unfold_locales (rule fh_install_one fh_remove_one; assumption)+

lemma install_hooks_ok:
  assumes "ftrace_laws K act" and "KPROBE_LOOKUP K \<longrightarrow> kprobe_kallsyms K \<noteq> 0" and "hooks_ok act ns s"
    and "fh_active act s \<inter> {0..<count} = {}"
  shows "\<exists>r s'. fh_install_hooks K count s = Some (r, s') \<and> hooks_ok act ns s' \<and>
     fh_state.more s' = fh_state.more s \<and>
     fh_active act s' = (if r = 0 then fh_active act s \<union> {0..<count} else fh_active act s)"
proof -
  have "fh_ready K act ns (fh_state.more s) s" using assms by (simp add: fh_ready_def)
  from fh.install_from_active [OF this le0 assms(4)] show ?thesis
    by (auto simp: fh_install_hooks_def fh_ready_def)
qed

lemma remove_hooks_ok:
  assumes "ftrace_laws K act" and "KPROBE_LOOKUP K \<longrightarrow> kprobe_kallsyms K \<noteq> 0" and "hooks_ok act ns s"
  shows "hooks_ok act ns (fh_remove_hooks K count s) \<and>
     fh_active act (fh_remove_hooks K count s) = fh_active act s - {0..<count}"
proof -
  have "fh_ready K act ns (fh_state.more s) s" using assms by (simp add: fh_ready_def)
  from fh.remove_all_active [OF this, of "[0..<count]"] show ?thesis
    by (simp add: fh_remove_hooks_def fh_ready_def)
qed

text \<open>C22. \<open>fh_install_hooks\<close> ends and is all or nothing: when it answers 0 every hook of the array is
  registered, and otherwise exactly those that were registered before. The list of \<open>hook.c\<close> is as
  it was.\<close>

theorem fh_install_hooks_all_or_nothing:
  assumes "ftrace_laws K act" and "KPROBE_LOOKUP K \<longrightarrow> kprobe_kallsyms K \<noteq> 0" and "hooks_ok act ns s"
    and "fh_active act s \<inter> {0..<count} = {}"
  shows "\<exists>r s'. fh_install_hooks K count s = Some (r, s') \<and> hooks_ok act ns s' \<and>
     fh_state.more s' = fh_state.more s \<and>
     fh_active act s' = (if r = 0 then fh_active act s \<union> {0..<count} else fh_active act s)"
  using assms by (rule install_hooks_ok)

text \<open>\<open>fh_remove_hooks\<close> unregisters the hooks of the array and no others.\<close>

theorem fh_remove_hooks_removes:
  assumes "ftrace_laws K act" and "KPROBE_LOOKUP K \<longrightarrow> kprobe_kallsyms K \<noteq> 0" and "hooks_ok act ns s"
  shows "hooks_ok act ns (fh_remove_hooks K count s) \<and>
     fh_active act (fh_remove_hooks K count s) = fh_active act s - {0..<count}"
  using assms by (rule remove_hooks_ok)

text \<open>An array of two hooks; a kernel that knows only the first name installs none.\<close>

definition demo_fh :: "ops list fh_state" where
  "demo_fh = hook_state.extend no_hooks (fh_state.fields 0
     (\<lambda>i. if i = 0 then SYSCALL_HOOK (ref_ftrace []) ''sys_exit_group'' F_sys_exit_group_hook V_sys_exit_group_orig
          else HOOK ''do_exit'' F_do_exit_hook V_do_exit_orig) (\<lambda>_. 0))"

lemma demo_fh_ok: "hooks_ok set [] demo_fh" "fh_active set demo_fh = {}"
  by (simp_all add: hooks_ok_def demo_fh_def no_hooks_def hook_state.defs fh_state.defs dlist_def fh_active_def)

lemma demo_fh_fields [simp]:
  "ft demo_fh = []" "fh_name (fh_hooks demo_fh 0) = ''__x64_sys_exit_group''" "fh_name (fh_hooks demo_fh (Suc 0)) = ''do_exit''"
  by (simp_all add: demo_fh_def no_hooks_def hook_state.defs fh_state.defs HOOK_def SYSCALL_HOOK_def SYSCALL_NAME_def)

theorem fh_install_hooks_all_or_nothing_witness:
  "(\<exists>s'. fh_install_hooks (ref_ftrace []) 2 demo_fh = Some (0, s') \<and> fh_active set s' = {0, 1}) \<and>
   (\<exists>s'. fh_install_hooks (ref_ftrace [''do_exit'']) 2 demo_fh = Some (- ENOENT, s') \<and> fh_active set s' = {})"
proof -
  have r: "map_option fst (fh_install_hooks (ref_ftrace []) 2 demo_fh) = Some 0"
    "map_option fst (fh_install_hooks (ref_ftrace [''do_exit'']) 2 demo_fh) = Some (- ENOENT)"
    by (simp_all add: fh_install_hooks_def install_from.simps fh_install_hook_def fh_resolve_hook_address_def
        call_kallsyms_def put_fh_def Let_def ENOENT_def)
  have k: "KPROBE_LOOKUP (ref_ftrace bad) \<longrightarrow> kprobe_kallsyms (ref_ftrace bad) \<noteq> 0" for bad by simp
  have e: "fh_active set demo_fh \<inter> {0..<2} = {}" by (simp add: demo_fh_ok)
  show ?thesis
    using fh_install_hooks_all_or_nothing [OF ref_ftrace_laws [of "[]"] k demo_fh_ok(1) e]
      fh_install_hooks_all_or_nothing [OF ref_ftrace_laws [of "[''do_exit'']"] k demo_fh_ok(1) e] r
    by (auto simp: demo_fh_ok ENOENT_def)
qed

theorem fh_remove_hooks_removes_witness:
  "fh_active set (fh_remove_hooks (ref_ftrace []) 2 (demo_fh\<lparr>ft := [Fh_ops 0, Fh_ops 1, Fh_ops 5]\<rparr>)) = {5}"
proof -
  let ?s = "demo_fh\<lparr>ft := [Fh_ops 0, Fh_ops 1, Fh_ops 5]\<rparr>"
  have k: "KPROBE_LOOKUP (ref_ftrace []) \<longrightarrow> kprobe_kallsyms (ref_ftrace []) \<noteq> 0" by simp
  have ok: "hooks_ok set [] ?s" using demo_fh_ok(1) by (simp add: hooks_ok_def)
  have "fh_active set ?s = {0, 1, 5}" by (auto simp: fh_active_def)
  then show ?thesis using fh_remove_hooks_removes [OF ref_ftrace_laws k ok, of 2] by auto
qed

end
