(* ===== verification/Loading.thy ===== *)
theory Loading
  imports Ftrace_Helper
begin

text \<open>
  Loading and unloading the module: \<open>mod_init\<close> and \<open>mod_exit\<close> of \<open>src/module.c\<close>, with the
  symbols they look up. The ioctls are in theory \<open>Device\<close>.
\<close>

section \<open>State\<close>

text \<open>\<open>resolved\<close> holds the six function pointers for functions the kernel does not export, under
  the name of the function; \<open>misc_registered\<close> says that the device exists.\<close>

record 'f module_state = "'f fh_state" +
  misc_registered :: bool
  resolved :: "string \<Rightarrow> u64"

definition non_exported :: "string list" where
  "non_exported =
     [''flush_tlb_mm_range'', ''zap_page_range'', ''dup_fd'', ''put_files_struct'', ''walk_page_vma'', ''walk_page_range'']"

definition ftrace_hooks :: "('f, 'k) ftrace_kernel_scheme \<Rightarrow> ftrace_hook list" where
  "ftrace_hooks K =
     [SYSCALL_HOOK K ''sys_exit_group'' F_sys_exit_group_hook V_sys_exit_group_orig,
      HOOK ''do_exit'' F_do_exit_hook V_do_exit_orig]"

section \<open>Operations\<close>

primrec lookup_symbols ::
  "('f, 'k) ftrace_kernel_scheme \<Rightarrow> string list \<Rightarrow> ('f, 's) module_state_scheme \<Rightarrow> ('f, 's) module_state_scheme option" where
  "lookup_symbols K [] s = Some s"
| "lookup_symbols K (name # names) s =
     do { a \<leftarrow> call_kallsyms K name s;
          lookup_symbols K names (s\<lparr>resolved := (resolved s)(name := a)\<rparr>) }"

definition resolve_non_exported_symbols ::
  "('f, 'k) ftrace_kernel_scheme \<Rightarrow> ('f, 's) module_state_scheme \<Rightarrow> (int \<times> ('f, 's) module_state_scheme) option" where
  "resolve_non_exported_symbols K s =
     do { s1 \<leftarrow> lookup_symbols K non_exported s;
          if list_ex (\<lambda>name. resolved s1 name = 0) non_exported then Some (- ENOENT, s1) else Some (0, s1) }"

definition misc_deregister :: "('f, 's) module_state_scheme \<Rightarrow> ('f, 's) module_state_scheme" where
  "misc_deregister s = s\<lparr>misc_registered := False\<rparr>"

text \<open>The label \<open>err_hooks\<close>.\<close>

definition undo_hooks ::
  "('f, 'k) ftrace_kernel_scheme \<Rightarrow> int \<Rightarrow> ('f, 's) module_state_scheme \<Rightarrow> (int \<times> ('f, 's) module_state_scheme) option" where
  "undo_hooks K res s = do { s1 \<leftarrow> unhook_all K s; Some (res, misc_deregister s1) }"

definition mod_init ::
  "('f, 'k) ftrace_kernel_scheme \<Rightarrow> ('f, 's) module_state_scheme \<Rightarrow> (int \<times> ('f, 's) module_state_scheme) option" where
  "mod_init K s =
     (let res = misc_register_result K
      in if res \<noteq> 0 then Some (res, s)
         else let s1 = s\<lparr>misc_registered := True\<rparr> in
         do { (res, s2) \<leftarrow> fh_install_hooks K (length (ftrace_hooks K)) s1;
              if res \<noteq> 0 then Some (res, misc_deregister s2)
              else let (e, s3) = try_hook K ''do_wp_page'' H_do_wp_page_hook s2
              in if e \<noteq> 0 then undo_hooks K (- ENOENT) s3
              else let (e, s4) = try_hook K ''page_add_new_anon_rmap'' H_page_add_new_anon_rmap_hook s3
              in if e \<noteq> 0 then undo_hooks K (- ENOENT) s4
              else let (e, s5) = try_hook K ''__do_munmap'' H_do_munmap_hook s4
              in if e \<noteq> 0 then undo_hooks K (- ENOENT) s5
              else do {
                (res, s6) \<leftarrow> resolve_non_exported_symbols K s5;
                if res \<noteq> 0 then undo_hooks K res s6 else Some (0, s6) } })"

definition mod_exit ::
  "('f, 'k) ftrace_kernel_scheme \<Rightarrow> ('f, 's) module_state_scheme \<Rightarrow> ('f, 's) module_state_scheme option" where
  "mod_exit K s =
     do { s1 \<leftarrow> unhook_all K s;
          Some (misc_deregister (fh_remove_hooks K (length (ftrace_hooks K)) s1)) }"

section \<open>What loading does\<close>

text \<open>The state in which the kernel starts \<open>mod_init\<close>: nothing is registered and the array holds its
  initial values.\<close>

definition unloaded :: "('f, 'k) ftrace_kernel_scheme \<Rightarrow> ('f \<Rightarrow> ops set) \<Rightarrow> ('f, 's) module_state_scheme \<Rightarrow> bool" where
  "unloaded K act s \<longleftrightarrow>
     hooks_ok act [] s \<and> fh_active act s = {} \<and> \<not> misc_registered s \<and>
     (\<forall>i < length (ftrace_hooks K). fh_hooks s i = ftrace_hooks K ! i)"

definition fully_hooked :: "('f, 'k) ftrace_kernel_scheme \<Rightarrow> ('f \<Rightarrow> ops set) \<Rightarrow> ('f, 's) module_state_scheme \<Rightarrow> bool" where
  "fully_hooked K act s \<longleftrightarrow>
     fh_active act s = {0, 1} \<and> misc_registered s \<and> (\<forall>name \<in> set non_exported. resolved s name \<noteq> 0) \<and>
     (\<exists>n1 n2 n3. hooks_ok act [n3, n2, n1] s \<and>
        hook_heap s n1 = Some \<lparr>symbol_name = ''do_wp_page'', hook_fops = hook_ftrace_ops K H_do_wp_page_hook\<rparr> \<and>
        hook_heap s n2 = Some \<lparr>symbol_name = ''page_add_new_anon_rmap'', hook_fops = hook_ftrace_ops K H_page_add_new_anon_rmap_hook\<rparr> \<and>
        hook_heap s n3 = Some \<lparr>symbol_name = ''__do_munmap'', hook_fops = hook_ftrace_ops K H_do_munmap_hook\<rparr>)"

definition ftrace_ok :: "('f, 'k) ftrace_kernel_scheme \<Rightarrow> ('f \<Rightarrow> ops set) \<Rightarrow> bool" where
  "ftrace_ok K act \<longleftrightarrow> ftrace_laws K act \<and> (KPROBE_LOOKUP K \<longrightarrow> kprobe_kallsyms K \<noteq> 0)"

lemma lookup_symbols_ok:
  assumes "KPROBE_LOOKUP K \<longrightarrow> kallsyms_lookup_name_var s \<noteq> 0"
  shows "\<exists>r. lookup_symbols K names s = Some (s\<lparr>resolved := r\<rparr>)"
  using assms
proof (induction names arbitrary: s)
  case Nil
  have "s = s\<lparr>resolved := resolved s\<rparr>" by simp
  then show ?case by (metis lookup_symbols.simps(1))
next
  case (Cons name names)
  have a: "call_kallsyms K name s = Some (kallsyms K name)" using Cons.prems by (simp add: call_kallsyms_def)
  let ?s = "s\<lparr>resolved := (resolved s)(name := kallsyms K name)\<rparr>"
  obtain r where "lookup_symbols K names ?s = Some (?s\<lparr>resolved := r\<rparr>)" using Cons.IH [of ?s] Cons.prems by auto
  then show ?case by (auto simp: a)
qed

lemma resolve_ok:
  assumes "KPROBE_LOOKUP K \<longrightarrow> kallsyms_lookup_name_var s \<noteq> 0"
  obtains r res where "resolve_non_exported_symbols K s = Some (res, s\<lparr>resolved := r\<rparr>)"
    and "res = 0 \<Longrightarrow> \<forall>name \<in> set non_exported. r name \<noteq> 0"
proof -
  obtain r where r: "lookup_symbols K non_exported s = Some (s\<lparr>resolved := r\<rparr>)" using lookup_symbols_ok [OF assms] by blast
  show ?thesis
  proof (cases "list_ex (\<lambda>name. r name = 0) non_exported")
    case True
    show ?thesis by (rule that [of "- ENOENT" r]) (use True r in \<open>simp_all add: resolve_non_exported_symbols_def ENOENT_def\<close>)
  next
    case False
    show ?thesis
      by (rule that [of 0 r]) (use False r in \<open>auto simp: resolve_non_exported_symbols_def list_ex_iff\<close>)
  qed
qed

text \<open>The first hook that is installed finds \<open>kallsyms_lookup_name\<close>.\<close>

lemma install_hook_kallsyms:
  "fh_install_hook K i s = Some (r, s') \<Longrightarrow> KPROBE_LOOKUP K \<Longrightarrow> kallsyms_lookup_name_var s' = kprobe_kallsyms K"
  by (auto simp: fh_install_hook_def fh_resolve_hook_address_def put_fh_def Let_def
      split: Option.bind_splits if_splits prod.splits)

lemma install_hooks_kallsyms:
  assumes "fh_install_hooks K (Suc n) s = Some (0, s')" and "KPROBE_LOOKUP K"
  shows "kallsyms_lookup_name_var s' = kprobe_kallsyms K"
proof -
  let ?loop = "install_from (fh_install_hook K) (fh_remove_hook K)"
  have "kallsyms_lookup_name_var s' = kprobe_kallsyms K" if "?loop m i s = Some (0, s')" "i < m" for m i s
    using that
  proof (induction "m - i" arbitrary: i s)
    case (Suc k)
    note unroll = Suc.prems(1) [unfolded install_from.simps [of _ _ m i s] if_P [OF Suc.prems(2)]]
    obtain r s1 where s1: "fh_install_hook K i s = Some (r, s1)"
    proof (cases "fh_install_hook K i s")
      case None
      with unroll show ?thesis by simp
    next
      case (Some a)
      then show ?thesis by (cases a) (rule that, simp)
    qed
    note unroll1 = unroll [unfolded s1 Option.bind.bind_lunit prod.case]
    have "r = 0" by (rule ccontr) (use unroll1 in simp)
    then have rest: "?loop m (Suc i) s1 = Some (0, s')" using unroll1 by simp
    show ?case
    proof (cases "Suc i < m")
      case True
      have "k = m - Suc i" using Suc.hyps(2) by simp
      from Suc.hyps(1) [OF this rest True] show ?thesis .
    next
      case False
      note last = rest [unfolded install_from.simps [of _ _ m "Suc i"] if_not_P [OF False]]
      then have "s' = s1" by simp
      then show ?thesis using install_hook_kallsyms [OF s1 assms(2)] by simp
    qed
  qed simp
  from this [OF assms(1) [unfolded fh_install_hooks_def]] show ?thesis by simp
qed

lemma more_fields:
  assumes "hook_state.more s' = hook_state.more s"
  shows "kallsyms_lookup_name_var s' = kallsyms_lookup_name_var s" and "misc_registered s' = misc_registered s"
  using assms by (cases s, cases s', simp)+

lemma misc_deregister_simps [simp]:
  "hooks_ok act ns (misc_deregister s) = hooks_ok act ns s" "fh_active act (misc_deregister s) = fh_active act s"
  "\<not> misc_registered (misc_deregister s)"
  by (simp_all add: misc_deregister_def hooks_ok_def fh_active_def)

text \<open>\<open>backed_out act A s\<close>: the hooks of \<open>hook.c\<close> and the device are gone, and of the array those in
  \<open>A\<close> are still installed.\<close>

definition backed_out :: "('f \<Rightarrow> ops set) \<Rightarrow> nat set \<Rightarrow> ('f, 's) module_state_scheme \<Rightarrow> bool" where
  "backed_out act A s \<longleftrightarrow> hooks_ok act [] s \<and> fh_active act s = A \<and> \<not> misc_registered s"

lemma undo_hooks_ok:
  assumes "hooks_ok act ns s" and "ftrace_laws K act"
  shows "\<exists>s'. undo_hooks K res s = Some (res, s') \<and> backed_out act (fh_active act s) s'"
proof -
  obtain s' where "unhook_all K s = Some s'" "hooks_ok act [] s'" "fh_active act s' = fh_active act s"
    by (rule unhook_all_ok [OF assms])
  then show ?thesis by (simp add: undo_hooks_def backed_out_def)
qed

lemma mod_init_run:
  assumes k: "ftrace_ok K act" and start: "unloaded K act s"
  obtains (device) "misc_register_result K \<noteq> 0" "mod_init K s = Some (misc_register_result K, s)"
  | (array) r s' where "r \<noteq> 0" "mod_init K s = Some (r, s')" "backed_out act {} s'"
      "\<And>s2. fh_install_hooks K (length (ftrace_hooks K)) (s\<lparr>misc_registered := True\<rparr>) \<noteq> Some (0, s2)"
  | (later) r s' where "r \<noteq> 0" "mod_init K s = Some (r, s')" "backed_out act {0, 1} s'"
  | (loaded) s' where "mod_init K s = Some (0, s')" "fully_hooked K act s'"
proof (cases "misc_register_result K = 0")
  case False
  then show ?thesis by (rule_tac device) (simp_all add: mod_init_def Let_def)
next
  case True
  have laws: "ftrace_laws K act" and kp: "KPROBE_LOOKUP K \<longrightarrow> kprobe_kallsyms K \<noteq> 0"
    using k by (simp_all add: ftrace_ok_def)
  let ?s1 = "s\<lparr>misc_registered := True\<rparr>"
  have ok1: "hooks_ok act [] ?s1" "fh_active act ?s1 = {}"
    using start by (simp_all add: unloaded_def hooks_ok_def fh_active_def)
  have two: "length (ftrace_hooks K) = Suc (Suc 0)" by (simp add: ftrace_hooks_def)
  obtain r2 s2 where run2: "fh_install_hooks K (Suc (Suc 0)) ?s1 = Some (r2, s2)" and ok2: "hooks_ok act [] s2"
    and a2: "fh_active act s2 = (if r2 = 0 then {0..<Suc (Suc 0)} else {})" and m2: "fh_state.more s2 = fh_state.more ?s1"
    using install_hooks_ok [OF laws kp ok1(1), of "Suc (Suc 0)"] ok1(2) by auto
  have misc2: "misc_registered s2" using m2 by (cases s, cases s2) simp
  obtain e3 s3 where run3: "try_hook K ''do_wp_page'' H_do_wp_page_hook s2 = (e3, s3)" by (rule prod.exhaust)
  obtain e4 s4 where run4: "try_hook K ''page_add_new_anon_rmap'' H_page_add_new_anon_rmap_hook s3 = (e4, s4)" by (rule prod.exhaust)
  obtain e5 s5 where run5: "try_hook K ''__do_munmap'' H_do_munmap_hook s4 = (e5, s5)" by (rule prod.exhaust)
  have run: "mod_init K s =
      (if r2 \<noteq> 0 then Some (r2, misc_deregister s2)
       else if e3 \<noteq> 0 then undo_hooks K (- ENOENT) s3
       else if e4 \<noteq> 0 then undo_hooks K (- ENOENT) s4
       else if e5 \<noteq> 0 then undo_hooks K (- ENOENT) s5
       else do { (res, s6) \<leftarrow> resolve_non_exported_symbols K s5;
                 if res \<noteq> 0 then undo_hooks K res s6 else Some (0, s6) })"
    using True run2 by (simp add: mod_init_def Let_def two run3 run4 run5)
  have enoent: "- ENOENT \<noteq> 0" by (simp add: ENOENT_def)
  show ?thesis
  proof (cases "r2 = 0")
    case False
    then show ?thesis using ok2 a2 by (rule_tac array [of r2 "misc_deregister s2"]) (simp_all add: run run2 two backed_out_def)
  next
    case r2: True
    have "{0..<Suc (Suc 0)} = {0, 1 :: nat}" by auto
    then have a2': "fh_active act s2 = {0, 1}" using a2 unfolding r2 by simp
    have kv: "KPROBE_LOOKUP K \<longrightarrow> kallsyms_lookup_name_var s2 \<noteq> 0"
    proof
      assume "KPROBE_LOOKUP K"
      then show "kallsyms_lookup_name_var s2 \<noteq> 0"
        using install_hooks_kallsyms [OF run2 [unfolded r2]] kp by metis
    qed
    have failing: thesis
      if "mod_init K s = undo_hooks K res u" "hooks_ok act ns u" "fh_active act u = {0, 1}" "res \<noteq> 0" for res ns u
      using undo_hooks_ok [OF that(2) laws, of res] that later by auto
    from ok2 laws run3 show ?thesis
    proof (cases rule: try_hook_cases)
      case failed
      then show ?thesis using run r2 a2' enoent
        by (rule_tac failing [where res = "- ENOENT" and u = s3 and ns = "[]"]) simp_all
    next
      case n1: (hooked n1)
      from n1(3) laws run4 show ?thesis
      proof (cases rule: try_hook_cases)
        case failed
        then show ?thesis using run r2 n1 a2' enoent
          by (rule_tac failing [where res = "- ENOENT" and u = s4 and ns = "[n1]"]) simp_all
      next
        case n2: (hooked n2)
        from n2(3) laws run5 show ?thesis
        proof (cases rule: try_hook_cases)
          case failed
          then show ?thesis using run r2 n1 n2 a2' enoent
            by (rule_tac failing [where res = "- ENOENT" and u = s5 and ns = "[n2, n1]"]) simp_all
        next
          case n3: (hooked n3)
          have more: "hook_state.more s5 = hook_state.more s2" using n1 n2 n3 by simp
          have "KPROBE_LOOKUP K \<longrightarrow> kallsyms_lookup_name_var s5 \<noteq> 0" using kv by (simp add: more_fields [OF more])
          then obtain r res where res: "resolve_non_exported_symbols K s5 = Some (res, s5\<lparr>resolved := r\<rparr>)"
            and good: "res = 0 \<Longrightarrow> \<forall>name \<in> set non_exported. r name \<noteq> 0" by (rule resolve_ok) blast
          let ?s6 = "s5\<lparr>resolved := r\<rparr>"
          have ok6: "hooks_ok act [n3, n2, n1] ?s6" "fh_active act ?s6 = {0, 1}"
            using n3 n2 n1 a2' by (simp_all add: hooks_ok_def fh_active_def)
          have run': "mod_init K s = (if res \<noteq> 0 then undo_hooks K res ?s6 else Some (0, ?s6))"
            using run r2 n1 n2 n3 res by simp
          show ?thesis
          proof (cases "res = 0")
            case False
            then show ?thesis using run' ok6
              by (rule_tac failing [where res = res and u = ?s6 and ns = "[n3, n2, n1]"]) simp_all
          next
            case ok: True
            have "distinct [n3, n2, n1]" using hooks_okD(1) [OF ok6(1)] .
            then have d: "n2 \<noteq> n3" "n1 \<noteq> n3" "n1 \<noteq> n2" by auto
            have "fully_hooked K act ?s6"
              unfolding fully_hooked_def
            proof (intro conjI exI)
              show "hooks_ok act [n3, n2, n1] ?s6" "fh_active act ?s6 = {0, 1}" by (rule ok6)+
              show "misc_registered ?s6" using more_fields(2) [OF more] misc2 by simp
              show "\<forall>name \<in> set non_exported. resolved ?s6 name \<noteq> 0" using good [OF ok] by simp
            qed (simp_all add: n1(4) n2(4) n3(4) d)
            with run' ok show ?thesis by (intro loaded) simp_all
          qed
        qed
      qed
    qed
  qed
qed

text \<open>C20. Loading ends. It answers 0 with everything in place: the device, both hooks of the array, the
  three hooks of \<open>hook.c\<close> with their handlers, and all six symbols. Otherwise the device and the
  hooks of \<open>hook.c\<close> are gone again.\<close>

theorem mod_init_outcome:
  assumes "ftrace_ok K act" and "unloaded K act s"
  shows "\<exists>r s'. mod_init K s = Some (r, s') \<and>
     (if r = 0 then fully_hooked K act s' else backed_out act (fh_active act s') s')"
  using assms
proof (cases rule: mod_init_run)
  case device
  with assms(2) show ?thesis by (simp add: unloaded_def backed_out_def)
qed (auto simp: backed_out_def)

text \<open>C32. But the error path forgets the hooks of the array: when a later step fails, \<open>mod_init\<close> answers
  an error, so the kernel discards the module, while the hooks on \<open>exit_group\<close> and \<open>do_exit\<close> stay
  registered and will run in freed memory.\<close>

theorem mod_init_leaves_hooks:
  assumes "ftrace_ok K act" and "unloaded K act s" and "misc_register_result K = 0"
    and "fh_install_hooks K (length (ftrace_hooks K)) (s\<lparr>misc_registered := True\<rparr>) = Some (0, s1)"
    and "mod_init K s = Some (r, s')" and "r \<noteq> 0"
  shows "fh_active act s' = {0, 1} \<and> \<not> misc_registered s'"
  using assms(1,2)
proof (cases rule: mod_init_run)
  case array
  with assms(4) show ?thesis by blast
next
  case later
  with assms(5) show ?thesis by (simp add: backed_out_def)
qed (use assms(3,5,6) in simp_all)

text \<open>C21. Unloading undoes a successful load: no hook of the module stays registered, every hook object is
  freed and the device is gone.\<close>

theorem unload_undoes_load:
  assumes "ftrace_ok K act" and "unloaded K act s" and "mod_init K s = Some (0, s')"
  shows "\<exists>s''. mod_exit K s' = Some s'' \<and> (\<forall>n. Hook_ops n \<notin> act (ft s'') \<and> Fh_ops n \<notin> act (ft s'')) \<and>
     hook_heap s'' = Map.empty \<and> \<not> misc_registered s''"
proof -
  have laws: "ftrace_laws K act" and kp: "KPROBE_LOOKUP K \<longrightarrow> kprobe_kallsyms K \<noteq> 0"
    using assms(1) by (simp_all add: ftrace_ok_def)
  have "fully_hooked K act s'" using assms(1,2) by (cases rule: mod_init_run) (use assms(3) in auto)
  then obtain n1 n2 n3 where ok: "hooks_ok act [n3, n2, n1] s'" and fh: "fh_active act s' = {0, 1}"
    unfolding fully_hooked_def by blast
  obtain s1 where s1: "unhook_all K s' = Some s1" "hooks_ok act [] s1" "fh_active act s1 = fh_active act s'"
    by (rule unhook_all_ok [OF ok laws])
  let ?s = "misc_deregister (fh_remove_hooks K (length (ftrace_hooks K)) s1)"
  have "hooks_ok act [] ?s" "fh_active act ?s = {}"
    using remove_hooks_ok [OF laws kp s1(2), of "length (ftrace_hooks K)"] fh s1(3) by (auto simp: ftrace_hooks_def)
  then have "Hook_ops n \<notin> act (ft ?s)" "Fh_ops n \<notin> act (ft ?s)" "hook_heap ?s = Map.empty" for n
    using hooks_okD(3,4) [of act "[]" ?s] by (auto simp: fh_active_def)
  then show ?thesis using s1(1) by (simp add: mod_exit_def)
qed

section \<open>A concrete kernel\<close>

definition demo_module :: "ops list module_state" where
  "demo_module = fh_state.extend demo_fh (module_state.fields False (\<lambda>_. 0))"

lemma demo_module_unloaded: "unloaded (ref_ftrace bad) set demo_module"
proof -
  have "i = 0 \<or> i = 1" if "i < length (ftrace_hooks (ref_ftrace bad))" for i
    using that by (auto simp: ftrace_hooks_def)
  then show ?thesis
    using demo_fh_ok
    by (force simp: unloaded_def demo_module_def hooks_ok_def fh_active_def fh_state.defs module_state.defs
        demo_fh_def no_hooks_def hook_state.defs ftrace_hooks_def SYSCALL_HOOK_def SYSCALL_NAME_def HOOK_def)
qed

lemma ref_ftrace_ok: "ftrace_ok (ref_ftrace bad) set"
  by (simp add: ftrace_ok_def ref_ftrace_laws)

lemma demo_module_fields [simp]:
  "ft demo_module = []" "fh_name (fh_hooks demo_module 0) = ''__x64_sys_exit_group''"
  "fh_name (fh_hooks demo_module (Suc 0)) = ''do_exit''"
  by (simp_all add: demo_module_def fh_state.defs module_state.defs demo_fh_def no_hooks_def hook_state.defs
      HOOK_def SYSCALL_HOOK_def SYSCALL_NAME_def)

lemmas loading_defs =
  mod_init_def fh_install_hooks_def install_from.simps fh_install_hook_def fh_resolve_hook_address_def
  call_kallsyms_def put_fh_def ftrace_hooks_def try_hook_def kmalloc_def resolve_non_exported_symbols_def non_exported_def

lemma ref_install:
  assumes "''__x64_sys_exit_group'' \<notin> set bad" and "''do_exit'' \<notin> set bad"
  obtains s1 where "fh_install_hooks (ref_ftrace bad) (length (ftrace_hooks (ref_ftrace bad))) (demo_module\<lparr>misc_registered := True\<rparr>) = Some (0, s1)"
  using assms by (simp add: loading_defs Let_def)

lemma ref_try_hook: "fst (try_hook (ref_ftrace bad) name h s) = (if name \<in> set bad then - EINVAL else 0)"
  by (simp add: try_hook_def kmalloc_def Let_def EINVAL_def)

lemma ref_mod_init: "\<exists>s'. mod_init (ref_ftrace []) demo_module = Some (0, s')"
  using ref_install [of "[]"] by (simp add: loading_defs Let_def)

theorem mod_init_outcome_witness:
  "\<exists>s'. mod_init (ref_ftrace []) demo_module = Some (0, s') \<and> fully_hooked (ref_ftrace []) set s'"
  using mod_init_outcome [OF ref_ftrace_ok [of "[]"] demo_module_unloaded] ref_mod_init by auto

theorem unload_undoes_load_witness:
  "\<exists>s' s''. mod_init (ref_ftrace []) demo_module = Some (0, s') \<and> mod_exit (ref_ftrace []) s' = Some s'' \<and>
     Fh_ops 0 \<notin> set (ft s'') \<and> \<not> misc_registered s''"
proof -
  obtain s' where "mod_init (ref_ftrace []) demo_module = Some (0, s')" using ref_mod_init by blast
  with unload_undoes_load [OF ref_ftrace_ok [of "[]"] demo_module_unloaded this] show ?thesis by blast
qed

text \<open>A kernel that does not let \<open>__do_munmap\<close> be hooked.\<close>

theorem mod_init_leaves_hooks_witness:
  "\<exists>r s'. mod_init (ref_ftrace [''__do_munmap'']) demo_module = Some (r, s') \<and> r \<noteq> 0 \<and>
     Fh_ops 0 \<in> set (ft s') \<and> Fh_ops 1 \<in> set (ft s') \<and> \<not> misc_registered s'"
proof -
  let ?K = "ref_ftrace [''__do_munmap'']"
  obtain s1 where inst: "fh_install_hooks ?K (length (ftrace_hooks ?K)) (demo_module\<lparr>misc_registered := True\<rparr>) = Some (0, s1)"
    by (rule ref_install [of "[''__do_munmap'']"]) simp_all
  have "\<exists>u. mod_init ?K demo_module = undo_hooks ?K (- ENOENT) u"
    using inst by (auto simp: mod_init_def Let_def ref_try_hook split_def EINVAL_def)
  then obtain u where u: "mod_init ?K demo_module = undo_hooks ?K (- ENOENT) u" by blast
  obtain r s' where run: "mod_init ?K demo_module = Some (r, s')"
    using ref_ftrace_ok [of "[''__do_munmap'']"] demo_module_unloaded by (cases rule: mod_init_run) blast+
  have "r = - ENOENT" using run u by (auto simp: undo_hooks_def split: Option.bind_splits)
  then have r: "r \<noteq> 0" by (simp add: ENOENT_def)
  have "misc_register_result ?K = 0" by simp
  from mod_init_leaves_hooks [OF ref_ftrace_ok [of "[''__do_munmap'']"] demo_module_unloaded this inst run r] run r
  show ?thesis by (auto simp: fh_active_def)
qed

end
