(* ===== verification/Page_Typing.thy ===== *)
theory Page_Typing
  imports Roundtrip
begin

text \<open>
  The shape of the page table and the dirty list, whatever the allocator does: each operation
  on them preserves it, even when \<open>kmalloc\<close> fails half way, and the loop of
  \<open>recover_memory_snapshot\<close> never gets stuck on a table of this shape. In contrast to the
  invariant of theory \<open>Memory_Invariant\<close> nothing is said about the contents of the pages.
\<close>

section \<open>Well-typed pages and tables\<close>

text \<open>A page that is marked as copied has a buffer, and the flags are the three of the header.\<close>

definition page_typed :: "snapshot_page \<Rightarrow> bool" where
  "page_typed sp \<longleftrightarrow>
     (has_been_copied sp \<longrightarrow> page_data sp \<noteq> None) \<and>
     page_prot sp AND NOT (SNAPSHOT_PRIVATE OR SNAPSHOT_COW OR SNAPSHOT_NONE_PTE) = 0"

text \<open>Every listed page is in the table, and \<open>in_dirty_list\<close> says whether a page is listed.\<close>

definition table_typed :: "'k kernel_scheme \<Rightarrow> task_data \<Rightarrow> bool" where
  "table_typed K data \<longleftrightarrow>
     pages_ok K data \<and> distinct (dirty_pages (ss data)) \<and>
     (\<forall>b. case get_snapshot_page K b data of
            None \<Rightarrow> b \<notin> set (dirty_pages (ss data))
          | Some sp \<Rightarrow> page_typed sp \<and> in_dirty_list sp = (b \<in> set (dirty_pages (ss data))))"

lemma table_typedD:
  assumes "table_typed K data"
  shows "pages_ok K data" and "distinct (dirty_pages (ss data))"
    and "get_snapshot_page K b data = Some sp \<Longrightarrow> page_typed sp"
    and "get_snapshot_page K b data = Some sp \<Longrightarrow> in_dirty_list sp = (b \<in> set (dirty_pages (ss data)))"
    and "b \<in> set (dirty_pages (ss data)) \<Longrightarrow> \<exists>sp. get_snapshot_page K b data = Some sp"
  using assms by (auto simp: table_typed_def dest: spec [of _ b] split: option.splits)

lemma page_typed_upd [simp]:
  "page_typed (sp\<lparr>dirty := x\<rparr>) = page_typed sp" "page_typed (sp\<lparr>in_dirty_list := x\<rparr>) = page_typed sp"
  "page_typed (sp\<lparr>has_had_pte := x\<rparr>) = page_typed sp"
  "page_typed (set_snapshot_page_none_pte sp) = page_typed sp"
  "page_typed (set_snapshot_page_private sp) = page_typed sp"
  "page_typed (set_snapshot_page_cow sp) = page_typed sp"
  by (simp_all add: page_typed_def page_flag_defs bit.conj_disj_distrib2)

lemma table_typed_new: "table_typed K (new_task_data t)"
  by (simp add: table_typed_def new_task_data_def zero_snapshot_def pages_ok_def get_snapshot_page_def)

section \<open>Preservation, operation by operation\<close>

text \<open>Two task data that differ in one page entry.\<close>

definition entry_typed :: "bool \<Rightarrow> snapshot_page option \<Rightarrow> bool" where
  "entry_typed listed spo =
     (case spo of None \<Rightarrow> \<not> listed | Some sp \<Rightarrow> page_typed sp \<and> in_dirty_list sp = listed)"

lemma entry_typed_simps [simp]:
  "entry_typed listed None = (\<not> listed)"
  "entry_typed listed (Some sp) = (page_typed sp \<and> in_dirty_list sp = listed)"
  by (simp_all add: entry_typed_def)

lemma table_typed_iff:
  "table_typed K data \<longleftrightarrow> pages_ok K data \<and> distinct (dirty_pages (ss data)) \<and>
     (\<forall>b. entry_typed (b \<in> set (dirty_pages (ss data))) (get_snapshot_page K b data))"
  by (simp add: table_typed_def entry_typed_def)

lemma table_typed_change:
  assumes T: "table_typed K data" and ok: "pages_ok K data'" "distinct (dirty_pages (ss data'))"
    and get: "\<And>k. k \<noteq> b \<Longrightarrow> get_snapshot_page K k data' = get_snapshot_page K k data"
    and list: "\<And>k. k \<noteq> b \<Longrightarrow> k \<in> set (dirty_pages (ss data')) \<longleftrightarrow> k \<in> set (dirty_pages (ss data))"
    and at: "entry_typed (b \<in> set (dirty_pages (ss data'))) (get_snapshot_page K b data')"
  shows "table_typed K data'"
proof -
  have "entry_typed (k \<in> set (dirty_pages (ss data'))) (get_snapshot_page K k data')" for k
  proof (cases "k = b")
    case False
    with T show ?thesis by (simp add: table_typed_iff get list)
  qed (use at in simp)
  with ok show ?thesis by (simp add: table_typed_iff)
qed

text \<open>A write to a page that leaves its key and its place on the list.\<close>

lemma table_typed_upd:
  assumes T: "table_typed K data" and f: "\<And>p. page_base (f p) = page_base p"
    and l: "\<And>p. in_dirty_list (f p) = in_dirty_list p"
    and t: "\<And>sp. get_snapshot_page K b data = Some sp \<Longrightarrow> page_typed (f sp)"
  shows "table_typed K (upd_snapshot_page K b f data)"
proof (rule table_typed_change [OF T, of _ b])
  have "entry_typed (b \<in> set (dirty_pages (ss data))) (get_snapshot_page K b data)"
    using T by (simp add: table_typed_iff)
  then show "entry_typed (b \<in> set (dirty_pages (ss (upd_snapshot_page K b f data))))
      (get_snapshot_page K b (upd_snapshot_page K b f data))"
    using table_typedD(1) [OF T] f l t by (cases "get_snapshot_page K b data") (simp_all add: page_simps)
qed (use table_typedD(1,2) [OF T] f in \<open>simp_all add: page_simps\<close>)

lemma table_typed_list:
  assumes T: "table_typed K data" and sp: "get_snapshot_page K b data = Some sp" and nl: "\<not> in_dirty_list sp"
  shows "table_typed K (upd_ss (\<lambda>x. x\<lparr>dirty_pages := dirty_pages x @ [b]\<rparr>)
           (upd_snapshot_page K b (\<lambda>p. p\<lparr>in_dirty_list := True\<rparr>) data))"
  by (rule table_typed_change [OF T, of _ b])
    (use table_typedD(1,2) [OF T] table_typedD(3,4) [OF T sp] sp nl in \<open>simp_all add: page_simps\<close>)

lemma table_typed_unlist:
  assumes T: "table_typed K data" and sp: "get_snapshot_page K b data = Some sp"
  shows "table_typed K (unlist_page K b data)"
  by (rule table_typed_change [OF T, of _ b])
    (use table_typedD(1,2) [OF T] table_typedD(3) [OF T sp] in \<open>simp_all add: unlist_page_facts [OF _ sp]\<close>)

lemma record_dirty_page_typed:
  assumes T: "table_typed K data" and run: "record_dirty_page K b pte data s = (r, data', s')"
  shows "table_typed K data'"
proof (cases "case get_snapshot_page K b data of None \<Rightarrow> True
     | Some sp \<Rightarrow> dirty sp \<or> is_snapshot_page_none_pte sp")
  case True
  then show ?thesis using record_dirty_page_skip [OF True, of pte s] T run by simp
next
  case False
  then obtain sp where sp: "get_snapshot_page K b data = Some sp" "\<not> dirty sp" "\<not> is_snapshot_page_none_pte sp"
    by (auto split: option.splits)
  define data1 where "data1 = upd_snapshot_page K b (\<lambda>p. p\<lparr>dirty := True\<rparr>) data"
  define data2 where "data2 = (if in_dirty_list sp then data1
     else upd_ss (\<lambda>x. x\<lparr>dirty_pages := dirty_pages x @ [b]\<rparr>)
            (upd_snapshot_page K b (\<lambda>p. p\<lparr>in_dirty_list := True\<rparr>) data1))"
  have T1: "table_typed K data1"
    unfolding data1_def by (rule table_typed_upd [OF T]) (simp_all add: table_typedD [OF T])
  have sp1: "get_snapshot_page K b data1 = Some (sp\<lparr>dirty := True\<rparr>)"
    using table_typedD(1) [OF T] sp by (simp add: data1_def page_simps)
  have T2: "table_typed K data2"
    using T1 table_typed_list [OF T1 sp1] by (simp add: data2_def)
  have "data' = data2 \<or> (\<exists>p. data' = upd_snapshot_page K b (\<lambda>x. x\<lparr>page_data := Some p, has_been_copied := True\<rparr>) data2)"
    using run sp by (auto simp: record_dirty_page_def Let_def data1_def data2_def split: if_splits option.splits prod.splits)
  then show ?thesis
    using T2 table_typedD(3) [OF T2] by (auto intro!: table_typed_upd simp: page_typed_def)
qed

lemma munmap_entries_typed:
  "table_typed K data \<Longrightarrow> munmap_pte_entries K m as data s = (data', s') \<Longrightarrow> table_typed K data'"
  by (induction as arbitrary: data s) (auto split: prod.splits dest: record_dirty_page_typed)

text \<open>A page added to the table is reset, whether its object is new or used again; a page that is
  used again has to be off the dirty list.\<close>

lemma add_snapshot_page_typed:
  assumes T: "table_typed K data" and run: "add_snapshot_page K b reuse data s = (r, data', s')"
    and fresh: "\<not> reuse \<Longrightarrow> get_snapshot_page K b data = None" and nl: "b \<notin> set (dirty_pages (ss data))"
  shows "table_typed K data'" and "dirty_pages (ss data') = dirty_pages (ss data)"
    and "r = Some c \<Longrightarrow> c = b \<and> get_snapshot_page K b data' \<noteq> None"
proof -
  have reset: "page_typed (reset_page sp)" for sp by (simp add: page_typed_def reset_page_def)
  note ok = table_typedD(1) [OF T]
  consider (new) "get_snapshot_page K b data = None" "kmalloc_ok K (alloc_next s)"
    | (oom) "get_snapshot_page K b data = None" "\<not> kmalloc_ok K (alloc_next s)"
    | (again) sp where "get_snapshot_page K b data = Some sp" "reuse" using fresh by (cases "get_snapshot_page K b data") auto
  then have "table_typed K data' \<and> dirty_pages (ss data') = dirty_pages (ss data) \<and>
      (r = Some c \<longrightarrow> c = b \<and> get_snapshot_page K b data' \<noteq> None)"
  proof cases
    case new
    obtain d1 sp where "add_snapshot_page K b reuse data s = (Some b, d1, s\<lparr>alloc_next := Suc (alloc_next s)\<rparr>)"
      and d1: "pages_ok K d1" and get: "\<forall>k. get_snapshot_page K k d1 =
         (if k = b then Some (reset_page sp) else get_snapshot_page K k data)"
      and list: "dirty_pages (ss d1) = dirty_pages (ss data)"
      by (rule add_snapshot_page_new [OF ok new, of reuse]) simp
    moreover have "table_typed K d1"
      by (rule table_typed_change [OF T, of _ b]) (use d1 table_typedD(2) [OF T] nl reset in \<open>simp_all add: get list\<close>)
    ultimately show ?thesis using run get list by simp
  next
    case oom
    have "add_snapshot_page K b reuse data s = (None, data, s\<lparr>alloc_next := Suc (alloc_next s)\<rparr>)"
      by (rule add_snapshot_page_oom) (rule oom)+
    then show ?thesis using run T by simp
  next
    case again
    have "table_typed K (upd_snapshot_page K b reset_page data)"
      by (rule table_typed_change [OF T, of _ b])
        (use again(1) ok table_typedD(2) [OF T] nl reset in \<open>simp_all add: page_simps\<close>)
    moreover have "add_snapshot_page K b reuse data s = (Some b, upd_snapshot_page K b reset_page data, s)"
      using add_snapshot_page_reuse [OF ok again(1), of s] again(2) by simp
    moreover have "get_snapshot_page K b (upd_snapshot_page K b reset_page data) = Some (reset_page sp)"
      using ok again(1) by (simp add: page_simps)
    ultimately show ?thesis using run by auto
  qed
  then show "table_typed K data'" and "dirty_pages (ss data') = dirty_pages (ss data)"
    and "r = Some c \<Longrightarrow> c = b \<and> get_snapshot_page K b data' \<noteq> None" by blast+
qed

lemma make_snapshot_page_typed:
  assumes T: "table_typed K data" and nil: "dirty_pages (ss data) = []"
    and run: "make_snapshot_page K m b data s = (r, data', s')"
  shows "table_typed K data' \<and> dirty_pages (ss data') = []"
proof -
  obtain sp data1 s1 where add: "add_snapshot_page K b True data s = (sp, data1, s1)"
    by (cases "add_snapshot_page K b True data s")
  note ad = add_snapshot_page_typed [OF T add]
  have T1: "table_typed K data1" "dirty_pages (ss data1) = []" using ad(1,2) nil by simp_all
  have step: "table_typed K (upd_snapshot_page K c f d)"
    if "table_typed K d" "\<And>p. page_base (f p) = page_base p" "\<And>p. in_dirty_list (f p) = in_dirty_list p"
      "\<And>p. page_typed (f p) = page_typed p" for c f d
    using that table_typedD(3) by (intro table_typed_upd) auto
  show ?thesis
    using run T1 unfolding make_snapshot_page_def add
    by (auto simp: Let_def split: option.splits if_splits intro!: step)
qed

section \<open>Preservation by the hooks\<close>

definition typed_at :: "'k kernel_scheme \<Rightarrow> nat \<Rightarrow> 's td_state_scheme \<Rightarrow> bool" where
  "typed_at K d s \<longleftrightarrow> (\<exists>data. td_heap s d = Some data \<and> table_typed K data)"

named_theorems typing_intros \<open>operations that keep the page table of a task well typed\<close>

lemma typed_at_put [typing_intros]:
  "typed_at K d s \<Longrightarrow> (e = d \<Longrightarrow> table_typed K data) \<Longrightarrow> typed_at K d (put_td e data s)"
  by (auto simp: typed_at_def)

lemma typed_atD: "typed_at K d s \<Longrightarrow> td_heap s d = Some data \<Longrightarrow> table_typed K data"
  by (auto simp: typed_at_def)

lemma typed_at_heap: "td_heap s' = td_heap s \<Longrightarrow> typed_at K d s' = typed_at K d s"
  by (simp add: typed_at_def)

text \<open>What allocates or looks up leaves the task data alone.\<close>

lemma kmalloc_heap: "kmalloc K s = (r, s') \<Longrightarrow> td_heap s' = td_heap s"
  by (auto simp: kmalloc_def split: if_splits)

lemma lookup_heap: "get_task_data_with_cache t s = Some (r, s') \<Longrightarrow> td_heap s' = td_heap s"
  by (auto simp: get_task_data_with_cache_def Let_def split: if_splits Option.bind_splits)

lemma record_dirty_page_heap:
  "record_dirty_page K a p data s = (r, data', s') \<Longrightarrow> td_heap s' = td_heap s"
  by (auto simp: record_dirty_page_def Let_def split: option.splits if_splits prod.splits dest: kmalloc_heap)

lemma add_snapshot_page_heap:
  "add_snapshot_page K b re data s = (r, data', s') \<Longrightarrow> td_heap s' = td_heap s"
  by (auto simp: add_snapshot_page_def Let_def split: option.splits if_splits prod.splits dest: kmalloc_heap)

lemma munmap_entries_heap:
  "munmap_pte_entries K m as data s = (data', s') \<Longrightarrow> td_heap s' = td_heap s"
  by (induction as arbitrary: data s) (auto split: prod.splits dest: record_dirty_page_heap)

lemma typed_at_simps [simp]:
  "typed_at K d (s\<lparr>mem := M\<rparr>) = typed_at K d s"
  "typed_at K d (s\<lparr>this_cpu := i\<rparr>) = typed_at K d s"
  "typed_at K d (flush_tlb m st en s) = typed_at K d s"
  by (simp_all add: typed_at_def)

lemma typed_at_store:
  assumes "typed_at K d s" and "td_heap s e = Some data" and "td_heap s' = td_heap s"
    and "table_typed K data \<Longrightarrow> table_typed K data'"
  shows "typed_at K d (put_td e data' s')"
  using assms by (auto simp: typed_at_def)

lemmas typed_at_record = typed_at_store [OF _ _ record_dirty_page_heap record_dirty_page_typed]

lemma typed_at_lookup:
  "get_task_data_with_cache t s = Some (r, s1) \<Longrightarrow> typed_at K d s \<Longrightarrow> typed_at K d s1"
  by (simp add: typed_at_heap [OF lookup_heap])

lemma do_munmap_hook_typed:
  assumes T: "typed_at K d s" and run: "do_munmap_hook K m st len s = Some s'"
  shows "typed_at K d s'"
proof -
  from run obtain r s1 where look: "get_task_data_with_cache (owner s m) s = Some (r, s1)"
    by (auto simp: do_munmap_hook_def Let_def split: Option.bind_splits)
  note T1 = typed_at_lookup [OF look T]
  with run look show ?thesis
    by (auto simp: do_munmap_hook_def Let_def split: option.splits Option.bind_splits if_splits prod.splits
        intro: typed_at_store [OF T1 _ munmap_entries_heap munmap_entries_typed])
qed

lemma vm_munmap_typed:
  "typed_at K d s \<Longrightarrow> vm_munmap K m st len s = Some (r, s') \<Longrightarrow> typed_at K d s'"
  by (auto simp: vm_munmap_def Let_def do_munmap_hook_typed split: Option.bind_splits prod.splits)

lemma do_wp_page_hook_typed:
  assumes T: "typed_at K d s" and run: "do_wp_page_hook K fault s = Some (out, s')"
  shows "typed_at K d s'"
proof -
  from run obtain r s1 where look: "get_task_data_with_cache (owner s (vf_mm fault)) s = Some (r, s1)"
    by (auto simp: do_wp_page_hook_def Let_def split: Option.bind_splits)
  note T1 = typed_at_lookup [OF look T]
  with run look show ?thesis
    by (auto simp: do_wp_page_hook_def Let_def split: option.splits Option.bind_splits if_splits prod.splits
        intro: typed_at_store [OF T1 _ record_dirty_page_heap record_dirty_page_typed])
qed

text \<open>What the hook on \<open>page_add_new_anon_rmap\<close> does to the page it has found or added.\<close>

lemma mark_had_pte_typed:
  assumes T: "table_typed K data" and sp: "get_snapshot_page K b data = Some sp"
  shows "table_typed K (mark_had_pte K b data sp)"
proof -
  let ?data2 = "upd_snapshot_page K b (\<lambda>p. p\<lparr>has_had_pte := True\<rparr>) data"
  have T2: "table_typed K ?data2"
    by (rule table_typed_upd [OF T]) (simp_all add: table_typedD(3) [OF T])
  have "get_snapshot_page K b ?data2 = Some (sp\<lparr>has_had_pte := True\<rparr>)"
    using table_typedD(1) [OF T] sp by (simp add: page_simps)
  with T2 show ?thesis using table_typed_list [OF T2] by (simp add: mark_had_pte_def Let_def)
qed

lemma anon_rmap_hook_typed:
  assumes T: "typed_at K d s" and run: "page_add_new_anon_rmap_hook K m addr s = Some s'"
  shows "typed_at K d s'"
proof -
  define b where "b = addr AND PAGE_MASK"
  from run obtain r s1 where look: "get_task_data_with_cache (owner s m) s = Some (r, s1)"
    by (auto simp: page_add_new_anon_rmap_hook_def Let_def split: Option.bind_splits)
  note T1 = typed_at_lookup [OF look T]
  show ?thesis
  proof (cases "s' = s1")
    case False
    with run look obtain e data data1 s2 page where td: "td_heap s1 e = Some data"
      and add: "get_snapshot_page K b data \<noteq> None \<and> data1 = data \<and> s2 = s1 \<or>
         get_snapshot_page K b data = None \<and>
         (\<exists>c data0. add_snapshot_page K b False data s1 = (Some c, data0, s2) \<and>
            data1 = upd_snapshot_page K c set_snapshot_page_none_pte data0)"
      and page: "get_snapshot_page K b (upd_snapshot_page K b (\<lambda>p. p\<lparr>has_had_pte := True\<rparr>) data1) = Some page"
      and s': "s' = put_td e (let data2 = upd_snapshot_page K b (\<lambda>p. p\<lparr>has_had_pte := True\<rparr>) data1
           in if is_snapshot_page_none_pte page \<and> \<not> in_dirty_list page
              then upd_ss (\<lambda>x. x\<lparr>dirty_pages := dirty_pages x @ [b]\<rparr>)
                     (upd_snapshot_page K b (\<lambda>p. p\<lparr>in_dirty_list := True\<rparr>) data2)
              else data2) s2"
      by (auto simp: page_add_new_anon_rmap_hook_def Let_def b_def [symmetric]
          split: option.splits Option.bind_splits if_splits prod.splits)
    have heap: "td_heap s2 = td_heap s1" using add by (auto dest: add_snapshot_page_heap)
    show ?thesis
      unfolding s'
    proof (rule typed_at_store [OF T1 td heap])
      assume T: "table_typed K data"
      have T1: "table_typed K data1"
        using add
      proof
        assume "get_snapshot_page K b data = None \<and>
         (\<exists>c data0. add_snapshot_page K b False data s1 = (Some c, data0, s2) \<and>
            data1 = upd_snapshot_page K c set_snapshot_page_none_pte data0)"
        then obtain c data0 where none: "get_snapshot_page K b data = None"
          and run': "add_snapshot_page K b False data s1 = (Some c, data0, s2)"
          and data1: "data1 = upd_snapshot_page K c set_snapshot_page_none_pte data0" by blast
        have "b \<notin> set (dirty_pages (ss data))" using table_typedD(5) [OF T] none by fastforce
        with none have T0: "table_typed K data0" by (intro add_snapshot_page_typed(1) [OF T run'])
        show ?thesis
          unfolding data1 by (rule table_typed_upd [OF T0]) (simp_all add: table_typedD(3) [OF T0])
      qed (use T in simp)
      obtain page' where page': "get_snapshot_page K b data1 = Some page'" "page = page'\<lparr>has_had_pte := True\<rparr>"
        using page table_typedD(1) [OF T1] by (auto simp: page_simps)
      from mark_had_pte_typed [OF T1 page'(1)]
      show "table_typed K (let data2 = upd_snapshot_page K b (\<lambda>p. p\<lparr>has_had_pte := True\<rparr>) data1
           in if is_snapshot_page_none_pte page \<and> \<not> in_dirty_list page
              then upd_ss (\<lambda>x. x\<lparr>dirty_pages := dirty_pages x @ [b]\<rparr>)
                     (upd_snapshot_page K b (\<lambda>p. p\<lparr>in_dirty_list := True\<rparr>) data2)
              else data2)"
        by (simp add: mark_had_pte_def page'(2))
    qed
  qed (use T1 in simp)
qed

lemma mem_event_typed:
  assumes T: "typed_at K d s" and run: "mem_event_step K e s = Some s'"
  shows "typed_at K d s'"
proof (cases e)
  case (Write_fault m addr)
  let ?p = "pte_of (mem s) m (addr AND PAGE_MASK)"
  show ?thesis
  proof (cases "pte_present ?p \<and> \<not> pte_rw ?p")
    case True
    with run Write_fault obtain out s1 where
      hook: "do_wp_page_hook K \<lparr>vf_mm = m, vf_address = addr, vf_orig_pte = ?p\<rparr> s = Some (out, s1)"
      by (auto simp: Let_def split: Option.bind_splits)
    have T1: "typed_at K d s1" using T hook by (rule do_wp_page_hook_typed)
    with run Write_fault True hook show ?thesis
      by (auto simp: Let_def split: Option.bind_splits wp_outcome.splits if_splits dest: anon_rmap_hook_typed [OF T1])
  qed (use run T Write_fault in \<open>auto simp: Let_def\<close>)
next
  case (Anon_fault m addr)
  with run T show ?thesis
    by (auto simp: Let_def split: Option.bind_splits if_splits dest: anon_rmap_hook_typed [OF T])
next
  case (Unmap m st len)
  with run show ?thesis by (auto dest: vm_munmap_typed [OF T])
qed (use run T in \<open>auto simp: Let_def split: if_splits\<close>)

lemma run_events_typed:
  "typed_at K d s \<Longrightarrow> run_events K es s = Some s' \<Longrightarrow> typed_at K d s'"
  by (induction es arbitrary: s) (auto split: Option.bind_splits dest: mem_event_typed)

section \<open>Progress of the recovery\<close>

lemma recover_dirty_page_progress:
  assumes T: "table_typed K data" and listed: "b \<in> set (dirty_pages (ss data))"
  shows "\<exists>data' s'. recover_dirty_page K m cm b data s = Some (data', s') \<and> table_typed K data' \<and>
     set (dirty_pages (ss data)) \<subseteq> insert b (set (dirty_pages (ss data')))"
proof -
  note ok = table_typedD(1) [OF T]
  obtain sp where sp: "get_snapshot_page K b data = Some sp" using table_typedD(5) [OF T listed] by blast
  have unlist: "table_typed K (unlist_page K b x) \<and>
      set (dirty_pages (ss data)) \<subseteq> insert b (set (dirty_pages (ss (unlist_page K b x))))"
    if x: "table_typed K x" "get_snapshot_page K b x \<noteq> None" "dirty_pages (ss x) = dirty_pages (ss data)" for x
  proof -
    obtain q where q: "get_snapshot_page K b x = Some q" using x(2) by blast
    have "table_typed K (unlist_page K b x)" using x(1) q by (rule table_typed_unlist)
    moreover have "dirty_pages (ss (unlist_page K b x)) = remove1 b (dirty_pages (ss data))"
      using table_typedD(1) [OF x(1)] q x(3) by (simp add: unlist_page_facts)
    ultimately show ?thesis using table_typedD(2) [OF T] by auto
  qed
  show ?thesis
  proof (cases "dirty sp \<and> has_been_copied sp")
    case True
    then obtain bytes where bytes: "page_data sp = Some bytes"
      using table_typedD(3) [OF T sp] by (auto simp: page_typed_def)
    define data2 where "data2 = upd_snapshot_page K b (\<lambda>p. p\<lparr>has_had_pte := True\<rparr>)
       (upd_snapshot_page K b (\<lambda>p. p\<lparr>dirty := False\<rparr>) data)"
    obtain r M where copy: "copy_to_user K cm b bytes (mem s) = (r, M)" by fastforce
    let ?s1 = "s\<lparr>mem := M\<rparr>"
    have T1: "table_typed K (upd_snapshot_page K b (\<lambda>p. p\<lparr>dirty := False\<rparr>) data)"
      by (rule table_typed_upd [OF T]) (simp_all add: table_typedD(3) [OF T])
    have T2: "table_typed K data2"
      unfolding data2_def by (rule table_typed_upd [OF T1]) (simp_all add: table_typedD(3) [OF T1])
    have T3: "table_typed K (upd_snapshot_page K b set_snapshot_page_private data2)"
      by (rule table_typed_upd [OF T2]) (simp_all add: table_typedD(3) [OF T2])
    have in2: "get_snapshot_page K b data2 \<noteq> None" "dirty_pages (ss data2) = dirty_pages (ss data)"
      using ok table_typedD(1) [OF T1] sp by (simp_all add: data2_def page_simps)
    have u: "table_typed K (unlist_page K b (upd_snapshot_page K b set_snapshot_page_private data2)) \<and>
      set (dirty_pages (ss data)) \<subseteq> insert b (set (dirty_pages (ss (unlist_page K b (upd_snapshot_page K b set_snapshot_page_private data2)))))"
      by (rule unlist [OF T3]) (use in2 table_typedD(1) [OF T2] in \<open>simp_all add: page_simps\<close>)
    show ?thesis
    proof (cases "walk_page_table (mms (mem ?s1) cm) b")
      case None
      then have "recover_dirty_page K m cm b data s = Some (data2, ?s1)"
        using True sp bytes copy by (simp add: recover_dirty_page_def do_recover_page_def Let_def data2_def)
      then show ?thesis using T2 in2(2) by auto
    next
      case (Some slot)
      then have "recover_dirty_page K m cm b data s =
          Some (unlist_page K b (upd_snapshot_page K b set_snapshot_page_private data2),
            flush_tlb m b (b + PAGE_SIZE) (?s1\<lparr>mem := ptep_set_wrprotect cm slot (mem ?s1)\<rparr>))"
        using True sp bytes copy by (simp add: recover_dirty_page_def do_recover_page_def Let_def data2_def)
      then show ?thesis using u by blast
    qed
  next
    case False
    let ?data1 = "upd_snapshot_page K b (\<lambda>p. (set_snapshot_page_none_pte p)\<lparr>has_had_pte := False\<rparr>) data"
    have T1: "table_typed K ?data1"
      by (rule table_typed_upd [OF T]) (simp_all add: table_typedD(3) [OF T])
    have u1: "table_typed K (unlist_page K b ?data1) \<and>
      set (dirty_pages (ss data)) \<subseteq> insert b (set (dirty_pages (ss (unlist_page K b ?data1))))"
      by (rule unlist [OF T1]) (use sp ok in \<open>simp_all add: page_simps\<close>)
    have u0: "table_typed K (unlist_page K b data) \<and>
      set (dirty_pages (ss data)) \<subseteq> insert b (set (dirty_pages (ss (unlist_page K b data))))"
      by (rule unlist [OF T]) (use sp in simp_all)
    show ?thesis using False sp u0 u1 by (auto simp: recover_dirty_page_def Let_def)
  qed
qed

lemma recover_dirty_pages_progress:
  assumes "table_typed K data" and "set bs \<subseteq> set (dirty_pages (ss data))" and "distinct bs"
  shows "\<exists>data' s'. recover_dirty_pages K m cm bs data s = Some (data', s') \<and> table_typed K data'"
  using assms
proof (induction bs arbitrary: data s)
  case (Cons b bs)
  then obtain data1 s1 where one: "recover_dirty_page K m cm b data s = Some (data1, s1)" "table_typed K data1"
    and sub: "set (dirty_pages (ss data)) \<subseteq> insert b (set (dirty_pages (ss data1)))"
    using recover_dirty_page_progress [of K data b m cm s] by auto
  have "set bs \<subseteq> set (dirty_pages (ss data1))" using Cons.prems(2,3) sub by auto
  from Cons.IH [OF one(2) this] Cons.prems(3) one(1) show ?case by auto
qed simp

section \<open>Taking\<close>

text \<open>While a snapshot is taken no page of it is listed.\<close>

definition fresh_at :: "'k kernel_scheme \<Rightarrow> nat \<Rightarrow> 's td_state_scheme \<Rightarrow> bool" where
  "fresh_at K d s \<longleftrightarrow> (\<exists>data. td_heap s d = Some data \<and> table_typed K data \<and> dirty_pages (ss data) = [])"

lemma fresh_at_typed: "fresh_at K d s \<Longrightarrow> typed_at K d s"
  by (auto simp: fresh_at_def typed_at_def)

lemma fresh_at_heap: "td_heap s' = td_heap s \<Longrightarrow> fresh_at K d s' = fresh_at K d s"
  by (simp add: fresh_at_def)

text \<open>An operation that only writes outside the table.\<close>

lemma table_typed_ss:
  "ss_pages (ss data') = ss_pages (ss data) \<Longrightarrow> dirty_pages (ss data') = dirty_pages (ss data) \<Longrightarrow>
   table_typed K data' = table_typed K data"
  by (simp add: table_typed_iff pages_ok_def get_snapshot_page_def)

lemma fresh_at_put:
  assumes "fresh_at K d s" and "td_heap s d = Some data" and "ss_pages (ss data') = ss_pages (ss data)"
    and "dirty_pages (ss data') = dirty_pages (ss data)"
  shows "fresh_at K d (put_td d data' s')"
  using assms table_typed_ss [OF assms(3,4), of K] by (simp add: fresh_at_def)

lemma walk_loop_preserves:
  assumes step: "\<And>c x r act x'. ops c x = Some (r, act, x') \<Longrightarrow> Q x \<Longrightarrow> Q x'"
    and run: "walk_loop w ops h x = Some (r, x')" and "Q x"
  shows "Q x'"
proof -
  let ?P = "\<lambda>w ops h x y. (\<forall>c x r act x'. ops c x = Some (r, act, x') \<longrightarrow> Q x \<longrightarrow> Q x') \<longrightarrow> Q x \<longrightarrow> Q (snd y)"
  have "?P w ops h x (r, x')"
    using run
  proof (rule walk_loop.raw_induct [rotated, where P = ?P])
    fix loop w ops h x y
    assume IH: "\<And>w ops h x y. loop w ops h x = Some y \<Longrightarrow> ?P w ops h x y"
      and body: "(case w h of None \<Rightarrow> Some (0, x)
        | Some c \<Rightarrow> do { (r, act, s') \<leftarrow> ops c x;
              if r \<noteq> 0 then Some (r, s') else loop w ops (h @ [(c, act)]) s' }) = Some y"
    show "?P w ops h x y"
    proof (intro impI)
      assume ops: "\<forall>c x r act x'. ops c x = Some (r, act, x') \<longrightarrow> Q x \<longrightarrow> Q x'" and "Q x"
      then show "Q (snd y)"
        using body IH by (auto split: option.splits Option.bind_splits if_splits prod.splits)
    qed
  qed
  then show ?thesis using step \<open>Q x\<close> by auto
qed

lemma make_snapshot_page_heap:
  "make_snapshot_page K m b data s = (r, data', s') \<Longrightarrow> td_heap s' = td_heap s"
  by (auto simp: make_snapshot_page_def Let_def flush_tlb_def split: option.splits if_splits prod.splits
      dest: add_snapshot_page_heap)

lemma walk_ops_fresh:
  assumes run: "snapshot_walk_ops K m d c (wd, s) = Some (r, act, wd', s')" and F: "fresh_at K d s"
  shows "fresh_at K d s'"
proof (cases c)
  case (Pte_entry a n)
  obtain data where td: "td_heap s d = Some data" "table_typed K data" "dirty_pages (ss data) = []"
    using F by (auto simp: fresh_at_def)
  obtain q data1 s1 where mk: "make_snapshot_page K m a data s = (q, data1, s1)"
    by (cases "make_snapshot_page K m a data s")
  have "s' = s \<or> s' = put_td d data1 s1"
    using run Pte_entry td(1) mk
    by (auto simp: snapshot_pte_entry_def split: option.splits Option.bind_splits if_splits prod.splits)
  moreover have "fresh_at K d (put_td d data1 s1)"
    using make_snapshot_page_typed [OF td(2,3) mk] by (simp add: fresh_at_def)
  ultimately show ?thesis using F by blast
qed (use run F in \<open>auto simp: snapshot_upper_entry_def snapshot_middle_entry_def split: Option.bind_splits prod.splits\<close>)

lemma walk_page_vma_fresh:
  assumes run: "walk_page_vma K m d v (wd, s) = Some (r, wd', s')" and F: "fresh_at K d s"
  shows "fresh_at K d s'"
proof -
  have "fresh_at K d (snd (wd', s'))"
    using _ run [unfolded walk_page_vma_def]
    by (rule walk_loop_preserves [where Q = "\<lambda>x. fresh_at K d (snd x)"])
      (use F in \<open>auto dest: walk_ops_fresh\<close>)
  then show ?thesis by simp
qed

lemma take_vma_fresh:
  assumes run: "take_vma K m d v (wd, s) = Some (r, wd', s')" and F: "fresh_at K d s"
  shows "fresh_at K d s'"
proof -
  obtain data where td: "td_heap s d = Some data" using F by (auto simp: fresh_at_def)
  obtain sv data1 s1 where add: "add_snapshot_vma K v data s = (sv, data1, s1)"
    by (cases "add_snapshot_vma K v data s")
  have same: "ss_pages (ss data1) = ss_pages (ss data)" "dirty_pages (ss data1) = dirty_pages (ss data)"
    using add by (auto simp: add_snapshot_vma_def Let_def split: option.splits prod.splits)
  have F1: "fresh_at K d (put_td d data1 s1)" by (rule fresh_at_put [OF F td same])
  have F2: "fresh_at K d (put_td d (upd_ss (\<lambda>y. y\<lparr>snapshotted_vmas := snapshotted_vmas y @ [v']\<rparr>) data1) (put_td d data1 s1))" for v'
    by (rule fresh_at_put [OF F1]) simp_all
  show ?thesis
  proof (cases sv)
    case None
    then show ?thesis using run add td F1 by (simp add: take_vma_def)
  next
    case (Some v')
    then consider "s' = put_td d data1 s1"
      | "walk_page_vma K m d v (wd, put_td d (upd_ss (\<lambda>y. y\<lparr>snapshotted_vmas := snapshotted_vmas y @ [v']\<rparr>) data1)
           (put_td d data1 s1)) = Some (r, wd', s')"
      using run add td by (auto simp: take_vma_def Let_def split: Option.bind_splits if_splits)
    then show ?thesis using F1 walk_page_vma_fresh [OF _ F2] by cases blast+
  qed
qed

lemma take_memory_snapshot_fresh:
  assumes run: "take_memory_snapshot K d s = Some (r, s')" and F: "fresh_at K d s"
  shows "fresh_at K d s'"
proof -
  have inv: "fresh_at K d (invalidate_task_data_cache K t s)" for t
    using F by (simp add: fresh_at_def)
  from run obtain wd m vs t where
    "run_calls (take_vma K m d) vs (init_walk_data, invalidate_task_data_cache K t s) = Some (r, wd, s')"
    by (auto simp: take_memory_snapshot_def Let_def split: Option.bind_splits prod.splits)
  then have "fresh_at K d (snd (wd, s'))"
    by (rule run_calls_invariant [where P = "\<lambda>x. fresh_at K d (snd x)", rotated -1])
      (use inv in \<open>auto dest: take_vma_fresh\<close>)
  then show ?thesis by simp
qed

lemma put_files_struct_heap: "put_files_struct n s = Some s' \<Longrightarrow> td_heap s' = td_heap s"
  by (auto simp: put_files_struct_def split: Option.bind_splits)

lemma dup_files_heap: "dup_files K i s = Some (r, s') \<Longrightarrow> td_heap s' = td_heap s"
  by (auto simp: dup_files_def Let_def split: Option.bind_splits sum.splits)

lemma take_files_heap:
  assumes run: "take_files_snapshot K d s = Some (r, s')" and td: "td_heap s d = Some data"
  obtains "td_heap s' = td_heap s" | f offs where "td_heap s' = (td_heap s)(d \<mapsto> set_files f offs data)"
proof -
  have "td_heap s' = td_heap s \<or> (\<exists>f offs. td_heap s' = (td_heap s)(d \<mapsto> set_files f offs data))"
  proof (cases "config_has (config data) AFL_SNAPSHOT_FDS")
    case False
    with run td have "s' = put_td d (set_files None None data) s" by (simp add: take_files_snapshot_def)
    then show ?thesis by auto
  next
    case True
    with run td obtain copy s1 where dup: "dup_files K (task_files (tasks s (current s))) s = Some (copy, s1)"
      by (auto simp: take_files_snapshot_def split: Option.bind_splits)
    note h1 = dup_files_heap [OF dup]
    obtain arr s2 where km: "kmalloc K s1 = (arr, s2)" by fastforce
    have h2: "td_heap s2 = td_heap s" using kmalloc_heap [OF km] h1 by simp
    show ?thesis
      using run True td dup km h1 h2
      by (auto simp: take_files_snapshot_def Let_def split: Option.bind_splits sum.splits option.splits prod.splits if_splits
          dest!: put_files_struct_heap) blast+
  qed
  then show ?thesis using that by blast
qed

lemma take_snapshot_typed:
  assumes new: "ensure_task_data K (current s) s = Some (Some d, s0)" and td: "td_heap s0 d = Some data"
    and empty: "no_pages data" and run: "take_snapshot K cfg s = Some (r, s')"
  shows "typed_at K d s'"
proof -
  have F: "fresh_at K d s0"
    using td empty by (simp add: fresh_at_def table_typed_iff no_pages_get) (simp add: no_pages_def pages_ok_def)
  show ?thesis
  proof (cases "have_snapshot data")
    case True
    then show ?thesis using run new td fresh_at_typed [OF F] by (simp add: take_snapshot_def)
  next
    case False
    let ?s1 = "put_td d (initialize_snapshot cfg data s0) s0"
    have "fresh_at K d ?s1"
      by (rule fresh_at_put [OF F td]) (simp_all add: initialize_snapshot_def Let_def status_defs)
    moreover from run new td False obtain e s2 where mem: "take_memory_snapshot K d ?s1 = Some (e, s2)"
      and files: "\<exists>q. take_files_snapshot K d s2 = Some (q, s')"
      by (auto simp: take_snapshot_def split: Option.bind_splits)
    ultimately have F2: "fresh_at K d s2" by (blast intro: take_memory_snapshot_fresh)
    obtain data2 where td2: "td_heap s2 d = Some data2" "table_typed K data2" using F2 by (auto simp: fresh_at_def)
    from files obtain q where "take_files_snapshot K d s2 = Some (q, s')" ..
    then consider "td_heap s' = td_heap s2" | f offs where "td_heap s' = (td_heap s2)(d \<mapsto> set_files f offs data2)"
      by (rule take_files_heap [OF _ td2(1)])
    then show ?thesis
    proof cases
      case 2
      have "table_typed K (set_files f offs data2) = table_typed K data2"
        by (rule table_typed_ss) (simp_all add: set_files_def)
      with td2(2) have "table_typed K (set_files f offs data2)" by simp
      then show ?thesis using 2 by (simp add: typed_at_def)
    qed (use td2 in \<open>simp add: typed_at_def\<close>)
  qed
qed

text \<open>C6. Whatever allocations fail, from \<open>take_snapshot\<close> on to any sequence of memory events, the
  page table of the snapshot stays well typed: every page sits once in the bucket of its key, the
  dirty list has no duplicates and holds exactly the pages marked as listed, a page marked as
  copied has its buffer, and only the three flags are set. So the loop of
  \<open>recover_memory_snapshot\<close> never looks up a page that is missing and never copies from a NULL
  buffer, in whatever memory and for whatever address spaces it runs.\<close>

theorem page_table_stays_typed:
  assumes "ensure_task_data K (current s) s = Some (Some d, s0)" and "td_heap s0 d = Some data" and "no_pages data"
    and "take_snapshot K cfg s = Some (r, s1)" and "run_events K es s1 = Some s2"
  shows "\<exists>data2. td_heap s2 d = Some data2 \<and> table_typed K data2 \<and>
     (\<forall>m cm (t :: 't mem_state_scheme). \<exists>data3 t'. recover_dirty_pages K m cm (dirty_pages (ss data2)) data2 t = Some (data3, t') \<and>
        table_typed K data3)"
proof -
  have "typed_at K d s2" using take_snapshot_typed [OF assms(1-4)] assms(5) by (rule run_events_typed)
  then obtain data2 where data2: "td_heap s2 d = Some data2" "table_typed K data2" by (auto simp: typed_at_def)
  have "\<exists>data3 t'. recover_dirty_pages K m cm (dirty_pages (ss data2)) data2 t = Some (data3, t') \<and> table_typed K data3"
    for m cm and t :: "'t mem_state_scheme"
    by (rule recover_dirty_pages_progress [OF data2(2)]) (simp_all add: table_typedD(2) [OF data2(2)])
  with data2 show ?thesis by blast
qed

text \<open>A kernel that fails every allocation from the third on: the page walk of \<open>take_snapshot\<close> stops
  at the second page, and the first page cannot be saved.\<close>

definition poor_kernel :: files_kernel where
  "poor_kernel = ref_files_kernel\<lparr>kmalloc_ok := (\<lambda>n. n < 202)\<rparr>"

definition poor_check :: "(int \<times> system_state) option \<Rightarrow> bool" where
  "poor_check out =
     (case out of
        None \<Rightarrow> False
      | Some (r, s1) \<Rightarrow>
          r = 1 \<and>
          (case run_events poor_kernel [Write_fault 0 0x1008] s1 of
             None \<Rightarrow> False
           | Some s2 \<Rightarrow> (case td_heap s2 100 of None \<Rightarrow> False | Some data \<Rightarrow> dirty_pages (ss data) = [0x1000])))"

lemma poor_run: "poor_check (take_snapshot poor_kernel 8 demo_system)"
  by (simp add: take_defs poor_check_def poor_kernel_def take_snapshot_def ensure_task_data_def
      initialize_snapshot_def take_files_snapshot_def set_files_def demo_thread_def ref_files_kernel_core)

theorem page_table_stays_typed_witness:
  "\<exists>s1 s2 data. take_snapshot poor_kernel 8 demo_system = Some (1, s1) \<and>
     run_events poor_kernel [Write_fault 0 0x1008] s1 = Some s2 \<and> td_heap s2 100 = Some data \<and>
     dirty_pages (ss data) = [0x1000] \<and> table_typed poor_kernel data"
proof -
  obtain s1 s2 data where run: "take_snapshot poor_kernel 8 demo_system = Some (1, s1)"
    "run_events poor_kernel [Write_fault 0 0x1008] s1 = Some s2"
    and data: "td_heap s2 100 = Some data" "dirty_pages (ss data) = [0x1000]"
    using poor_run by (auto simp: poor_check_def split: option.splits)
  have new: "ensure_task_data poor_kernel (current demo_system) demo_system = Some (Some 100, demo_system)"
    "td_heap demo_system 100 = Some (new_task_data 7)"
    by (simp_all add: ensure_task_data_def get_task_data_def)
  from page_table_stays_typed [OF new no_pages_new run] run data show ?thesis by auto
qed

end
