(* ===== verification/Failures.thy ===== *)
theory Failures
  imports Sessions Page_Typing
begin

text \<open>
  What happens to a process when an allocation fails in the middle of a hook, when a range has
  been excluded, when the kernel merges areas under \<open>restore_vmas\<close>, and when it exits.
\<close>

section \<open>Allocations that fail in the hooks\<close>

text \<open>C30. A page that cannot be saved is lost. When the buffer for its bytes cannot be allocated,
  \<open>record_dirty_page\<close> returns NULL with the page already marked dirty and listed, and the caller
  lets the write happen. The restore that follows takes the page off the list without changing
  anything, and since it is still marked dirty no later fault saves it again.\<close>

theorem unsaved_page_is_lost:
  assumes T: "table_typed K data" and sp: "get_snapshot_page K b data = Some sp"
    and new: "\<not> dirty sp" "\<not> is_snapshot_page_none_pte sp" "\<not> has_been_copied sp" "page_data sp = None"
    and oom: "\<not> kmalloc_ok K (alloc_next s)"
  shows "\<exists>data' s'. record_dirty_page K b pte data s = (None, data', s') \<and> mem s' = mem s \<and>
     b \<in> set (dirty_pages (ss data')) \<and>
     (\<forall>m cm (t :: 't mem_state_scheme). recover_dirty_page K m cm b data' t = Some (unlist_page K b data', t)) \<and>
     (\<forall>q (t :: 't mem_state_scheme).
        record_dirty_page K b q (unlist_page K b data') t = (None, unlist_page K b data', t))"
proof -
  define data1 where "data1 = upd_snapshot_page K b (\<lambda>p. p\<lparr>dirty := True\<rparr>) data"
  define data' where "data' = (if in_dirty_list sp then data1
     else upd_ss (\<lambda>x. x\<lparr>dirty_pages := dirty_pages x @ [b]\<rparr>)
            (upd_snapshot_page K b (\<lambda>p. p\<lparr>in_dirty_list := True\<rparr>) data1))"
  note ok = table_typedD(1) [OF T]
  have run: "record_dirty_page K b pte data s = (None, data', s\<lparr>alloc_next := Suc (alloc_next s)\<rparr>)"
    using sp new oom by (simp add: record_dirty_page_def Let_def kmalloc_def data'_def data1_def)
  have ok1: "pages_ok K data1" using ok by (simp add: data1_def page_simps)
  have ok': "pages_ok K data'" using ok1 by (simp add: data'_def page_simps)
  have sp': "get_snapshot_page K b data' = Some (sp\<lparr>dirty := True, in_dirty_list := True\<rparr>)"
    using ok ok1 sp by (auto simp: data'_def data1_def page_simps)
  have listed: "b \<in> set (dirty_pages (ss data'))"
    using table_typedD(4) [OF T sp] by (simp add: data'_def data1_def)
  have rec: "recover_dirty_page K m cm b data' t = Some (unlist_page K b data', t)"
    for m cm and t :: "'t mem_state_scheme"
    using sp' new by (simp add: recover_dirty_page_def)
  have "get_snapshot_page K b (unlist_page K b data') = Some (sp\<lparr>dirty := True, in_dirty_list := False\<rparr>)"
    by (simp add: unlist_page_facts [OF ok' sp'])
  then have "record_dirty_page K b q (unlist_page K b data') t = (None, unlist_page K b data', t)"
    for q and t :: "'t mem_state_scheme"
    by (intro record_dirty_page_skip) simp
  with run rec listed show ?thesis
    by (intro exI [of _ data'] exI [of _ "s\<lparr>alloc_next := Suc (alloc_next s)\<rparr>"]) simp
qed

text \<open>The process writes to the page at \<open>0x1000\<close>; after the restore it still reads its own bytes.\<close>

definition out_of_memory :: kernel where
  "out_of_memory = ref_kernel\<lparr>kmalloc_ok := (\<lambda>_. False)\<rparr>"

lemma demo_data_typed: "table_typed out_of_memory demo_data"
proof -
  have get: "get_snapshot_page out_of_memory b demo_data = get_snapshot_page ref_kernel b demo_data" for b
    by (simp add: get_snapshot_page_def out_of_memory_def)
  have "hash_min out_of_memory = hash_min ref_kernel" by (simp add: out_of_memory_def)
  then have "pages_ok out_of_memory demo_data = pages_ok ref_kernel demo_data" by (simp add: pages_ok_def)
  moreover have "pages_ok ref_kernel demo_data" using demo_page_inv by (auto simp: page_inv_def)
  ultimately show ?thesis
    by (simp add: table_typed_iff get demo_pages page_typed_def page_flag_defs) (simp add: demo_data_def zero_snapshot_def)
qed

theorem unsaved_page_is_lost_witness:
  "\<exists>data' s'. record_dirty_page out_of_memory 0x1000 empty_pte demo_data demo_mem_state = (None, data', s') \<and>
     0x1000 \<in> set (dirty_pages (ss data')) \<and>
     recover_dirty_page out_of_memory 0 0 0x1000 data' demo_mem_state =
       Some (unlist_page out_of_memory 0x1000 data', demo_mem_state)"
proof -
  have sp: "get_snapshot_page out_of_memory 0x1000 demo_data = Some \<lparr>page_base = 0x1000, page_prot = 1, page_data = None,
        has_been_copied = False, has_had_pte = True, dirty = False, in_dirty_list = False\<rparr>"
    using demo_pages [of "0x1000"] by (simp add: get_snapshot_page_def out_of_memory_def)
  have "\<not> kmalloc_ok out_of_memory (alloc_next demo_mem_state)" by (simp add: out_of_memory_def)
  from unsaved_page_is_lost [OF demo_data_typed sp _ _ _ _ this, of empty_pte]
  show ?thesis by (simp add: page_flag_defs) blast
qed

text \<open>C38. \<open>page_add_new_anon_rmap_hook\<close> does not test the result of \<open>add_snapshot_page\<close>: the first
  touch of a page of a snapshotted area that is not in the table yet crashes the kernel when the
  allocation fails.\<close>

theorem anon_hook_crashes_without_memory:
  assumes "registry_ok s" and "cache_ok K s" and tr: "tracked s m d data"
    and none: "get_snapshot_page K (addr AND PAGE_MASK) data = None"
    and area: "is_snapshotted_address data (addr AND PAGE_MASK)" and oom: "\<not> kmalloc_ok K (alloc_next s)"
  shows "page_add_new_anon_rmap_hook K m addr s = None"
proof -
  obtain r s1 where look: "get_task_data_with_cache (owner s m) s = Some (r, s1)" and h1: "td_heap s1 = td_heap s"
    and r: "r = registry_map s (owner s m) \<or>
         r = None \<and> (\<exists>d. registry_map s (owner s m) = Some d \<and> \<not> have_snapshot (the (td_heap s d)))"
    and s1: "\<exists>lt ld. s1 = s\<lparr>last_task := lt, last_task_data := ld\<rparr>"
    by (rule get_with_cache_cases [OF assms(1,2), where t = "owner s m"]) blast
  have "r = Some d" using r tr by (auto simp: tracked_def)
  moreover have "alloc_next s1 = alloc_next s" using s1 by auto
  ultimately show ?thesis
    using look h1 tr none area oom add_snapshot_page_oom [of False K "addr AND PAGE_MASK" data s1]
    by (simp add: page_add_new_anon_rmap_hook_def Let_def tracked_def)
qed

theorem anon_hook_crashes_without_memory_witness:
  "page_add_new_anon_rmap_hook out_of_memory 0 0x2010 demo_mem_state = None \<and>
   page_add_new_anon_rmap_hook ref_kernel 0 0x2010 demo_mem_state \<noteq> None"
proof
  have ok: "registry_ok demo_mem_state" "cache_ok out_of_memory demo_mem_state"
    using demo_sys_inv by (simp_all add: sys_inv_def cache_ok_def out_of_memory_def)
  show "page_add_new_anon_rmap_hook out_of_memory 0 0x2010 demo_mem_state = None"
    by (rule anon_hook_crashes_without_memory [OF ok demo_tracked])
      (simp_all add: out_of_memory_def get_snapshot_page_def is_snapshotted_address_def demo_data_def PAGE_MASK_def PAGE_SIZE_def)
  show "page_add_new_anon_rmap_hook ref_kernel 0 0x2010 demo_mem_state \<noteq> None"
    by (simp add: run_defs)
qed

section \<open>Excluded pages\<close>

text \<open>C31. The hook on \<open>page_add_new_anon_rmap\<close> looks at the areas only, not at the lists of
  ranges: a page that \<open>afl_snapshot_exclude_vmrange\<close> has taken out of the snapshot and that is
  touched for the first time afterwards enters the dirty list as a page without entry, and the
  next restore zaps it. An excluded page keeps its contents over a restore only when it was present
  when the snapshot was taken.\<close>

theorem excluded_page_is_wiped:
  assumes "registry_ok s" and "cache_ok K s" and tr: "tracked s m d data" and ok: "pages_ok K data"
    and b: "b = addr AND PAGE_MASK" and none: "get_snapshot_page K b data = None"
    and area: "is_snapshotted_address data b" and mem: "kmalloc_ok K (alloc_next s)"
    and "intersect_blocklist d b (b + PAGE_SIZE) s = Some (Some r)" and "vr_start r \<le> b" "b + PAGE_SIZE \<le> vr_end r"
  shows "\<exists>s' data'. page_add_new_anon_rmap_hook K m addr s = Some s' \<and> td_heap s' d = Some data' \<and>
     b \<in> set (dirty_pages (ss data')) \<and>
     (\<forall>cm (t :: 't mem_state_scheme). \<exists>data3.
        recover_dirty_page K m cm b data' t = Some (data3, t\<lparr>mem := zap_page_range K cm b PAGE_SIZE (mem t)\<rparr>))"
proof -
  obtain r' s1 where look: "get_task_data_with_cache (owner s m) s = Some (r', s1)" and h1: "td_heap s1 = td_heap s"
    and r: "r' = registry_map s (owner s m) \<or>
         r' = None \<and> (\<exists>d. registry_map s (owner s m) = Some d \<and> \<not> have_snapshot (the (td_heap s d)))"
    and s1: "\<exists>lt ld. s1 = s\<lparr>last_task := lt, last_task_data := ld\<rparr>"
    by (rule get_with_cache_cases [OF assms(1,2), where t = "owner s m"]) blast
  have found: "r' = Some d" using r tr by (auto simp: tracked_def)
  have km: "kmalloc_ok K (alloc_next s1)" using s1 mem by auto
  obtain data1 sp where add: "add_snapshot_page K b False data s1 = (Some b, data1, s1\<lparr>alloc_next := Suc (alloc_next s1)\<rparr>)"
    and ok1: "pages_ok K data1" and get1: "\<forall>k. get_snapshot_page K k data1 =
         (if k = b then Some (reset_page sp) else get_snapshot_page K k data)"
    by (rule add_snapshot_page_new [OF ok none km, of False]) simp
  let ?data2 = "upd_snapshot_page K b set_snapshot_page_none_pte data1"
  let ?sp = "set_snapshot_page_none_pte (reset_page sp)"
  have ok2: "pages_ok K ?data2" using ok1 by (simp add: page_simps)
  have sp2: "get_snapshot_page K b ?data2 = Some ?sp" using ok1 get1 by (simp add: page_simps)
  note mk = mark_had_pte_facts [OF ok2 sp2]
  define data' where "data' = mark_had_pte K b ?data2 ?sp"
  have run: "page_add_new_anon_rmap_hook K m addr s = Some (put_td d data' (s1\<lparr>alloc_next := Suc (alloc_next s1)\<rparr>))"
    using tr none area add sp2 pages.get_upd [OF ok2, of "\<lambda>p. p\<lparr>has_had_pte := True\<rparr>" b b]
    by (simp add: page_add_new_anon_rmap_hook_def look found h1 tracked_def Let_def data'_def mark_had_pte_def flip: b)
  have sp': "get_snapshot_page K b data' = Some (?sp\<lparr>has_had_pte := True, in_dirty_list := True\<rparr>)"
    by (simp add: data'_def mk)
  have listed: "b \<in> set (dirty_pages (ss data'))" by (simp add: data'_def mk)
  have "\<exists>data3. recover_dirty_page K m cm b data' t = Some (data3, t\<lparr>mem := zap_page_range K cm b PAGE_SIZE (mem t)\<rparr>)"
    for cm and t :: "'t mem_state_scheme"
    using sp' by (simp add: recover_dirty_page_def do_recover_none_pte_def Let_def)
  with run listed show ?thesis by auto
qed

text \<open>The process excludes its second page, writes to it, and finds it zeroed.\<close>

definition excluded_state :: mem_state where
  "excluded_state = the (exclude_vmrange ref_kernel 0x2000 0x3000 demo_mem_state)"

lemma exclude_demo:
  "exclude_vmrange ref_kernel 0x2000 0x3000 demo_mem_state = Some excluded_state"
  "\<exists>h rs. excluded_state = demo_mem_state\<lparr>alloc_next := 201, vmranges := rs, lheap := h\<rparr>"
  "intersect_blocklist 100 0x2000 0x3000 excluded_state = Some (Some \<lparr>vr_start = 0x2000, vr_end = 0x3000\<rparr>)"
  by (simp_all add: excluded_state_def exclude_vmrange_def ensure_task_data_def get_task_data_def kmalloc_def
      new_vmrange_def demo_mem_state_def demo_data_def Let_def)
    (auto simp: list_add_def list_link_def INIT_LIST_HEAD_def intersect_blocklist_def list_find_def
      list_find_from.simps overlaps_at_def overlaps_def vmrange_at_def)

lemma snapshotted_demo: "snapshotted_in 0x2000 (snapshotted_vmas (ss demo_data))"
  by (simp add: demo_data_def)

theorem excluded_page_is_wiped_witness:
  "\<exists>s' data'. exclude_vmrange ref_kernel 0x2000 0x3000 demo_mem_state = Some excluded_state \<and>
     page_add_new_anon_rmap_hook ref_kernel 0 0x2010 excluded_state = Some s' \<and> td_heap s' 100 = Some data' \<and>
     (\<exists>data3. recover_dirty_page ref_kernel 0 0 0x2000 data' s' =
        Some (data3, s'\<lparr>mem := zap_page_range ref_kernel 0 0x2000 PAGE_SIZE (mem s')\<rparr>))"
proof -
  obtain h rs where e: "excluded_state = demo_mem_state\<lparr>alloc_next := 201, vmranges := rs, lheap := h\<rparr>"
    using exclude_demo(2) by blast
  have r: "registry_map excluded_state = registry_map demo_mem_state"
    by (rule registry_map_cong) (simp_all add: e owner_of_def fun_eq_iff)
  have base: "registry_ok demo_mem_state" "cache_ok ref_kernel demo_mem_state"
    using demo_sys_inv by (simp_all add: sys_inv_def)
  have "alloc_next demo_mem_state \<le> alloc_next excluded_state" by (simp add: e) (simp add: demo_mem_state_def)
  then have ok: "registry_ok excluded_state" "cache_ok ref_kernel excluded_state"
    using base registry_ok_cong [of excluded_state demo_mem_state] cache_ok_cong [of excluded_state demo_mem_state ref_kernel]
    by (simp_all add: r) (simp_all add: e owner_of_def fun_eq_iff)
  have tr: "tracked excluded_state 0 100 demo_data"
    using demo_tracked by (simp add: tracked_def r) (simp add: e)
  have pages: "pages_ok ref_kernel demo_data" using demo_page_inv by (simp add: page_inv_def)
  from excluded_page_is_wiped [OF ok tr pages, of "0x2000" "0x2010" "\<lparr>vr_start = 0x2000, vr_end = 0x3000\<rparr>"]
  show ?thesis
    using exclude_demo(1,3)
    by (simp add: demo_pages PAGE_MASK_def PAGE_SIZE_def is_snapshotted_address_def snapshotted_demo) blast
qed

section \<open>Areas that the kernel merges\<close>

lemma restore_gap_quiet: "restore_gap K cm svs b b c n s = Some (Inr s)"
  by (simp add: restore_gap_def)

text \<open>The loop passes over areas that are still as they were saved.\<close>

lemma restore_loop_same:
  assumes "mm_mmap (mms (mem s) m) = dn @ pre @ vs" and "layout_ok (dn @ pre @ vs)"
    and "map (\<lambda>v. (vm_start v, vm_end v)) pre = map (\<lambda>x. (sv_start x, sv_end x)) svs0"
  shows "\<exists>c'. restore_loop K m cm (iter (pre @ vs)) (svs0 @ svs) False False c s =
     restore_loop K m cm (iter vs) svs False False c' s"
  using assms
proof (induction pre arbitrary: dn svs0 c)
  case Nil
  then show ?case by auto
next
  case (Cons v pre)
  obtain x xs where svs0: "svs0 = x # xs" and x: "sv_start x = vm_start v" "sv_end x = vm_end v"
    and same: "map (\<lambda>v. (vm_start v, vm_end v)) pre = map (\<lambda>x. (sv_start x, sv_end x)) xs"
    using Cons.prems(3) by (cases svs0) auto
  have list: "mm_mmap (mms (mem s) m) = (dn @ [v]) @ pre @ vs" and layout: "layout_ok ((dn @ [v]) @ pre @ vs)"
    using Cons.prems(1,2) by simp_all
  note reads = iter_reads [OF Cons.prems(1,2)]
  have "restore_loop K m cm (iter ((v # pre) @ vs)) (svs0 @ svs) False False c s =
      restore_loop K m cm (iter ((v # pre) @ vs)) (svs0 @ svs) True True (vm_start v) s"
    by (subst restore_loop_iteration(2) [OF _ reads(1) refl restore_gap_quiet])
      (simp_all add: svs0 x iter_def rest_at_def flip_at_def)
  also have "\<dots> = restore_loop K m cm (iter (pre @ vs)) (xs @ svs) False False (vm_end v) s"
    by (subst restore_loop_iteration(2) [OF _ reads(1) refl restore_gap_quiet])
      (use reads(2) in \<open>simp_all add: svs0 x rest_at_def flip_at_def\<close>)
  finally show ?case using Cons.IH [OF list layout same] by simp
qed

text \<open>C37. \<open>restore_vmas\<close> uses an area after it has been freed. The process has unmapped the
  middle of an anonymous private area of the snapshot, between \<open>l\<close> and \<open>u\<close>; the areas below are
  as they were. The loop stands on \<open>u\<close> when it maps the hole again. If that call succeeds and the
  kernel merges the new mapping with its neighbours, so that \<open>u\<close> is no longer an area of the
  process, the next iteration reads the freed object.\<close>

theorem restore_vmas_merge_dangles:
  assumes td: "td_heap s d = Some data" and m: "m = task_mm (tasks s (tsk data))" "m = task_mm (tasks s (current s))"
    and list: "mm_mmap (mms (mem s) m) = pre @ l # u # post" and layout: "layout_ok (pre @ l # u # post)"
    and saved: "all_vmas (ss data) = svs0 @ sv # svs"
    and same: "map (\<lambda>v. (vm_start v, vm_end v)) pre = map (\<lambda>x. (sv_start x, sv_end x)) svs0"
    and sv: "is_anonymous_private sv" "sv_start sv = vm_start l" "vm_start u \<le> sv_end sv"
    and hole: "vm_end l < vm_start u"
    and again: "map_again K m (vm_end l) (vm_start u) (sv_prot sv) (mem s) = (vm_end l, M')" "\<not> IS_ERR (vm_end l)"
    and freed: "vma_id u \<notin> vma_id ` set (mm_mmap (mms M' m))"
  shows "restore_vmas K d s = None"
proof -
  let ?s1 = "s\<lparr>mem := M'\<rparr>"
  have first: "first_vma s m = iter (pre @ l # u # post)" by (simp add: first_vma_def iter_def list)
  have "restore_vmas K d s = restore_loop K m m (iter (pre @ l # u # post)) (svs0 @ sv # svs) False False 0 s"
    by (simp add: restore_vmas_def td first saved flip: m)
  also obtain c where "\<dots> = restore_loop K m m (iter (l # u # post)) (sv # svs) False False c s"
    using restore_loop_same [of s m "[]" pre "l # u # post" svs0 K m "sv # svs" 0] list layout same by auto
  also have "\<dots> = restore_loop K m m (iter (l # u # post)) (sv # svs) True True (vm_start l) s"
    by (subst restore_loop_iteration(2) [OF _ iter_reads(1) [OF list layout] refl restore_gap_quiet])
      (simp_all add: sv rest_at_def flip_at_def)
  also have "\<dots> = restore_loop K m m (iter (u # post)) (sv # svs) True False (vm_end l) s"
    by (subst restore_loop_iteration(2) [OF _ iter_reads(1) [OF list layout] refl restore_gap_quiet])
      (use iter_reads(2) [OF list layout] sv hole in \<open>auto simp: rest_at_def flip_at_def min_def\<close>)
  also have "\<dots> = None"
  proof -
    have list': "mm_mmap (mms (mem s) m) = (pre @ [l]) @ u # post" and layout': "layout_ok ((pre @ [l]) @ u # post)"
      using list layout by simp_all
    have gap: "restore_gap K m (sv # svs) True False (vm_end l) (vm_start u) s = Some (Inr ?s1)"
      using again hole by (simp add: restore_gap_def sv(1))
    have gone: "vma_pos ?s1 m (Some (vma_id u)) True = None"
    proof -
      have "area_from i vs = None" if "i \<notin> vma_id ` set vs" for i vs using that by (induction vs) auto
      then show ?thesis using freed by (simp add: vma_pos_def vma_of_def)
    qed
    have n: "vm_start u = min (vma_next (u # post) False) (ss_vma_pos (sv # svs) True)"
      using sv(3) by (simp add: min_def)
    have dead: "restore_loop K m m (Some (vma_id u)) zs b True c' ?s1 = None" for zs b c'
      by (subst restore_loop.simps) (simp add: gone)
    show ?thesis
      by (subst restore_loop_iteration(2) [OF _ iter_reads(1) [OF list' layout'] n gap])
        (simp_all add: dead flip_at_def iter_def)
  qed
  finally show ?thesis .
qed

text \<open>
  \<open>mmap\<close> as Linux performs it between two areas with the protection of the new mapping: the lower
  area grows over the hole and the upper one, whose object is freed. The process has kept one
  area and unmapped the middle of another, with all three permissions, which are the ones
  \<open>restore_vmas\<close> maps. With a kernel that keeps the areas apart the same call restores the range.
\<close>

definition merging_mmap :: "mm_id \<Rightarrow> u64 \<Rightarrow> u64 \<Rightarrow> u64 \<Rightarrow> u64 \<Rightarrow> mem \<Rightarrow> u64 \<times> mem" where
  "merging_mmap m a len prot flags M =
     (let vs = mm_mmap (mms M m);
          lower = find (\<lambda>v. vm_end v = a \<and> vm_flags v = prot) vs;
          upper = find (\<lambda>v. vm_start v = a + len \<and> vm_flags v = prot) vs
      in case (lower, upper) of
           (Some l, Some u) \<Rightarrow>
             (a, upd_mm m (\<lambda>mm. mm\<lparr>mm_mmap := map (\<lambda>v. if vma_id v = vma_id l then v\<lparr>vm_end := vm_end u\<rparr> else v)
                    (filter (\<lambda>v. vma_id v \<noteq> vma_id u) vs)\<rparr>) M)
         | _ \<Rightarrow> ref_mmap m a len prot flags M)"

definition rwx :: "vm_area \<Rightarrow> vm_area" where
  "rwx v = v\<lparr>vm_flags := 7\<rparr>"

lemma area_fields:
  "vma_id (area i st en) = i" "vm_start (area i st en) = st" "vm_end (area i st en) = en"
  "vma_id (rwx v) = vma_id v" "vm_start (rwx v) = vm_start v" "vm_end (rwx v) = vm_end v"
  by (simp_all add: area_def rwx_def)

abbreviation cut_areas :: "vm_area list" where
  "cut_areas \<equiv> [area 3 0x1000 0x2000, rwx (area 4 0x3000 0x4000), rwx (area 2 0x5000 0x6000)]"

theorem restore_vmas_merge_dangles_witness:
  "restore_vmas (ref_kernel\<lparr>vm_mmap_anon := merging_mmap\<rparr>) 100
     (restore_state cut_areas [(0x1000, 0x2000), (0x3000, 0x6000)]) = None \<and>
   ranges_after (restore_vmas ref_kernel 100 (restore_state cut_areas [(0x1000, 0x2000), (0x3000, 0x6000)])) =
     Some (0, [(0x1000, 0x2000), (0x3000, 0x4000), (0x4000, 0x5000), (0x5000, 0x6000)])"
proof
  let ?sv = "\<lambda>(st, en). \<lparr>sv_id = 1, sv_start = st, sv_end = en, is_anonymous_private = True, sv_prot = 7\<rparr>"
  let ?old = "[(0x1000, 0x2000), (0x3000, 0x6000)] :: (u64 \<times> u64) list"
  let ?data = "upd_ss (\<lambda>x. x\<lparr>all_vmas := map ?sv ?old\<rparr>) demo_data" and ?s = "restore_state cut_areas ?old"
  have s: "td_heap ?s 100 = Some ?data" "0 = task_mm (tasks ?s (tsk ?data))" "0 = task_mm (tasks ?s (current ?s))"
    "mm_mmap (mms (mem ?s) 0) = [area 3 0x1000 0x2000] @ rwx (area 4 0x3000 0x4000) # rwx (area 2 0x5000 0x6000) # []"
    by (simp_all add: restore_state_def demo_mem_state_def)
  have layout: "layout_ok ([area 3 0x1000 0x2000] @ rwx (area 4 0x3000 0x4000) # rwx (area 2 0x5000 0x6000) # [])"
    by (simp add: layout_ok_def areas_ok_def area_ok_def area_def rwx_def page_aligned_def offset_in_page_def)
  have saved: "all_vmas (ss ?data) = [?sv (0x1000, 0x2000)] @ ?sv (0x3000, 0x6000) # []" by simp
  let ?M = "upd_mm 0 (\<lambda>mm. mm\<lparr>mm_mmap := [area 3 0x1000 0x2000, rwx (area 4 0x3000 0x6000)]\<rparr>) (mem ?s)"
  have "merging_mmap 0 0x4000 0x1000 7 flags M =
      (0x4000, upd_mm 0 (\<lambda>mm. mm\<lparr>mm_mmap := [area 3 0x1000 0x2000, rwx (area 4 0x3000 0x6000)]\<rparr>) M)"
    if "mm_mmap (mms M 0) = cut_areas" for M flags
    unfolding merging_mmap_def that by (simp add: area_def rwx_def)
  from this [of "mem ?s"] s(4) have mmap: "merging_mmap 0 0x4000 0x1000 7 flags (mem ?s) = (0x4000, ?M)" for flags by simp
  have "vma_id (rwx (area 2 0x5000 0x6000)) \<notin> vma_id ` set (mm_mmap (mms ?M 0))" by (simp add: area_def rwx_def)
  then show "restore_vmas (ref_kernel\<lparr>vm_mmap_anon := merging_mmap\<rparr>) 100 ?s = None"
    by (intro restore_vmas_merge_dangles [OF s layout saved, where M' = ?M])
      (simp_all add: mmap area_fields IS_ERR_def)
  show "ranges_after (restore_vmas ref_kernel 100 ?s) =
     Some (0, [(0x1000, 0x2000), (0x3000, 0x4000), (0x4000, 0x5000), (0x5000, 0x6000)])"
    by (simp add: restore_defs run_defs rwx_def)
qed

section \<open>Exiting\<close>

lemma do_exit_calls_clean:
  assumes ok: "registry_ok s" and st: "statuses_ok s" and run: "do_exit_hook K code s = Some s'"
  shows "\<exists>u. (if \<exists>e. phase_of s (current s) = Active e then clean_snapshot K s = Some u else u = s) \<and>
     s' = do_exit_orig code u"
proof (cases "registry_map s (current s)")
  case None
  then show ?thesis using run by (simp add: do_exit_hook_def get_task_data_map [OF ok])
next
  case (Some d)
  obtain data where td: "td_heap s d = Some data" by (rule registry_map_SomeD [OF ok Some])
  note ph = phase_status [OF st Some td]
  show ?thesis
    using run by (auto simp: do_exit_hook_def get_task_data_map [OF ok] Some td ph phase_of_data_def
        split: if_splits Option.bind_splits)
qed

text \<open>C12. A process gets to exit. After any session of requests, memory events and task switches,
  and as long as the descriptor table that the current task's snapshot has saved, if there is one,
  is still alive (\<open>clean_ready\<close>), \<open>do_exit_hook\<close> returns and the original \<open>do_exit\<close> has been
  called, once, for the current task with the code it was given. A snapshot of that task has been
  dropped first, by \<open>clean_snapshot\<close>; the phases of all other tasks are as before, and the module
  is in order for the next request.\<close>

theorem process_can_exit:
  assumes "module_inv K s" and "all_ready (act K) (action_ready K) as s"
    and "answers (act K) as s = Some (rs, s1)" and "clean_ready s1"
  shows "\<exists>s'. do_exit_hook K code s1 = Some s' \<and> do_exit_calls s' = do_exit_calls s1 @ [(current s1, code)] \<and>
     phase_of s' = (phase_of s1)(current s1 := if phase_of s1 (current s1) = Idle then Idle else Absent) \<and>
     (\<exists>u. (if \<exists>e. phase_of s1 (current s1) = Active e then clean_snapshot K s1 = Some u else u = s1) \<and>
        s' = do_exit_orig code u) \<and>
     module_inv K s'"
proof -
  have "module_inv K s1" using module.run_simulates [OF assms(1,2)] assms(3) by auto
  then obtain G where k: "kernel_ok K" and inv: "sys_inv K G s1" and st: "statuses_ok s1"
    by (auto simp: module_inv_def)
  obtain s' where run: "do_exit_hook K code s1 = Some s'" and inv': "sys_inv K G s'"
    and mv: "moves s1 s' (snd (phase_step (Req_do_exit code) (phase_of s1 (current s1))))"
    and calls: "do_exit_calls s' = do_exit_calls s1 @ [(current s1, code)]"
    by (rule serve_do_exit [OF inv st assms(4), of code])
  have "module_inv K s'" using k inv' mv st by (auto simp: module_inv_def moves_def)
  moreover have "snd (phase_step (Req_do_exit code) q) = (if q = Idle then Idle else Absent)" for q
    by (cases q) simp_all
  ultimately show ?thesis
    using run calls mv do_exit_calls_clean [OF sys_invD(1) [OF inv] st run] by (auto simp: moves_def)
qed

text \<open>A process takes a snapshot with the options FDS and REGS, runs, and exits with the snapshot
  still active and a descriptor table saved.\<close>

theorem process_can_exit_witness:
  "\<exists>s1 s' data i fs. answers (act ref_files_kernel) [Call (Req_take 12), Run fresh_events] demo_system = Some ([1, 0], s1) \<and>
     current s1 = 7 \<and> registry_map s1 7 = Some 100 \<and> td_heap s1 100 = Some data \<and> have_snapshot data \<and>
     phase_of s1 7 = Active False \<and>
     sf_files (ss_files (ss data)) = Some i \<and> files_structs s1 i = Some fs \<and>
     do_exit_hook ref_files_kernel 3 s1 = Some s' \<and> do_exit_calls s' = do_exit_calls s1 @ [(7, 3)] \<and>
     phase_of s' 7 = Absent \<and> module_inv ref_files_kernel s'"
proof -
  let ?K = ref_files_kernel and ?as = "[Call (Req_take 12), Run fresh_events]"
  obtain s1 s2 G data fs where idle: "take_ready ?K 12 demo_system" and take: "take_snapshot ?K 12 demo_system = Some (1, s1)"
    and run: "run_events ?K fresh_events s1 = Some s2" and s2: "current s2 = 7" "registry_map s2 7 = Some 100"
      "td_heap s2 100 = Some data" "have_snapshot data" "phase_of s2 7 = Active False"
    and clean: "clean_ready s2" and saved: "\<exists>fds p. files_saved 100 fds p s2"
    by (rule demo_running) blast
  have ready: "all_ready (act ?K) (action_ready ?K) ?as demo_system" by (simp add: idle take run)
  have ans: "answers (act ?K) ?as demo_system = Some ([1, 0], s2)" by (simp add: take run)
  obtain i f where "sf_files (ss_files (ss data)) = Some i" "files_structs s2 i = Some f"
    using saved s2(3) by (auto simp: files_saved_def)
  with process_can_exit [OF demo_module_inv ready ans clean, of 3] ans s2 show ?thesis by auto
qed

end
