(* ===== verification/Shared_Areas.thy ===== *)
theory Shared_Areas
  imports Take_Theorems
begin

text \<open>
  What the allow list does to shared memory. \<open>take_memory_snapshot\<close> looks at the list once for a
  whole area, and the page walk only asks again under \<open>AFL_SNAPSHOT_BLOCK\<close>: a range that meets a
  shared area brings all of the area into the snapshot. Shared pages are writable without being
  anonymous or exclusive, so nothing here rests on \<open>mem_wf\<close>.
\<close>

lemma areas_ok_unique:
  assumes "areas_ok vs" and "v \<in> set vs" "w \<in> set vs" and "vm_start v \<le> b" "b < vm_end v" "vm_start w \<le> b" "b < vm_end w"
  shows "v = w"
  using assms
proof (induction vs)
  case (Cons u vs)
  have later: "b < vm_start x" if "x \<in> set vs" "b < vm_end u" for x
    using that Cons.prems(1) by (auto simp: areas_ok_def dest!: bspec intro: less_le_trans)
  have "areas_ok vs" using Cons.prems(1) by (simp add: areas_ok_def)
  note IH = Cons.IH [OF this]
  from Cons.prems(2,3) show ?case
    using later [of v] later [of w] IH Cons.prems(4-7) by (auto dest: leD)
qed simp

text \<open>The page walker in a memory of any kind: entries sit at page boundaries.\<close>

definition entries_aligned :: "mem \<Rightarrow> mm_id \<Rightarrow> bool" where
  "entries_aligned M m \<longleftrightarrow> (\<forall>b. pte_present (pte_of M m b) \<longrightarrow> page_aligned b)"

definition any_walker_law :: "'k kernel_scheme \<Rightarrow> bool" where
  "any_walker_law K \<longleftrightarrow> (\<forall>M m v. entries_aligned M m \<longrightarrow> area_ok v \<longrightarrow> walks_area K M m v)"

lemma ref_any_walker_law: "any_walker_law ref_kernel"
  unfolding any_walker_law_def entries_aligned_def by (blast intro: ref_walks_area)

text \<open>C17. In whatever memory, with writable shared pages as well, a page of a shared area that has an
  entry is tracked exactly when some included range meets the area, be it at another page, and the
  lists do not take the page itself out: by default all pages of the area that are not excluded,
  and only the included ones under the option BLOCK.\<close>

theorem shared_page_tracked_iff:
  assumes m: "m = task_mm (tasks s (current s))" and fresh: "no_pages data0"
    and lists: "range_list s (Allowlist d) al" "range_list s (Blocklist d) bl"
      "ranges_aligned al" "ranges_aligned bl" "ranges_disjoint al bl"
    and areas: "areas_ok (mm_mmap (mms (mem s) m))" and al: "entries_aligned (mem s) m"
    and K: "no_oom K" "any_walker_law K"
    and v: "v \<in> set (mm_mmap (mms (mem s) m))" "vm_flags v AND VM_SHARED \<noteq> 0"
    and b: "vm_start v \<le> b" "b < vm_end v" "pte_present (pte_of (mem s) m b)"
  shows "\<exists>s' data'. take_memory_snapshot K d (put_td d data0 s) = Some (0, s') \<and> td_heap s' d = Some data' \<and>
     (get_snapshot_page K b data' \<noteq> None \<longleftrightarrow>
        list_ex (overlaps (vm_start v) (vm_end v)) al \<and> want_page (config data0) al bl b)"
proof -
  have walks: "walks_area K M m w" if "wrprotected m (mem s) M" "area_ok w" for M w
    using K(2) al that(2) wrprotected_pte(1) [OF that(1)] by (simp add: any_walker_law_def entries_aligned_def)
  obtain s' data' where r: "take_memory_snapshot K d (put_td d data0 s) = Some (0, s')"
    and taken: "area_taken K m (config data0) al bl (mem s) (mm_mmap (mms (mem s) m)) data0 data'"
    and t: "taking K m d (invalidate_task_data_cache K (tsk data0) (put_td d data0 s)) s' data'"
    by (rule take_memory_pages [OF m fresh lists areas K(1) walks])
  have "get_snapshot_page K b data' \<noteq> None \<longleftrightarrow> covered m (config data0) al bl (mem s) b"
    using b(3) taken no_pages_get [OF fresh] unfolding area_taken_def covered_def list_ex_iff by blast
  moreover have "w = v" if "w \<in> set (mm_mmap (mms (mem s) m))" "vm_start w \<le> b" "b < vm_end w" for w
    using areas_ok_unique [OF areas that(1) v(1) that(2,3) b(1,2)] .
  moreover have "selected (mms (mem s) m) (config data0) al v \<longleftrightarrow> list_ex (overlaps (vm_start v) (vm_end v)) al"
    using v(2) by (auto simp: selected_def skip_vma_def)
  ultimately have "get_snapshot_page K b data' \<noteq> None \<longleftrightarrow>
      list_ex (overlaps (vm_start v) (vm_end v)) al \<and> want_page (config data0) al bl b"
    using v(1) b unfolding covered_def list_ex_iff by metis
  with r taking_td [OF t] show ?thesis by blast
qed

text \<open>A process with a shared area of two pages, the first of them writable. It includes the second
  one, and the first is tracked.\<close>

definition shared_mem :: mem where
  "shared_mem =
     upd_mm 0 (\<lambda>mm. mm\<lparr>mm_mmap := map (\<lambda>v. v\<lparr>vm_flags := VM_SHARED + 3, vma_is_anonymous := False\<rparr>) (mm_mmap mm)\<rparr>)
       (fresh_mem\<lparr>frame_anon := (\<lambda>_. False)\<rparr>)"

definition shared_state :: mem_state where
  "shared_state = the (include_vmrange ref_kernel 0x2000 0x3000 (fresh_state\<lparr>mem := shared_mem\<rparr>))"

lemma shared_state_run:
  "include_vmrange ref_kernel 0x2000 0x3000 (fresh_state\<lparr>mem := shared_mem\<rparr>) = Some shared_state"
  "shared_state = publish_range (Allowlist 100) 0x2000 0x3000 (fresh_state\<lparr>mem := shared_mem\<rparr>)"
proof -
  let ?s = "fresh_state\<lparr>mem := shared_mem\<rparr>"
  have e: "ensure_task_data ref_kernel (current ?s) ?s = Some (Some 100, ?s)"
    by (simp add: ensure_task_data_def get_task_data_def fresh_state_def demo_mem_state_def new_task_data_def)
  have run: "include_vmrange ref_kernel 0x2000 0x3000 ?s = Some (publish_range (Allowlist 100) 0x2000 0x3000 ?s)"
    by (rule include_vmrange_run [OF ref_no_oom e])
  then show "shared_state = publish_range (Allowlist 100) 0x2000 0x3000 ?s" by (simp add: shared_state_def)
  with run show "include_vmrange ref_kernel 0x2000 0x3000 ?s = Some shared_state" by simp
qed

lemma shared_mem_facts:
  "pte_of shared_mem m a = pte_of fresh_mem m a"
  "mm_mmap (mms shared_mem 0) =
     [\<lparr>vma_id = 1, vm_start = 0x1000, vm_end = 0x3000, vm_flags = 11, vma_is_anonymous = False\<rparr>]"
  "\<not> anon_page shared_mem m a"
  by (simp_all add: shared_mem_def upd_mm_def fresh_mem_def demo_mem_def demo_mm_def vm_flag_defs set_pte_def anon_page_def)

lemma shared_state_facts:
  "mem shared_state = shared_mem" "tasks shared_state (current shared_state) = tasks fresh_state 7"
  "range_list shared_state (Allowlist 100) [\<lparr>vr_start = 0x2000, vr_end = 0x3000\<rparr>]"
  "range_list shared_state (Blocklist 100) []"
  unfolding shared_state_run(2)
proof -
  let ?s = "fresh_state\<lparr>mem := shared_mem\<rparr>" let ?t = "publish_range (Allowlist 100) 0x2000 0x3000 ?s"
  show "mem ?t = shared_mem" "tasks ?t (current ?t) = tasks fresh_state 7"
    by (simp_all add: publish_range_def new_vmrange_def Let_def fresh_state_def demo_mem_state_def)
  show "range_list ?t (Allowlist 100) [\<lparr>vr_start = 0x2000, vr_end = 0x3000\<rparr>]" by (rule publish_range_self) simp
  show "range_list ?t (Blocklist 100) []"
    by (rule publish_range_other) (simp_all add: range_list_def dlist_def fresh_state_def demo_mem_state_def)
qed

theorem shared_page_tracked_iff_witness:
  "\<exists>s' data'. include_vmrange ref_kernel 0x2000 0x3000 (fresh_state\<lparr>mem := shared_mem\<rparr>) = Some shared_state \<and>
     pte_rw (pte_of shared_mem 0 0x1000) \<and> \<not> anon_page shared_mem 0 0x1000 \<and>
     take_memory_snapshot ref_kernel 100 (put_td 100 marked_data shared_state) = Some (0, s') \<and>
     td_heap s' 100 = Some data' \<and> get_snapshot_page ref_kernel 0x1000 data' \<noteq> None"
proof -
  let ?v = "\<lparr>vma_id = 1, vm_start = 0x1000, vm_end = 0x3000, vm_flags = 11, vma_is_anonymous = False\<rparr>"
  let ?al = "[\<lparr>vr_start = 0x2000, vr_end = 0x3000\<rparr>] :: vmrange list"
  note f = shared_state_facts
  have m: "0 = task_mm (tasks shared_state (current shared_state))"
    by (simp add: f fresh_state_def demo_mem_state_def)
  have fresh: "no_pages marked_data"
    by (simp add: marked_data_def no_pages_def status_defs new_task_data_def zero_snapshot_def)
  have lists: "ranges_aligned ?al" "ranges_aligned []" "ranges_disjoint ?al []"
    by (simp_all add: ranges_aligned_def ranges_disjoint_def page_aligned_def offset_in_page_def)
  have areas: "areas_ok (mm_mmap (mms (mem shared_state) 0))"
    by (simp add: f shared_mem_facts areas_ok_def area_ok_def page_aligned_def offset_in_page_def)
  have al: "entries_aligned (mem shared_state) 0"
    by (simp add: f shared_mem_facts entries_aligned_def fresh_pte empty_pte_def page_aligned_def offset_in_page_def)
  have v: "?v \<in> set (mm_mmap (mms (mem shared_state) 0))" by (simp add: f shared_mem_facts)
  from shared_page_tracked_iff [OF m fresh f(3,4) lists areas al ref_no_oom ref_any_walker_law v, of "0x1000"]
  show ?thesis
    by (simp add: f shared_mem_facts fresh_pte vm_flag_defs overlaps_def want_page_def shared_state_run(1)
        marked_data_def status_defs new_task_data_def config_has_def)
qed

end
