(* ===== verification/Printing.thy ===== *)
theory Printing
  imports Prelude
begin

text \<open>
  The output macros of \<open>src/debug.h\<close>. The kernel log is the list of the calls of \<open>printk\<close>, each
  with its level and its text; the conversions are those of the kernel's \<open>vsnprintf\<close> that the
  module uses. Reading functions give back what was printed.
\<close>

section \<open>The kernel log\<close>

datatype log_level = KERN_CRIT | KERN_ERR | KERN_WARNING | KERN_INFO | KERN_DEBUG | KERN_CONT

type_synonym klog = "(log_level \<times> string) list"

definition log_text :: "klog \<Rightarrow> string" where "log_text l = concat (map snd l)"

abbreviation newline :: char where "newline \<equiv> CHR 0x0A"

section \<open>Conversions\<close>

definition digit_char :: "bool \<Rightarrow> nat \<Rightarrow> char" where
  "digit_char upper n = char_of (if n < 10 then 48 + n else if upper then 55 + n else 87 + n)"

fun digits :: "nat \<Rightarrow> nat \<Rightarrow> nat list" where
  "digits b n = (if b < 2 \<or> n < b then [n] else digits b (n div b) @ [n mod b])"

declare digits.simps [simp del]

text \<open>A number in base \<open>b\<close>, padded on the left to the given width.\<close>

definition fmt_num :: "bool \<Rightarrow> nat \<Rightarrow> char \<Rightarrow> nat \<Rightarrow> nat \<Rightarrow> string" where
  "fmt_num upper b pad width n =
     (let ds = map (digit_char upper) (digits b n) in replicate (width - length ds) pad @ ds)"

definition fmt_02hhX :: "8 word \<Rightarrow> string" where "fmt_02hhX x = fmt_num True 16 CHR ''0'' 2 (unat x)"
definition fmt_016lx :: "u64 \<Rightarrow> string" where "fmt_016lx x = fmt_num False 16 CHR ''0'' 16 (unat x)"
definition fmt_08lx :: "u64 \<Rightarrow> string" where "fmt_08lx x = fmt_num False 16 CHR ''0'' 8 (unat x)"
definition fmt_d :: "nat \<Rightarrow> string" where "fmt_d n = fmt_num False 10 CHR '' '' 0 n"
definition fmt_4d :: "nat \<Rightarrow> string" where "fmt_4d n = fmt_num False 10 CHR '' '' 4 n"

lemmas fmt_defs = fmt_02hhX_def fmt_016lx_def fmt_08lx_def fmt_d_def fmt_4d_def

section \<open>The macros\<close>

definition FATAL :: "string \<Rightarrow> string \<Rightarrow> nat \<Rightarrow> string \<Rightarrow> klog" where
  "FATAL func file line msg =
     [(KERN_CRIT, ''[AFL++] FATAL in '' @ func @ ''(), '' @ file @ '':'' @ fmt_d line @ [newline]),
      (KERN_CRIT, ''  Message: '' @ msg),
      (KERN_CRIT, [newline])]"

definition WARNF :: "string \<Rightarrow> klog" where "WARNF msg = [(KERN_WARNING, ''[AFL++] WARNING: '' @ msg)]"

definition SAYF :: "string \<Rightarrow> klog" where "SAYF msg = [(KERN_INFO, ''[AFL++] SAY: '' @ msg)]"

text \<open>Lines after the first are labelled with the offset of their first byte. \<open>mem\<close> gives the
  bytes behind the pointer; the counter is an \<open>int\<close>, so sizes are below its maximum.\<close>

function hexdump_loop :: "string \<Rightarrow> (nat \<Rightarrow> 8 word) \<Rightarrow> nat \<Rightarrow> nat \<Rightarrow> klog" where
  "hexdump_loop prefix mem sz i =
     (if i < sz
      then (KERN_CONT, fmt_02hhX (mem i) @ '' '') #
           (if (i + 1) mod 16 = 0 \<and> i < sz - 1
            then [(KERN_CONT, newline # prefix @ ''  ['' @ fmt_4d (i + 1) @ ''] '')] else []) @
           hexdump_loop prefix mem sz (i + 1)
      else [])"
  by pat_completeness auto
termination by (relation "measure (\<lambda>(prefix, mem, sz, i). sz - i)") auto

declare hexdump_loop.simps [simp del]

definition HEXDUMP :: "log_level \<Rightarrow> string \<Rightarrow> (nat \<Rightarrow> 8 word) \<Rightarrow> nat \<Rightarrow> klog" where
  "HEXDUMP level prefix mem sz =
     (level, prefix @ ''  [0] '') # hexdump_loop prefix mem sz 0 @ [(KERN_CONT, [newline])]"

text \<open>Without \<open>DEBUG\<close> the two debugging macros are empty.\<close>

definition DBG_PRINT :: "bool \<Rightarrow> string \<Rightarrow> klog" where
  "DBG_PRINT debug msg = (if debug then [(KERN_DEBUG, ''[AFL++] DEBUG: '' @ msg)] else [])"

definition DBG_HEXDUMP :: "bool \<Rightarrow> (nat \<Rightarrow> 8 word) \<Rightarrow> nat \<Rightarrow> klog" where
  "DBG_HEXDUMP debug mem sz = (if debug then HEXDUMP KERN_DEBUG ''[AFL++] DEBUG: '' mem sz else [])"

definition PREEMPT_DEBUG :: "string \<Rightarrow> string \<Rightarrow> nat \<Rightarrow> string \<Rightarrow> nat \<Rightarrow> klog" where
  "PREEMPT_DEBUG func file line tag count =
     SAYF (''['' @ func @ ''():'' @ file @ '':'' @ fmt_d line @ ''] '' @ tag @ '' preempt_count() == '' @
           fmt_d count @ [newline])"

section \<open>Reading numbers back\<close>

definition digit_value :: "char \<Rightarrow> nat" where
  "digit_value c =
     (let n = of_char c in if n < 58 then n - 48 else if n < 71 then n - 55 else n - 87)"

definition read_num :: "nat \<Rightarrow> string \<Rightarrow> nat" where
  "read_num b s = foldl (\<lambda>n c. n * b + digit_value c) 0 s"

lemma of_char_digit:
  "n < 16 \<Longrightarrow> of_char (digit_char upper n) = (if n < 10 then 48 + n else if upper then 55 + n else 87 + n)"
  unfolding digit_char_def of_char_of by auto

lemma digit_value_char: "n < 16 \<Longrightarrow> digit_value (digit_char upper n) = n"
  unfolding digit_value_def by (simp add: of_char_digit Let_def)

lemma digits_bound: "2 \<le> b \<Longrightarrow> d \<in> set (digits b n) \<Longrightarrow> d < b"
proof (induction b n rule: digits.induct)
  case (1 b n)
  then show ?case by (cases "n < b") (auto simp: digits.simps [of b n])
qed

lemma read_num_append: "read_num b (s @ [c]) = read_num b s * b + digit_value c"
  by (simp add: read_num_def)

lemma read_num_digits:
  "2 \<le> b \<Longrightarrow> b \<le> 16 \<Longrightarrow> read_num b (map (digit_char upper) (digits b n)) = n"
proof (induction b n rule: digits.induct)
  case (1 b n)
  show ?case
  proof (cases "n < b")
    case True
    then show ?thesis using "1.prems" by (subst digits.simps) (simp add: read_num_def digit_value_char)
  next
    case False
    then have "read_num b (map (digit_char upper) (digits b (n div b))) = n div b" using 1 by simp
    moreover have "n mod b < b" using "1.prems" by simp
    then have "n mod b < 16" using "1.prems" by linarith
    ultimately show ?thesis
      using False "1.prems" by (subst digits.simps) (simp add: read_num_append digit_value_char)
  qed
qed

lemma read_num_zeros: "read_num b (replicate k CHR ''0'' @ s) = read_num b s"
proof -
  have "foldl (\<lambda>n c. n * b + digit_value c) 0 (replicate k CHR ''0'') = 0"
    by (induction k) (simp_all add: digit_value_def)
  then show ?thesis by (simp add: read_num_def)
qed

lemma read_fmt_num: "2 \<le> b \<Longrightarrow> b \<le> 16 \<Longrightarrow> read_num b (fmt_num upper b CHR ''0'' w n) = n"
  by (simp add: fmt_num_def Let_def read_num_zeros read_num_digits)

lemma length_digits: "2 \<le> b \<Longrightarrow> 0 < w \<Longrightarrow> n < b ^ w \<Longrightarrow> length (digits b n) \<le> w"
proof (induction b n arbitrary: w rule: digits.induct)
  case (1 b n)
  show ?case
  proof (cases "n < b")
    case False
    have "w \<noteq> 1" using False "1.prems" by auto
    then obtain v where w: "w = Suc v" "0 < v" using "1.prems" by (cases w) auto
    have "n div b < b ^ v" using "1.prems" w by (intro less_mult_imp_div_less) (simp add: mult.commute)
    then have "length (digits b (n div b)) \<le> v" using 1 False w by simp
    then show ?thesis using False "1.prems" w by (subst digits.simps) simp
  qed (use "1.prems" in \<open>subst digits.simps, simp\<close>)
qed

lemma length_fmt_num: "2 \<le> b \<Longrightarrow> 0 < w \<Longrightarrow> n < b ^ w \<Longrightarrow> length (fmt_num upper b c w n) = w"
  using length_digits [of b w n] by (simp add: fmt_num_def Let_def)

lemma fmt_016lx_read [simp]: "read_num 16 (fmt_016lx x) = unat x" "length (fmt_016lx x) = 16"
proof -
  have "unat x < 16 ^ 16" using unsigned_less [of x] by simp
  then show "length (fmt_016lx x) = 16" by (simp add: fmt_016lx_def length_fmt_num)
qed (simp add: fmt_016lx_def read_fmt_num)

lemma fmt_08lx_read [simp]: "read_num 16 (fmt_08lx x) = unat x"
  by (simp add: fmt_08lx_def read_fmt_num)

lemma fmt_02hhX_read [simp]: "read_num 16 (fmt_02hhX x) = unat x" "length (fmt_02hhX x) = 2"
proof -
  have "unat x < 16 ^ 2" using unsigned_less [of x] by simp
  then show "length (fmt_02hhX x) = 2" by (simp add: fmt_02hhX_def length_fmt_num)
qed (simp add: fmt_02hhX_def read_fmt_num)

text \<open>The characters that a conversion produces.\<close>

definition is_digit_char :: "char \<Rightarrow> bool" where
  "is_digit_char c \<longleftrightarrow> (\<exists>upper d. d < 16 \<and> c = digit_char upper d)"

lemma fmt_num_chars: "2 \<le> b \<Longrightarrow> b \<le> 16 \<Longrightarrow> c \<in> set (fmt_num upper b pad w n) \<Longrightarrow> c = pad \<or> is_digit_char c"
  using digits_bound [of b _ n] order_less_le_trans
  by (fastforce simp: fmt_num_def Let_def is_digit_char_def split: if_splits)

lemma is_digit_char_not:
  "is_digit_char c \<Longrightarrow> c \<noteq> newline \<and> c \<noteq> CHR '' '' \<and> c \<noteq> CHR '']''"
proof -
  assume "is_digit_char c"
  then obtain upper d where "d < 16" "c = digit_char upper d" by (auto simp: is_digit_char_def)
  then have "(of_char c :: nat) \<ge> 48 \<and> (of_char c :: nat) \<noteq> 93" by (simp add: of_char_digit)
  then show ?thesis by auto
qed

section \<open>The layout of a dump\<close>

text \<open>What the loop is meant to print: lines of sixteen bytes, each with the offset of its first byte.\<close>

definition dump_label :: "string \<Rightarrow> nat \<Rightarrow> string" where
  "dump_label prefix i = prefix @ (if i = 0 then ''  [0] '' else ''  ['' @ fmt_4d i @ ''] '')"

definition dump_bytes :: "8 word list \<Rightarrow> string" where
  "dump_bytes bs = concat (map (\<lambda>b. fmt_02hhX b @ '' '') bs)"

function dump_lines :: "string \<Rightarrow> nat \<Rightarrow> 8 word list \<Rightarrow> string list" where
  "dump_lines prefix i bs =
     (if length bs \<le> 16 then [dump_label prefix i @ dump_bytes bs]
      else (dump_label prefix i @ dump_bytes (take 16 bs)) # dump_lines prefix (i + 16) (drop 16 bs))"
  by pat_completeness auto
termination by (relation "measure (\<lambda>(prefix, i, bs). length bs)") auto

declare dump_lines.simps [simp del]

definition with_newlines :: "string list \<Rightarrow> string" where
  "with_newlines ls = concat (map (\<lambda>l. l @ [newline]) ls)"

lemma log_text_simps [simp]:
  "log_text [] = []" "log_text ((level, msg) # l) = msg @ log_text l" "log_text (l @ l') = log_text l @ log_text l'"
  by (simp_all add: log_text_def)

lemma dump_bytes_simps [simp]:
  "dump_bytes [] = []" "dump_bytes (b # bs) = fmt_02hhX b @ CHR '' '' # dump_bytes bs"
  "dump_bytes (bs @ bs') = dump_bytes bs @ dump_bytes bs'"
  by (simp_all add: dump_bytes_def)

text \<open>Bytes that do not end a line.\<close>

lemma hexdump_loop_run:
  "i + n \<le> sz \<Longrightarrow> (\<And>j. i \<le> j \<Longrightarrow> j < i + n \<Longrightarrow> (j + 1) mod 16 \<noteq> 0 \<or> j + 1 = sz) \<Longrightarrow>
   log_text (hexdump_loop prefix mem sz i) = dump_bytes (map mem [i ..< i + n]) @ log_text (hexdump_loop prefix mem sz (i + n))"
proof (induction n arbitrary: i)
  case (Suc n)
  have "(i + 1) mod 16 \<noteq> 0 \<or> i + 1 = sz" using Suc.prems(2) [of i] by simp
  then have step: "log_text (hexdump_loop prefix mem sz i) =
      fmt_02hhX (mem i) @ CHR '' '' # log_text (hexdump_loop prefix mem sz (Suc i))"
    using Suc.prems(1) by (subst hexdump_loop.simps) auto
  have "log_text (hexdump_loop prefix mem sz (Suc i)) =
      dump_bytes (map mem [Suc i ..< Suc i + n]) @ log_text (hexdump_loop prefix mem sz (Suc i + n))"
    by (rule Suc.IH) (use Suc.prems in auto)
  with step show ?case by (simp add: upt_conv_Cons del: upt_Suc)
qed simp

lemma hexdump_loop_lines:
  assumes "i mod 16 = 0" and "i \<le> sz"
  shows "dump_label prefix i @ log_text (hexdump_loop prefix mem sz i) @ [newline] =
     with_newlines (dump_lines prefix i (map mem [i ..< sz]))"
  using assms
proof (induction "sz - i" arbitrary: i rule: less_induct)
  case less
  have inner: "(j + 1) mod 16 \<noteq> 0" if j0: "i \<le> j" "j < i + 15" for j
  proof -
    obtain k where "i = 16 * k" using less.prems(1) by auto
    moreover obtain r where "j = i + r" using le_Suc_ex [OF j0(1)] by blast
    ultimately have j: "j + 1 = (r + 1) + 16 * k" and r: "r + 1 < 16" using j0(2) by simp_all
    have "(j + 1) mod 16 = r + 1" unfolding j mod_mult_self2 using r by (rule mod_less)
    then show ?thesis by simp
  qed
  show ?case
  proof (cases "sz - i \<le> 16")
    case True
    have ends: "(j + 1) mod 16 \<noteq> 0 \<or> j + 1 = sz" if "i \<le> j" "j < i + (sz - i)" for j
      using inner [OF that(1)] that True less.prems(2) by (cases "j < i + 15") auto
    have "log_text (hexdump_loop prefix mem sz i) =
        dump_bytes (map mem [i ..< i + (sz - i)]) @ log_text (hexdump_loop prefix mem sz (i + (sz - i)))"
      by (rule hexdump_loop_run) (use less.prems(2) ends in auto)
    then have "log_text (hexdump_loop prefix mem sz i) = dump_bytes (map mem [i ..< sz])"
      using less.prems(2) by (simp add: hexdump_loop.simps [of _ _ _ sz])
    then show ?thesis using True by (simp add: dump_lines.simps [of prefix i] with_newlines_def)
  next
    case False
    have run: "log_text (hexdump_loop prefix mem sz i) =
        dump_bytes (map mem [i ..< i + 15]) @ log_text (hexdump_loop prefix mem sz (i + 15))"
      by (rule hexdump_loop_run) (use inner False in auto)
    have next_line: "i + 15 + 1 = i + 16" "(i + 16) mod 16 = 0" "i + 15 < sz" "i + 15 < sz - 1"
      using False less.prems(1) by simp_all
    have turn: "log_text (hexdump_loop prefix mem sz (i + 15)) = fmt_02hhX (mem (i + 15)) @ CHR '' '' # newline #
        dump_label prefix (i + 16) @ log_text (hexdump_loop prefix mem sz (i + 16))"
      by (subst hexdump_loop.simps) (simp only: next_line if_True simp_thms, simp add: dump_label_def)
    have IH: "dump_label prefix (i + 16) @ log_text (hexdump_loop prefix mem sz (i + 16)) @ [newline] =
        with_newlines (dump_lines prefix (i + 16) (map mem [i + 16 ..< sz]))"
      by (rule less.hyps) (use less.prems False in auto)
    have "[i ..< i + 16] = [i ..< i + 15] @ [i + 15]"
      using upt_Suc_append [of i "i + 15"] by (simp del: upt_Suc add: eval_nat_numeral)
    then have line: "dump_bytes (map mem [i ..< i + 16]) = dump_bytes (map mem [i ..< i + 15]) @ fmt_02hhX (mem (i + 15)) @ '' ''"
      by (simp del: upt_Suc)
    have "take 16 (map mem [i ..< sz]) = map mem [i ..< i + 16]" using False by (simp add: take_map)
    moreover have "drop 16 (map mem [i ..< sz]) = map mem [i + 16 ..< sz]" by (simp add: drop_map)
    ultimately have "dump_lines prefix i (map mem [i ..< sz]) =
        (dump_label prefix i @ dump_bytes (map mem [i ..< i + 16])) # dump_lines prefix (i + 16) (map mem [i + 16 ..< sz])"
      using False by (simp add: dump_lines.simps [of prefix i])
    then show ?thesis using IH by (simp add: run turn line with_newlines_def)
  qed
qed

text \<open>The text of a dump is a line for every sixteen bytes, the last one possibly shorter, each with
  the prefix, the offset of its first byte and the bytes in hexadecimal.\<close>

lemma hexdump_layout:
  "log_text (HEXDUMP level prefix mem sz) = with_newlines (dump_lines prefix 0 (map mem [0 ..< sz]))"
  using hexdump_loop_lines [of 0 sz prefix mem] by (simp add: HEXDUMP_def dump_label_def)

section \<open>Reading a dump\<close>

primrec lines_of :: "string \<Rightarrow> string \<Rightarrow> string list" where
  "lines_of [] l = []"
| "lines_of (c # cs) l = (if c = newline then l # lines_of cs [] else lines_of cs (l @ [c]))"

fun read_bytes :: "string \<Rightarrow> 8 word list" where
  "read_bytes (a # b # c # cs) = word_of_nat (read_num 16 [a, b]) # read_bytes cs"
| "read_bytes _ = []"

definition read_line :: "nat \<Rightarrow> string \<Rightarrow> 8 word list" where
  "read_line k l = read_bytes (drop 2 (dropWhile (\<lambda>c. c \<noteq> CHR '']'') (drop k l)))"

definition read_dump :: "nat \<Rightarrow> string \<Rightarrow> 8 word list" where
  "read_dump k text = concat (map (read_line k) (lines_of text []))"

lemma lines_of_line: "newline \<notin> set l \<Longrightarrow> lines_of (l @ newline # rest) l0 = (l0 @ l) # lines_of rest []"
  by (induction l arbitrary: l0) auto

lemma lines_of_newlines: "\<forall>l \<in> set ls. newline \<notin> set l \<Longrightarrow> lines_of (with_newlines ls) [] = ls"
  by (induction ls) (simp_all add: with_newlines_def lines_of_line)

lemma read_bytes_dump [simp]: "read_bytes (dump_bytes bs) = bs"
proof (induction bs)
  case (Cons b bs)
  obtain x y where xy: "fmt_02hhX b = [x, y]"
    using fmt_02hhX_read(2) [of b] by (metis (no_types) length_0_conv length_Suc_conv numeral_2_eq_2)
  have "read_num 16 [x, y] = unat b" using fmt_02hhX_read(1) [of b] by (simp add: xy)
  then show ?case using Cons.IH by (simp add: xy)
qed simp

lemma dropWhile_not_in: "x \<notin> set l \<Longrightarrow> dropWhile (\<lambda>c. c \<noteq> x) (l @ x # rest) = x # rest"
  by (induction l) auto

lemma fmt_4d_chars: "c \<in> set (fmt_4d n) \<Longrightarrow> c \<noteq> CHR '']'' \<and> c \<noteq> newline"
  using fmt_num_chars [of 10 c False "CHR '' ''" 4 n] by (auto simp: fmt_4d_def dest: is_digit_char_not)

lemma read_line_label: "read_line (length prefix) (dump_label prefix i @ dump_bytes bs) = bs"
proof (cases "i = 0")
  case True
  then show ?thesis by (simp add: read_line_def dump_label_def)
next
  case False
  have "CHR '']'' \<notin> set (''  ['' @ fmt_4d i)" using fmt_4d_chars by auto
  from dropWhile_not_in [OF this, of "CHR '' '' # dump_bytes bs"] False show ?thesis
    by (simp add: read_line_def dump_label_def)
qed

lemma dump_bytes_newline: "newline \<notin> set (dump_bytes bs)"
proof -
  have "newline \<notin> set (fmt_02hhX b)" for b
    using fmt_num_chars [of 16 newline True "CHR ''0''" 2 "unat b"] by (auto simp: fmt_02hhX_def dest: is_digit_char_not)
  then show ?thesis by (auto simp: dump_bytes_def)
qed

lemma dump_lines_newline: "newline \<notin> set prefix \<Longrightarrow> l \<in> set (dump_lines prefix i bs) \<Longrightarrow> newline \<notin> set l"
proof (induction prefix i bs rule: dump_lines.induct)
  case (1 prefix i bs)
  have "newline \<notin> set (dump_label prefix i @ dump_bytes cs)" for cs
    using "1.prems"(1) dump_bytes_newline [of cs] fmt_4d_chars by (auto simp: dump_label_def)
  then show ?case using 1 by (cases "length bs \<le> 16") (auto simp: dump_lines.simps [of prefix i bs])
qed

lemma read_dump_lines: "concat (map (read_line (length prefix)) (dump_lines prefix i bs)) = bs"
proof (induction prefix i bs rule: dump_lines.induct)
  case (1 prefix i bs)
  then show ?case
    by (cases "length bs \<le> 16") (simp_all add: dump_lines.simps [of prefix i bs] read_line_label)
qed

text \<open>C35. A dump can be read back: its lines, without prefix and label, hold exactly the bytes that
  were dumped, whatever their number and the prefix.\<close>

theorem hexdump_reads_back:
  assumes "newline \<notin> set prefix"
  shows "read_dump (length prefix) (log_text (HEXDUMP level prefix mem sz)) = map mem [0 ..< sz]"
proof -
  have "lines_of (log_text (HEXDUMP level prefix mem sz)) [] = dump_lines prefix 0 (map mem [0 ..< sz])"
    unfolding hexdump_layout by (rule lines_of_newlines) (use dump_lines_newline [OF assms] in blast)
  then show ?thesis by (simp add: read_dump_def read_dump_lines)
qed

theorem hexdump_reads_back_witness:
  "read_dump (length ''[AFL++] DEBUG: '') (log_text (HEXDUMP KERN_DEBUG ''[AFL++] DEBUG: '' (\<lambda>i. word_of_nat (7 * i)) 40)) =
     map (\<lambda>i. word_of_nat (7 * i)) [0 ..< 40]"
  using hexdump_reads_back [of "''[AFL++] DEBUG: ''" KERN_DEBUG "\<lambda>i. word_of_nat (7 * i)" 40] by simp

end
