(* ===== verification/Debug_Build.thy ===== *)
theory Debug_Build
  imports Sessions Page_Typing Printing
begin

text \<open>
  The module compiled with \<open>DEBUG\<close>: \<open>dump_memory_snapshot\<close> and the listing of the ranges in
  \<open>src/memory.c\<close>, and the entry points of \<open>src/snapshot.c\<close> with their calls of the former. The
  theorems show that a debug build behaves as any other, and what its dumps tell. The dump goes
  through the dirty list, whose pages \<open>clean_memory_snapshot\<close> frees without unlinking them: a page
  that is no longer in the table cannot be read. Messages that are printed one by one, without a
  loop, are left out of the log.
\<close>

section \<open>Dumps\<close>

text \<open>\<open>%p\<close> prints a hash of the pointer that the kernel draws at boot: the parameter \<open>fmt_p\<close>.\<close>

definition dump_bucket :: "nat \<Rightarrow> snapshot_page list \<Rightarrow> klog" where
  "dump_bucket i sps =
     concat (map (\<lambda>sp. if dirty sp
                       then DBG_PRINT True (''  '' @ fmt_d i @ '': 0x'' @ fmt_016lx (page_base sp) @ [newline])
                       else []) sps)"

definition dump_buckets :: "(nat \<Rightarrow> snapshot_page list) \<Rightarrow> klog" where
  "dump_buckets table = concat (map (\<lambda>i. dump_bucket i (table i)) [0 ..< 2 ^ SNAPSHOT_HASHTABLE_SZ])"

text \<open>The dirty list holds pointers to pages. A page object lives as long as it is in the table,
  under the address that stands for it on the list; reading one that has been freed is \<^term>\<open>None\<close>.\<close>

definition dump_dirty_list :: "'k kernel_scheme \<Rightarrow> task_data \<Rightarrow> u64 list \<Rightarrow> klog option" where
  "dump_dirty_list K data bs =
     do { sps \<leftarrow> those (map (\<lambda>b. get_snapshot_page K b data) bs);
          Some (concat (map (\<lambda>sp. DBG_PRINT True (''  0x'' @ fmt_016lx (page_base sp) @ [newline])) sps)) }"

definition dump_memory_snapshot ::
  "(nat \<Rightarrow> string) \<Rightarrow> 'k kernel_scheme \<Rightarrow> nat option \<Rightarrow> 's td_state_scheme \<Rightarrow> klog option" where
  "dump_memory_snapshot fmt_p K data s =
     (case data of
        None \<Rightarrow> Some []
      | Some d \<Rightarrow>
          do { data \<leftarrow> td_heap s d;
               listed \<leftarrow> dump_dirty_list K data (dirty_pages (ss data));
               Some (DBG_PRINT True (''dumping dirty pages from task_data '' @ fmt_p d @ '':'') @
                     dump_buckets (ss_pages (ss data)) @
                     DBG_PRINT True (''dumping pages in dirty list:'' @ [newline]) @ listed) })"

text \<open>The two loops at the start of \<open>take_memory_snapshot\<close>.\<close>

definition dump_range :: "string \<Rightarrow> vmrange \<Rightarrow> klog" where
  "dump_range title r =
     DBG_PRINT True (title @ '': 0x'' @ fmt_08lx (vr_start r) @ '' - 0x'' @ fmt_08lx (vr_end r) @ [newline])"

definition dump_range_list :: "string \<Rightarrow> lnode \<Rightarrow> 's list_state_scheme \<Rightarrow> klog option" where
  "dump_range_list title head s =
     do { ns \<leftarrow> list_entries (lheap s) head;
          rs \<leftarrow> those (map (vmrange_at s) ns);
          Some (concat (map (dump_range title) rs)) }"

definition dump_vmranges :: "nat \<Rightarrow> 's list_state_scheme \<Rightarrow> klog option" where
  "dump_vmranges d s =
     do { allowed \<leftarrow> dump_range_list ''Allowlist'' (Allowlist d) s;
          blocked \<leftarrow> dump_range_list ''Blocklist'' (Blocklist d) s;
          Some (allowed @ blocked) }"

section \<open>The entry points with their dumps\<close>

definition debug_take_snapshot ::
  "(nat \<Rightarrow> string) \<Rightarrow> 'k files_kernel_scheme \<Rightarrow> u32 \<Rightarrow> 's files_state_scheme \<Rightarrow> (klog \<times> int \<times> 's files_state_scheme) option" where
  "debug_take_snapshot fmt_p K cfg s =
     do { (found, s1) \<leftarrow> ensure_task_data K (current s) s;
          d \<leftarrow> found;
          data \<leftarrow> td_heap s1 d;
          if have_snapshot data then Some ([], 0, s1)
          else do {
            let s2 = put_td d (initialize_snapshot cfg data s1) s1;
            ranges \<leftarrow> dump_vmranges d s2;
            (_, s3) \<leftarrow> take_memory_snapshot K d s2;
            (_, s4) \<leftarrow> take_files_snapshot K d s3;
            pages \<leftarrow> dump_memory_snapshot fmt_p K (Some d) s4;
            Some (ranges @ pages, 1, s4) } }"

definition debug_restore_snapshot ::
  "(nat \<Rightarrow> string) \<Rightarrow> 'k files_kernel_scheme \<Rightarrow> nat \<Rightarrow> 's system_state_scheme \<Rightarrow> (klog \<times> 's system_state_scheme) option" where
  "debug_restore_snapshot fmt_p K d s =
     do { pages \<leftarrow> dump_memory_snapshot fmt_p K (Some d) s;
          s1 \<leftarrow> recover_threads_snapshot d s;
          s2 \<leftarrow> recover_state K d s1;
          (_, s3) \<leftarrow> recover_memory_snapshot K d s2;
          (_, s4) \<leftarrow> recover_files_snapshot K d (signal_threads s3 (current s3)) s3;
          Some (pages, s4) }"

definition debug_recover_snapshot ::
  "(nat \<Rightarrow> string) \<Rightarrow> 'k files_kernel_scheme \<Rightarrow> 's system_state_scheme \<Rightarrow> (klog \<times> int \<times> 's system_state_scheme) option" where
  "debug_recover_snapshot fmt_p K s =
     do { found \<leftarrow> get_task_data (current s) s;
          (case found of
             None \<Rightarrow> Some ([], 1, s)
           | Some d \<Rightarrow> do { (log, s1) \<leftarrow> debug_restore_snapshot fmt_p K d s; Some (log, 0, s1) }) }"

definition debug_clean_snapshot ::
  "(nat \<Rightarrow> string) \<Rightarrow> 'k kernel_scheme \<Rightarrow> 's files_state_scheme \<Rightarrow> (klog \<times> 's files_state_scheme) option" where
  "debug_clean_snapshot fmt_p K s =
     do { found \<leftarrow> get_task_data (current s) s;
          (case found of
             None \<Rightarrow> Some ([], s)
           | Some d \<Rightarrow>
               do { pages \<leftarrow> dump_memory_snapshot fmt_p K (Some d) s;
                    s1 \<leftarrow> clean_memory_snapshot K d s;
                    s2 \<leftarrow> clean_files_snapshot d s1;
                    data \<leftarrow> td_heap s2 d;
                    Some (pages, remove_task_data d (put_td d (clear_snapshot data) s2)) }) }"

definition debug_exit_snapshot ::
  "(nat \<Rightarrow> string) \<Rightarrow> 'k files_kernel_scheme \<Rightarrow> 's system_state_scheme \<Rightarrow> (klog \<times> int \<times> 's system_state_scheme) option" where
  "debug_exit_snapshot fmt_p K s =
     do { found \<leftarrow> get_task_data (current s) s;
          (case found of
             None \<Rightarrow> Some ([], 1, s)
           | Some d \<Rightarrow>
               do { data \<leftarrow> td_heap s d;
                    if config_has (config data) AFL_SNAPSHOT_EXIT \<and> have_snapshot data
                    then do { (log, s1) \<leftarrow> debug_restore_snapshot fmt_p K d s; Some (log, 0, s1) }
                    else do { (log, s1) \<leftarrow> (if had_snapshot data then debug_clean_snapshot fmt_p K s else Some ([], s));
                              Some (log, 1, s1) } }) }"

definition debug_do_exit_hook ::
  "(nat \<Rightarrow> string) \<Rightarrow> 'k kernel_scheme \<Rightarrow> int \<Rightarrow> 's system_state_scheme \<Rightarrow> (klog \<times> 's system_state_scheme) option" where
  "debug_do_exit_hook fmt_p K code s =
     do { found \<leftarrow> get_task_data (current s) s;
          (case found of
             None \<Rightarrow> Some ([], do_exit_orig code s)
           | Some d \<Rightarrow>
               do { data \<leftarrow> td_heap s d;
                    (log, s1) \<leftarrow> (if had_snapshot data then debug_clean_snapshot fmt_p K s else Some ([], s));
                    Some (log, do_exit_orig code s1) }) }"

fun debug_serve ::
  "(nat \<Rightarrow> string) \<Rightarrow> 'k files_kernel_scheme \<Rightarrow> request \<Rightarrow> 's system_state_scheme \<Rightarrow> (klog \<times> int \<times> 's system_state_scheme) option" where
  "debug_serve fmt_p K (Req_take cfg) s = debug_take_snapshot fmt_p K cfg s"
| "debug_serve fmt_p K Req_restore s = debug_recover_snapshot fmt_p K s"
| "debug_serve fmt_p K Req_clean s = map_option (\<lambda>(log, s'). (log, 0, s')) (debug_clean_snapshot fmt_p K s)"
| "debug_serve fmt_p K Req_exit_group s = debug_exit_snapshot fmt_p K s"
| "debug_serve fmt_p K (Req_do_exit code) s = map_option (\<lambda>(log, s'). (log, 0, s')) (debug_do_exit_hook fmt_p K code s)"
| "debug_serve fmt_p K r s = map_option (Pair []) (serve K r s)"

section \<open>A debug build behaves as any other\<close>

lemma those_map_Some: "those (map (\<lambda>x. Some (f x)) xs) = Some (map f xs)"
  by (induction xs) simp_all

lemma those_map_total: "\<forall>x \<in> set xs. f x \<noteq> None \<Longrightarrow> \<exists>ys. those (map f xs) = Some ys"
  by (induction xs) auto

lemma those_map_inverse:
  "those (map f xs) = Some ys \<Longrightarrow> (\<And>x y. f x = Some y \<Longrightarrow> g y = x) \<Longrightarrow> map g ys = xs"
  by (induction xs arbitrary: ys) (auto split: option.splits)

text \<open>A dump ends, and reads no freed page, when every listed page is in the table.\<close>

lemma dump_memory_total:
  assumes "td_heap s d = Some data" and "\<And>b. b \<in> set (dirty_pages (ss data)) \<Longrightarrow> get_snapshot_page K b data \<noteq> None"
  shows "\<exists>log. dump_memory_snapshot fmt_p K (Some d) s = Some log"
proof -
  obtain sps where "those (map (\<lambda>b. get_snapshot_page K b data) (dirty_pages (ss data))) = Some sps"
    using those_map_total [of "dirty_pages (ss data)" "\<lambda>b. get_snapshot_page K b data"] assms(2) by blast
  then show ?thesis using assms(1) by (simp add: dump_memory_snapshot_def dump_dirty_list_def)
qed

lemma dump_memory_typed: "typed_at K d s \<Longrightarrow> \<exists>log. dump_memory_snapshot fmt_p K (Some d) s = Some log"
  by (auto simp: typed_at_def intro!: dump_memory_total dest: table_typedD(5))

text \<open>The listing of a well-formed list ends and shows its ranges.\<close>

lemma dump_range_list_ok:
  assumes "range_list s head rs"
  shows "dump_range_list title head s = Some (concat (map (dump_range title) rs))"
proof -
  obtain ns where d: "dlist (lheap s) head (map Vmrange_node ns)" and r: "map (vmranges s) ns = map Some rs"
    using assms by (auto simp: range_list_def)
  have "map (vmrange_at s) (map Vmrange_node ns) = map Some rs" using r by (simp add: vmrange_at_def comp_def)
  then have "those (map (vmrange_at s) (map Vmrange_node ns)) = Some rs"
    using those_map_Some [of "\<lambda>r. r" rs] by simp
  then show ?thesis by (simp add: dump_range_list_def list_entries_dlist [OF d] del: map_map)
qed

lemma dump_vmranges_total:
  assumes "lists_ok s" and "td_heap s d \<noteq> None"
  shows "\<exists>log. dump_vmranges d s = Some log"
proof -
  obtain al bl where "range_list s (Allowlist d) al" "range_list s (Blocklist d) bl"
    using assms unfolding lists_ok_def by blast
  then show ?thesis by (simp add: dump_vmranges_def dump_range_list_ok)
qed

lemma take_files_fresh:
  assumes "take_files_snapshot K d s = Some (r, s')" and F: "fresh_at K d s"
  shows "fresh_at K d s'"
proof -
  obtain data where td: "td_heap s d = Some data" using F by (auto simp: fresh_at_def)
  have put: "fresh_at K d (put_td d (set_files f offs data) s)" for f offs
    by (rule fresh_at_put [OF F td]) (simp_all add: set_files_def)
  from take_files_heap [OF assms(1) td] show ?thesis
  proof cases
    case 1
    from fresh_at_heap [OF this] F show ?thesis by blast
  next
    case (2 f offs)
    then have "td_heap s' = td_heap (put_td d (set_files f offs data) s)" by (simp add: put_td_def)
    from fresh_at_heap [OF this] put show ?thesis by blast
  qed
qed

text \<open>The tables of the registered tasks are well typed, as theory \<open>Page_Typing\<close> shows of every
  snapshot, and no page is listed where there is no snapshot.\<close>

definition tables_ok :: "'k kernel_scheme \<Rightarrow> 's td_state_scheme \<Rightarrow> bool" where
  "tables_ok K s \<longleftrightarrow>
     (\<forall>t d data. registry_map s t = Some d \<longrightarrow> td_heap s d = Some data \<longrightarrow>
        table_typed K data \<and> (have_snapshot data \<or> dirty_pages (ss data) = []))"

lemma tables_okD:
  "tables_ok K s \<Longrightarrow> registry_map s t = Some d \<Longrightarrow> registry_ok s \<Longrightarrow> typed_at K d s"
  by (metis registry_map_SomeD tables_ok_def typed_at_def)

lemma ensure_fresh:
  assumes ok: "registry_ok s" and T: "tables_ok K s"
    and e: "ensure_task_data K (current s) s = Some (Some d, s1)" "td_heap s1 d = Some data" "\<not> have_snapshot data"
  shows "fresh_at K d s1"
proof (cases "registry_map s (current s)")
  case None
  have "kmalloc_ok K (alloc_next s)" using e(1) ensure_task_data_oom [OF ok None, of K] by (rule_tac ccontr) simp
  then obtain x where "ensure_task_data K (current s) s = Some (Some (alloc_next s), x)"
    and "td_heap x = (td_heap s)(alloc_next s \<mapsto> new_task_data (current s))"
    by (rule ensure_task_data_new [OF ok None])
  then have "data = new_task_data (current s)" using e(1,2) by simp
  then show ?thesis using e(2) table_typed_new [of K "current s"]
    by (simp add: fresh_at_def) (simp add: new_task_data_def zero_snapshot_def)
next
  case (Some d')
  then have "d' = d" "s1 = s" using e(1) by (simp_all add: ensure_task_data_def get_task_data_map [OF ok])
  then show ?thesis using T Some e(2,3) by (auto simp: tables_ok_def fresh_at_def)
qed

lemma debug_take_agrees:
  assumes ok: "registry_ok s" and lists: "lists_ok s" and T: "tables_ok K s"
  shows "map_option snd (debug_take_snapshot fmt_p K cfg s) = take_snapshot K cfg s"
proof (cases "ensure_task_data K (current s) s")
  case (Some x)
  obtain found s1 where e: "ensure_task_data K (current s) s = Some (found, s1)" using Some by (cases x) simp
  show ?thesis
  proof (cases "\<exists>d data. found = Some d \<and> td_heap s1 d = Some data \<and> \<not> have_snapshot data")
    case True
    then obtain d data where d: "found = Some d" "td_heap s1 d = Some data" "\<not> have_snapshot data" by blast
    define s2 where "s2 = put_td d (initialize_snapshot cfg data s1) s1"
    have F: "fresh_at K d s1" by (rule ensure_fresh [OF ok T e [unfolded d(1)] d(2,3)])
    have F2: "fresh_at K d s2" unfolding s2_def
      by (rule fresh_at_put [OF F d(2)]) (simp_all add: initialize_snapshot_def Let_def status_defs)
    have "lists_ok s1" by (rule ensure_lists(3) [OF ok e lists])
    then have "lists_ok s2"
      by (rule lists_ok_cong [rotated -1]) (use d in \<open>auto simp: s2_def put_td_def split: if_splits\<close>)
    then obtain log where log: "dump_vmranges d s2 = Some log"
      using dump_vmranges_total [of s2 d] F2 by (auto simp: fresh_at_def)
    have dumped: "\<exists>l. dump_memory_snapshot fmt_p K (Some d) s4 = Some l"
      if "take_memory_snapshot K d s2 = Some (r, s3)" "take_files_snapshot K d s3 = Some (q, s4)" for r s3 q s4
      by (rule dump_memory_typed [OF fresh_at_typed [OF take_files_fresh [OF that(2) take_memory_snapshot_fresh [OF that(1) F2]]]])
    have run: "debug_take_snapshot fmt_p K cfg s = do {
        (_, s3) \<leftarrow> take_memory_snapshot K d s2;
        (_, s4) \<leftarrow> take_files_snapshot K d s3;
        pages \<leftarrow> dump_memory_snapshot fmt_p K (Some d) s4;
        Some (log @ pages, 1, s4) }"
      using d by (simp add: debug_take_snapshot_def e Let_def log flip: s2_def)
    have run': "take_snapshot K cfg s = do {
        (_, s3) \<leftarrow> take_memory_snapshot K d s2;
        (_, s4) \<leftarrow> take_files_snapshot K d s3;
        Some (1, s4) }"
      using d by (simp add: take_snapshot_def e flip: s2_def)
    show ?thesis
      unfolding run run'
      by (auto split: Option.bind_split prod.split dest: dumped)
  next
    case False
    then show ?thesis
      by (cases found) (auto simp: debug_take_snapshot_def take_snapshot_def e split: Option.bind_split)
  qed
qed (simp add: debug_take_snapshot_def take_snapshot_def)

lemma debug_restore_agrees:
  assumes "typed_at K d s"
  shows "map_option snd (debug_restore_snapshot fmt_p K d s) = restore_snapshot K d s"
proof -
  obtain log where "dump_memory_snapshot fmt_p K (Some d) s = Some log" using dump_memory_typed [OF assms] by blast
  then show ?thesis
    by (auto simp: debug_restore_snapshot_def restore_snapshot_def split: Option.bind_split prod.split)
qed

lemma map_option_snd_bind:
  "map_option snd (do { (log, s1) \<leftarrow> x; Some (log, f s1) }) = do { s1 \<leftarrow> map_option snd x; Some (f s1) }"
  by (cases x) auto

lemma map_option_snd_found:
  assumes "\<And>d. x = Some (Some d) \<Longrightarrow> map_option snd (f d) = g d"
  shows "map_option snd (do { found \<leftarrow> x; (case found of None \<Rightarrow> Some (log, q) | Some d \<Rightarrow> f d) }) =
     do { found \<leftarrow> x; (case found of None \<Rightarrow> Some q | Some d \<Rightarrow> g d) }"
  using assms by (auto split: Option.bind_split option.split)

lemma map_option_snd_lookup:
  assumes "\<And>d data. x = Some (Some d) \<Longrightarrow> map_option snd (f d data) = g d data"
  shows "map_option snd (do { found \<leftarrow> x; (case found of None \<Rightarrow> Some (log, q) | Some d \<Rightarrow> do { data \<leftarrow> h d; f d data }) }) =
     do { found \<leftarrow> x; (case found of None \<Rightarrow> Some q | Some d \<Rightarrow> do { data \<leftarrow> h d; g d data }) }"
  by (rule map_option_snd_found) (use assms in \<open>auto split: Option.bind_split\<close>)

lemma debug_clean_agrees:
  assumes typed: "\<And>d. get_task_data (current s) s = Some (Some d) \<Longrightarrow> typed_at K d s"
  shows "map_option snd (debug_clean_snapshot fmt_p K s) = clean_snapshot K s"
  unfolding debug_clean_snapshot_def clean_snapshot_def
proof (rule map_option_snd_found)
  fix d assume "get_task_data (current s) s = Some (Some d)"
  then obtain log where "dump_memory_snapshot fmt_p K (Some d) s = Some log" using dump_memory_typed [OF typed] by blast
  then show "map_option snd (do { pages \<leftarrow> dump_memory_snapshot fmt_p K (Some d) s;
           s1 \<leftarrow> clean_memory_snapshot K d s;
           s2 \<leftarrow> clean_files_snapshot d s1;
           data \<leftarrow> td_heap s2 d;
           Some (pages, remove_task_data d (put_td d (clear_snapshot data) s2)) }) =
      do { s1 \<leftarrow> clean_memory_snapshot K d s;
           s2 \<leftarrow> clean_files_snapshot d s1;
           data \<leftarrow> td_heap s2 d;
           Some (remove_task_data d (put_td d (clear_snapshot data) s2)) }"
    by (auto split: Option.bind_split)
qed

text \<open>C18. A build with \<open>DEBUG\<close> behaves as one without it. For every request, in any state whose
  lists of ranges are well formed and whose page tables are well typed, the additional loops over
  the ranges and over the pages end, every page they read through the dirty list is still in
  the table and so has not been freed, and answer and state are the same.\<close>

theorem debug_build_agrees:
  assumes "registry_ok s" and "lists_ok s" and "tables_ok K s"
  shows "map_option snd (debug_serve fmt_p K r s) = serve K r s"
proof -
  have typed: "typed_at K d s" if "get_task_data (current s) s = Some (Some d)" for d
    using that tables_okD [OF assms(3) _ assms(1), of "current s" d] by (simp add: get_task_data_map [OF assms(1)])
  have "map_option snd (debug_clean_snapshot fmt_p K s) = clean_snapshot K s"
    by (rule debug_clean_agrees) (rule typed)
  note agrees = debug_restore_agrees [OF typed] this
  have clean: "map_option snd (if b then debug_clean_snapshot fmt_p K s else Some ([], s)) =
      (if b then clean_snapshot K s else Some s)" for b
    by (simp add: agrees)
  have exit: "map_option snd (debug_exit_snapshot fmt_p K s) = exit_snapshot K s"
    unfolding debug_exit_snapshot_def exit_snapshot_def
    by (rule map_option_snd_lookup) (simp only: map_option_snd_bind if_distrib [of "map_option snd"] agrees option.map snd_conv)
  have do_exit: "map_option snd (debug_do_exit_hook fmt_p K code s) = do_exit_hook K code s" for code
    unfolding debug_do_exit_hook_def do_exit_hook_def
    by (rule map_option_snd_lookup) (simp only: map_option_snd_bind clean)
  have recover: "map_option snd (debug_recover_snapshot fmt_p K s) = recover_snapshot K s"
    unfolding debug_recover_snapshot_def recover_snapshot_def
    by (rule map_option_snd_found) (simp only: map_option_snd_bind agrees)
  have zero: "map_option snd (map_option (\<lambda>(log, s'). (log, 0 :: int, s')) x) = map_option (Pair 0) (map_option snd x)" for x
    by (cases x) auto
  show ?thesis
  proof (cases r)
    case Req_clean
    then show ?thesis by (simp only: debug_serve.simps serve.simps zero agrees(2))
  next
    case (Req_do_exit code)
    then show ?thesis by (simp only: debug_serve.simps serve.simps zero do_exit)
  qed (simp_all add: debug_take_agrees [OF assms] exit recover option.map_comp comp_def)
qed

definition no_ptr :: "nat \<Rightarrow> string" where "no_ptr d = ''(ptrval)''"

section \<open>What a dump tells\<close>

text \<open>Documented behaviour of \<open>hash_min\<close>: its result has the number of bits it was asked for.\<close>

definition hash_bits :: "'k kernel_scheme \<Rightarrow> bool" where
  "hash_bits K \<longleftrightarrow> (\<forall>b. hash_min K b < 2 ^ SNAPSHOT_HASHTABLE_SZ)"

lemma distinct_concat_keyed:
  assumes "\<And>b i. b \<in> set (f i) \<Longrightarrow> k b = i" and "\<And>i. distinct (f i)" and "distinct js"
  shows "distinct (concat (map f js))"
  using assms(3)
proof (induction js)
  case (Cons i js)
  have "b \<notin> set (f j)" if "b \<in> set (f i)" "j \<in> set js" for b j
    using assms(1) [OF that(1)] assms(1) [of b j] that(2) Cons.prems by auto
  then have "set (f i) \<inter> (\<Union>j \<in> set js. set (f j)) = {}" by blast
  then show ?case using Cons assms(2) by simp
qed simp

text \<open>The address in a line: the sixteen digits before the newline.\<close>

definition read_address :: "log_level \<times> string \<Rightarrow> u64" where
  "read_address line = word_of_nat (read_num 16 (drop (length (snd line) - 17) (butlast (snd line))))"

lemma read_address_line: "read_address (level, msg @ fmt_016lx b @ [newline]) = b"
proof -
  have "butlast (msg @ fmt_016lx b @ [newline]) = msg @ fmt_016lx b" by (simp add: butlast_append)
  then show ?thesis by (simp add: read_address_def)
qed

lemma read_dbg_line: "map read_address (DBG_PRINT True (msg @ fmt_016lx b @ [newline])) = [b]"
  using read_address_line [of KERN_DEBUG "''[AFL++] DEBUG: '' @ msg" b] by (simp add: DBG_PRINT_def)

lemma dump_dirty_list_addresses:
  assumes "\<And>b. b \<in> set bs \<Longrightarrow> get_snapshot_page K b data \<noteq> None"
  obtains log where "dump_dirty_list K data bs = Some log" and "map read_address log = bs"
proof -
  obtain sps where sps: "those (map (\<lambda>b. get_snapshot_page K b data) bs) = Some sps"
    using those_map_total [of bs "\<lambda>b. get_snapshot_page K b data"] assms by blast
  have "map page_base sps = bs"
    using sps by (rule those_map_inverse) (auto simp: get_snapshot_page_def dest: find_SomeD)
  moreover have "map read_address (concat (map (\<lambda>sp. DBG_PRINT True (''  0x'' @ fmt_016lx (page_base sp) @ [newline])) sps)) =
      map page_base sps"
    using read_dbg_line [of "''  0x''"] by (induction sps) simp_all
  ultimately show ?thesis using sps by (intro that) (simp_all add: dump_dirty_list_def)
qed

lemma dump_bucket_addresses: "map read_address (dump_bucket i sps) = map page_base (filter dirty sps)"
proof (induction sps)
  case (Cons sp sps)
  then show ?case
    using read_dbg_line [of "''  '' @ fmt_d i @ '': 0x''" "page_base sp"] by (auto simp: dump_bucket_def)
qed (simp add: dump_bucket_def)

definition dirty_keys :: "'k kernel_scheme \<Rightarrow> task_data \<Rightarrow> u64 set" where
  "dirty_keys K data = {b. \<exists>sp. get_snapshot_page K b data = Some sp \<and> dirty sp}"

lemma dump_buckets_addresses:
  assumes ok: "pages_ok K data" and bits: "hash_bits K"
  shows "set (map read_address (dump_buckets (ss_pages (ss data)))) = dirty_keys K data"
    and "distinct (map read_address (dump_buckets (ss_pages (ss data))))"
proof -
  let ?f = "\<lambda>i. map page_base (filter dirty (ss_pages (ss data) i))"
  have A: "map read_address (dump_buckets (ss_pages (ss data))) = concat (map ?f [0 ..< 2 ^ SNAPSHOT_HASHTABLE_SZ])"
    by (simp add: dump_buckets_def map_concat comp_def dump_bucket_addresses)
  have key: "hash_min K b = i" if "b \<in> set (?f i)" for b i using ok that by (auto simp: pages_ok_def)
  have dist: "distinct (?f i)" for i
    using ok by (simp add: pages_ok_def distinct_map_filter)
  have found: "get_snapshot_page K (page_base sp) data = Some sp" if "sp \<in> set (ss_pages (ss data) i)" for sp i
  proof -
    have "hash_min K (page_base sp) = i" "inj_on page_base (set (ss_pages (ss data) i))"
      using ok that by (auto simp: pages_ok_def distinct_map)
    then show ?thesis using that by (auto simp: get_snapshot_page_def intro!: find_unique dest: inj_onD)
  qed
  show "set (map read_address (dump_buckets (ss_pages (ss data)))) = dirty_keys K data"
  proof (intro set_eqI iffI)
    fix b assume "b \<in> set (map read_address (dump_buckets (ss_pages (ss data))))"
    then obtain i sp where "sp \<in> set (ss_pages (ss data) i)" "dirty sp" "b = page_base sp" unfolding A by auto
    then show "b \<in> dirty_keys K data" using found by (auto simp: dirty_keys_def)
  next
    fix b assume "b \<in> dirty_keys K data"
    then obtain sp where sp: "get_snapshot_page K b data = Some sp" "dirty sp" by (auto simp: dirty_keys_def)
    then have "page_base sp = b" "sp \<in> set (ss_pages (ss data) (hash_min K b))"
      by (auto simp: get_snapshot_page_def dest: find_SomeD)
    then show "b \<in> set (map read_address (dump_buckets (ss_pages (ss data))))"
      unfolding A using sp(2) bits by (auto simp: hash_bits_def)
  qed
  show "distinct (map read_address (dump_buckets (ss_pages (ss data))))"
    unfolding A
  proof (rule distinct_concat_keyed)
    show "\<And>b i. b \<in> set (?f i) \<Longrightarrow> hash_min K b = i" by (rule key)
  qed (rule dist, simp)
qed

text \<open>A page that is not on the dirty list shows what the snapshot promises, and every dirty page is
  on the list.\<close>

lemma unlisted_unchanged:
  assumes inv: "page_inv K m orig U data M" and "b \<notin> set (dirty_pages (ss data))" and "promised K m orig U b = Some p"
  shows "user_view K m M b = p"
  using page_inv_at [OF inv, of b] assms(2,3)
  by (auto simp: page_ok_def promised_def user_view_def untouched_def split: option.splits if_splits)

lemma dirty_keys_listed:
  assumes inv: "page_inv K m orig U data M"
  shows "dirty_keys K data \<subseteq> set (dirty_pages (ss data))"
proof
  fix b assume "b \<in> dirty_keys K data"
  with page_inv_at [OF inv, of b] show "b \<in> set (dirty_pages (ss data))"
    by (auto simp: dirty_keys_def page_ok_def split: if_splits)
qed

lemma listed_found:
  assumes inv: "page_inv K m orig U data M" and "b \<in> set (dirty_pages (ss data))"
  shows "get_snapshot_page K b data \<noteq> None"
  using page_inv_at [OF inv, of b] assms(2) by (auto simp: page_ok_def split: option.splits)

lemma dirty_keys_saved:
  assumes inv: "page_inv K m orig U data M" and b: "b \<in> dirty_keys K data"
  shows "\<exists>sp. get_snapshot_page K b data = Some sp \<and> page_data sp = orig b \<and> orig b \<noteq> None"
  using page_inv_at [OF inv, of b] b by (fastforce simp: dirty_keys_def page_ok_def split: if_splits)

definition dump_title :: "(nat \<Rightarrow> string) \<Rightarrow> nat \<Rightarrow> klog" where
  "dump_title fmt_p d = DBG_PRINT True (''dumping dirty pages from task_data '' @ fmt_p d @ '':'')"

definition list_title :: klog where
  "list_title = DBG_PRINT True (''dumping pages in dirty list:'' @ [newline])"

text \<open>C19. What the dump of a debug build shows. After a snapshot has been taken and after any memory
  events, the first part of the dump names once each page that is marked dirty in the table, and
  no other; the second part names the pages of the dirty list, which the next restore goes
  through, once each and in its order. The dirty pages are among the listed ones, their original
  bytes have been saved, and every covered page whose contents have changed since the snapshot
  was taken is listed.\<close>

theorem dump_shows_changes:
  assumes idle: "idle_process K G m d al bl s0" and oom: "no_oom K" and bits: "hash_bits K"
    and laws: "vma_walker_law K" "memory_laws K"
    and files: "config_has cfg AFL_SNAPSHOT_FDS \<longrightarrow> files_ready K fs s0"
    and take: "take_snapshot K cfg s0 = Some (r, s1)" and run: "run_events K es s1 = Some s2"
  shows "\<exists>data saved listed. td_heap s2 d = Some data \<and>
     dump_memory_snapshot fmt_p K (Some d) s2 = Some (dump_title fmt_p d @ saved @ list_title @ listed) \<and>
     set (map read_address saved) = {b. \<exists>sp. get_snapshot_page K b data = Some sp \<and> dirty sp} \<and>
     map read_address listed = dirty_pages (ss data) \<and>
     distinct (map read_address saved) \<and> distinct (map read_address listed) \<and>
     set (map read_address saved) \<subseteq> set (map read_address listed) \<and>
     (\<forall>b \<in> set (map read_address saved). covered m cfg al bl (mem s0) b \<longrightarrow>
        (\<exists>sp. get_snapshot_page K b data = Some sp \<and> page_data sp = Some (user_view K m (mem s0) b))) \<and>
     (\<forall>b. covered m cfg al bl (mem s0) b \<and> user_view K m (mem s2) b \<noteq> user_view K m (mem s0) b \<longrightarrow>
        b \<in> set (map read_address listed))"
proof -
  obtain s' data0 orig U where take': "take_snapshot K cfg s0 = Some (1, s')"
    and made: "snapshot_made K cfg m d fs s0 s' data0" and inv: "sys_inv K (G(m := (orig, U))) s'"
    and prom: "\<And>b. covered m cfg al bl (mem s0) b \<Longrightarrow> promised K m orig U b = Some (user_view K m (mem s0) b)"
    by (rule take_snapshot_idle [OF idle oom laws(1), of cfg fs], use files in simp) blast
  have s': "s' = s1" using take take' by simp
  have tr: "tracked s1 m d data0" using made s' by (simp add: snapshot_made_def)
  have inv2: "sys_inv K (G(m := (orig, U))) s2" and same: "same_tasks s1 s2"
    using sys_inv_run_events [OF inv [unfolded s'] oom laws(2), of es] run by auto
  obtain data where tr2: "tracked s2 m d data" using same_tasks_tracked [OF same tr] by blast
  note pinv = sys_inv_tracked [OF inv2 tr2, simplified]
  let ?A = "dump_buckets (ss_pages (ss data))"
  obtain B where B: "dump_dirty_list K data (dirty_pages (ss data)) = Some B" "map read_address B = dirty_pages (ss data)"
    by (rule dump_dirty_list_addresses [OF listed_found [OF pinv]])
  have dump: "dump_memory_snapshot fmt_p K (Some d) s2 = Some (dump_title fmt_p d @ ?A @ list_title @ B)"
    using tracked_td [OF tr2] by (simp add: dump_memory_snapshot_def dump_title_def list_title_def B(1))
  note A = dump_buckets_addresses [OF page_invD(1) [OF pinv] bits]
  have saved: "\<exists>sp. get_snapshot_page K b data = Some sp \<and> page_data sp = Some (user_view K m (mem s0) b)"
    if "b \<in> dirty_keys K data" "covered m cfg al bl (mem s0) b" for b
    using dirty_keys_saved [OF pinv that(1)] prom [OF that(2)] by (auto simp: promised_def split: option.splits)
  have changed: "b \<in> set (dirty_pages (ss data))"
    if "covered m cfg al bl (mem s0) b" "user_view K m (mem s2) b \<noteq> user_view K m (mem s0) b" for b
    using unlisted_unchanged [OF pinv _ prom [OF that(1)]] that(2) by blast
  show ?thesis
  proof (rule exI [of _ data], rule exI [of _ ?A], rule exI [of _ B], unfold A(1) B(2), intro conjI)
    show "td_heap s2 d = Some data" by (rule tracked_td [OF tr2])
    show "dump_memory_snapshot fmt_p K (Some d) s2 = Some (dump_title fmt_p d @ ?A @ list_title @ B)" by (rule dump)
    show "dirty_keys K data = {b. \<exists>sp. get_snapshot_page K b data = Some sp \<and> dirty sp}" by (simp add: dirty_keys_def)
    show "distinct (map read_address ?A)" by (rule A(2))
    show "dirty_keys K data \<subseteq> set (dirty_pages (ss data))" by (rule dirty_keys_listed [OF pinv])
  qed (use page_invD(2) [OF pinv] saved changed in auto)
qed

text \<open>The process of theory \<open>Roundtrip\<close> after it has written to its first page.\<close>

lemma ref_hash_bits: "hash_bits ref_files_kernel"
  by (simp add: hash_bits_def ref_files_kernel_core SNAPSHOT_HASHTABLE_SZ_def)

definition changed_check :: "(int \<times> system_state) option \<Rightarrow> bool" where
  "changed_check out =
     (case out of
        None \<Rightarrow> False
      | Some (r, s1) \<Rightarrow>
          (case run_events ref_files_kernel fresh_events s1 of
             None \<Rightarrow> False
           | Some s2 \<Rightarrow> user_view ref_files_kernel 0 (mem s2) 0x1000 = [9] \<and> lheap s1 = lheap demo_system \<and> r = 1 \<and>
               (case td_heap s2 100 of
                  None \<Rightarrow> False
                | Some data \<Rightarrow> 0x1000 \<in> set (dirty_pages (ss data)) \<and> sf_files (ss_files (ss data)) = None)))"

lemma changed_run: "changed_check (take_snapshot ref_files_kernel 8 demo_system)"
  by (simp add: take_defs changed_check_def take_snapshot_def ensure_task_data_def fresh_events_def
      initialize_snapshot_def take_files_snapshot_def set_files_def demo_thread_def ref_files_kernel_core)

theorem debug_build_agrees_witness:
  "\<exists>s1 s2 data log s'. take_snapshot ref_files_kernel 8 demo_system = Some (1, s1) \<and>
     run_events ref_files_kernel fresh_events s1 = Some s2 \<and>
     td_heap s2 100 = Some data \<and> 0x1000 \<in> set (dirty_pages (ss data)) \<and>
     debug_serve no_ptr ref_files_kernel Req_clean s2 = Some (log, 0, s') \<and>
     serve ref_files_kernel Req_clean s2 = Some (0, s')"
proof -
  let ?K = ref_files_kernel
  obtain s1 s2 data where take: "take_snapshot ?K 8 demo_system = Some (1, s1)" and run: "run_events ?K fresh_events s1 = Some s2"
    and lists: "lheap s1 = lheap demo_system" and td: "td_heap s2 100 = Some data"
    and listed: "0x1000 \<in> set (dirty_pages (ss data))" and nofiles: "sf_files (ss_files (ss data)) = None"
    using changed_run by (auto simp: changed_check_def split: option.splits)
  have files: "config_has 8 AFL_SNAPSHOT_FDS \<Longrightarrow> files_ready ?K demo_fds demo_system" by (simp add: config_has_def config_defs)
  obtain s' data0 orig U where "take_snapshot ?K 8 demo_system = Some (1, s')"
    and made: "snapshot_made ?K 8 0 100 demo_fds demo_system s' data0"
    and inv': "sys_inv ?K ((\<lambda>_. (Map.empty, {}))(0 := (orig, U))) s'"
    by (rule take_snapshot_idle [OF demo_system_idle ref_files_kernel_laws(1,2) files])
  with take have s': "s' = s1" by simp
  obtain G where inv: "sys_inv ?K G s2" and same: "same_tasks s1 s2"
    using sys_inv_run_events [OF inv' [unfolded s'] ref_files_kernel_laws(1,3), of fresh_events] run by auto
  note ok = sys_invD(1) [OF inv]
  have m: "tracked s1 0 100 data0" "task_data_list s1 = [100]" "current s1 = 7" "tsk data0 = 7"
    using made by (simp_all add: s' snapshot_made_def)
  have env: "same_env s1 s2" using run by (rule run_events_frame)
  obtain data2 where tr: "tracked s2 0 100 data2" and sb: "same_but_pages data0 data2"
    using same_tasks_tracked [OF same m(1)] by blast
  have d: "data2 = data" "have_snapshot data" "tsk data = 7"
    using tr td sb m(4) by (auto simp: tracked_def same_but_pages_def)
  have list: "task_data_list s2 = [100]" "current s2 = 7" "lheap s2 = lheap demo_system"
    using env m lists by (simp_all add: same_env_def)
  have r: "registry_map s2 7 = Some 100" by (simp add: registry_map_eq_Some_iff [OF ok] list owner_of_def td d)
  have only: "e = 100" if "registry_map s2 t = Some e" for t e
    using that by (simp add: registry_map_eq_Some_iff [OF ok] list)
  have new: "ensure_task_data ?K (current demo_system) demo_system = Some (Some 100, demo_system)"
    "td_heap demo_system 100 = Some (new_task_data 7)"
    by (simp_all add: ensure_task_data_def get_task_data_def)
  have "typed_at ?K 100 s2"
    using take_snapshot_typed [OF new no_pages_new take] run by (rule run_events_typed)
  then have "table_typed ?K data" using td by (rule typed_atD)
  then have tables: "tables_ok ?K s2" using only td d by (auto simp: tables_ok_def)
  have lists2: "lists_ok s2"
    by (auto simp: lists_ok_def range_list_def dlist_def list intro!: exI [of _ "[]"])
  have "clean_snapshot ?K s2 \<noteq> None"
    using clean_snapshot_exact [OF ok _ td, of ?K] r nofiles by (simp add: list table_live_def)
  then obtain s3 where "serve ?K Req_clean s2 = Some (0, s3)" by auto
  moreover from this obtain log where "debug_serve no_ptr ?K Req_clean s2 = Some (log, 0, s3)"
    using debug_build_agrees [OF ok lists2 tables, of no_ptr Req_clean]
    by (cases "debug_serve no_ptr ?K Req_clean s2") auto
  ultimately show ?thesis using take run td listed by blast
qed

theorem dump_shows_changes_witness:
  "\<exists>r s1 s2 saved listed. take_snapshot ref_files_kernel 8 demo_system = Some (r, s1) \<and>
     run_events ref_files_kernel fresh_events s1 = Some s2 \<and>
     dump_memory_snapshot no_ptr ref_files_kernel (Some 100) s2 = Some (dump_title no_ptr 100 @ saved @ list_title @ listed) \<and>
     0x1000 \<in> set (map read_address listed)"
proof -
  obtain r s1 s2 where take: "take_snapshot ref_files_kernel 8 demo_system = Some (r, s1)"
    and run: "run_events ref_files_kernel fresh_events s1 = Some s2" and nine: "user_view ref_files_kernel 0 (mem s2) 0x1000 = [9]"
    using changed_run by (auto simp: changed_check_def split: option.splits)
  have cfg: "\<not> config_has 8 AFL_SNAPSHOT_FDS" "\<not> config_has 8 AFL_SNAPSHOT_BLOCK" "\<not> config_has 8 AFL_SNAPSHOT_NOSTACK"
    by (simp_all add: config_has_def config_defs)
  have cov: "covered 0 8 [] [] (mem demo_system) 0x1000"
    by (simp add: covered_def selected_def skip_vma_def fresh_mem_def demo_mem_def demo_mm_def vm_flag_defs
        cfg want_page_def)
  have "user_view ref_files_kernel 0 fresh_mem 0x1000 = demo_page"
    by (simp add: user_view_def fresh_pte content_def) (simp add: fresh_mem_def demo_mem_def)
  then have changed: "user_view ref_files_kernel 0 (mem s2) 0x1000 \<noteq> user_view ref_files_kernel 0 (mem demo_system) 0x1000"
    using nine by (simp add: demo_page_def)
  have files: "config_has 8 AFL_SNAPSHOT_FDS \<longrightarrow> files_ready ref_files_kernel demo_fds demo_system" by (simp add: cfg)
  from dump_shows_changes [OF demo_system_idle ref_files_kernel_laws(1) ref_hash_bits ref_files_kernel_laws(2,3) files take run, of no_ptr]
  show ?thesis using take run cov changed by blast
qed

end
