(* ===== verification/Spec2Isabelle.thy ===== *)
theory Spec2Isabelle
  imports Device Loading Failures Shared_Areas Debug_Build
begin

text \<open>
  AFL-Snapshot-LKM: a Linux kernel module that lets a fuzzer take a snapshot of a process and put
  the process back to it, without \<open>fork\<close>.

  \<^bold>\<open>The program.\<close> A client opens \<open>/dev/afl_snapshot\<close> and sends ioctls (\<open>lib/libaflsnapshot.c\<close>,
  \<open>include/afl_snapshot.h\<close>). \<open>mod_dev_ioctl\<close> of \<open>src/module.c\<close> dispatches them to
  \<open>take_snapshot\<close>, \<open>recover_snapshot\<close>, \<open>clean_snapshot\<close> (\<open>src/snapshot.c\<close>) and to
  \<open>include_vmrange\<close>, \<open>exclude_vmrange\<close> (\<open>src/memory.c\<close>). The state of a process is a
  \<open>struct task_data\<close>, kept on an RCU list (\<open>src/task_data.c\<close>) and found from the fault handlers
  through a per-CPU cache. \<open>take_snapshot\<close> records registers, break, areas and pages,
  write-protects the pages, and duplicates the descriptor table (\<open>src/files.c\<close>). Hooks on
  \<open>do_wp_page\<close>, \<open>page_add_new_anon_rmap\<close> and \<open>__do_munmap\<close> save a page before its first
  change. \<open>recover_snapshot\<close> kills the other threads (\<open>src/threads.c\<close>), puts registers, break,
  areas, dirty pages and files back. Hooks on \<open>do_exit\<close> and \<open>exit_group\<close> restore or drop the
  snapshot when the process ends. The hooks are installed with ftrace by \<open>src/hook.c\<close> and
  \<open>src/ftrace_helper.h\<close>, from \<open>mod_init\<close>.

  \<^bold>\<open>Conventions.\<close> Integers that wrap are words of 64 bits. A C function that may dereference a bad
  pointer or loop for ever is an option-valued function (\<open>partial_function (option)\<close> for the loops
  over lists); \<^term>\<open>None\<close> says that it never returns, and the theorems prove
  that it does return. No definition uses fuel. Every failure code and every failed allocation of
  the source is a branch of the model. Kernel objects live in heaps, maps from addresses to
  records, where the code shares or frees them (task data, list nodes, files, hooks); objects with
  one owner are values. Every operation is atomic with respect to the others: the locks of the
  source are modelled as that, and RCU by the queue of objects that wait for their grace period.
  The theorem \<open>cache_refilled_before_removal\<close> splits one operation where the source does not hold
  a lock over all of it.

  \<^bold>\<open>Theories, in the order of their imports.\<close>
  \<^item> \<open>Prelude\<close>: machine integers, page arithmetic, error codes, lemmas on options, lists and words.
  \<^item> \<open>Kernel_List\<close>: \<open>struct list_head\<close> over a heap, with \<open>list_add\<close>, \<open>list_add_tail\<close>, \<open>list_del\<close>
    and the predicate that a head and its nodes form a circular list.
  \<^item> \<open>Kernel\<close>: page tables, areas and frames; the record \<open>kernel\<close> of the kernel functions the module
    calls; the laws they are assumed to obey. \<open>Kernel_Instance\<close>: one executable kernel, \<open>ref_kernel\<close>,
    that satisfies the laws, used in the witnesses.
  \<^item> \<open>Snapshot_Types\<close>: the structures, flags and inline functions of \<open>src/snapshot.h\<close> and
    \<open>src/task_data.h\<close>.
  \<^item> \<open>Task_Data\<close>: \<open>src/task_data.c\<close> and the per-CPU cache. The locale \<open>task_registry\<close> is the
    contract of a map from tasks to data; \<open>Reclaim\<close>: the callback that frees an object, and the
    ranges it does not free.
  \<^item> \<open>Vmrange\<close>: the allow and block lists of \<open>src/memory.c\<close>; \<open>Walk_Decision\<close>: the decisions of
    \<open>snapshot_walk_check_range\<close>, with its two fast paths, against a specification per page.
  \<^item> \<open>Snapshot_Pages\<close>: the hash table of pages, \<open>add_snapshot_page\<close>, \<open>make_snapshot_page\<close>,
    \<open>record_dirty_page\<close>; the locale \<open>page_store\<close> is the contract of the table.
  \<^item> \<open>Memory_Hooks\<close>: the three memory hooks, the loop over the dirty pages and \<open>do_recover_page\<close>.
    \<open>Memory_Invariant\<close>: the invariant of a snapshot, page by page, and its preservation.
    \<open>Memory_Restore\<close>: executions, and what the loop restores after them.
  \<^item> \<open>Take_Memory\<close>: \<open>take_memory_snapshot\<close> with the callbacks of its page walk, and what they
    leave behind; \<open>Take_Theorems\<close>: that it establishes the invariant.
  \<^item> \<open>Restore\<close>: \<open>restore_brk\<close>, \<open>restore_vmas\<close>, \<open>recover_memory_snapshot\<close>,
    \<open>clean_memory_snapshot\<close>.
  \<^item> \<open>Files\<close>: \<open>src/files.c\<close>. \<open>Threads\<close>: \<open>src/threads.c\<close>.
  \<^item> \<open>Frame\<close>: what each memory operation leaves alone.
  \<^item> \<open>Areas\<close>: the two lists \<open>restore_vmas\<close> walks over, the laws of \<open>munmap\<close> and \<open>mmap\<close> on the list of
    areas, and the cursors; \<open>Restore_Areas\<close>: its loop invariant and correctness.
  \<^item> \<open>Snapshot\<close>: \<open>src/snapshot.c\<close>. \<open>Lifecycle\<close>: its operations composed; \<open>Roundtrip\<close>: one round of
    taking, running and restoring; \<open>Rounds\<close>: any number of rounds on one snapshot.
  \<^item> \<open>Phases\<close>: an abstract machine with a phase per task (no data, data without a snapshot, a
    snapshot) and the locale \<open>simulation\<close>; \<open>Sessions\<close>: whole sessions refine it;
    \<open>Defects\<close>: entry points that do not do what their callers expect.
  \<^item> \<open>Page_Typing\<close>: the shape of the page table under failing allocations, by preservation and
    progress; \<open>Failures\<close>: allocations that fail in the hooks, excluded pages, merged areas, and exiting.
  \<^item> \<open>Shared_Areas\<close>: what the allow list does to shared memory, whatever its pages are.
  \<^item> \<open>Printing\<close>: the macros of \<open>src/debug.h\<close> as texts in the kernel log, with functions that read
    them back; \<open>Debug_Build\<close>: \<open>dump_memory_snapshot\<close> and the entry points of a build with \<open>DEBUG\<close>.
  \<^item> \<open>Hook\<close>: \<open>src/hook.c\<close>. \<open>Ftrace_Helper\<close>: \<open>src/ftrace_helper.h\<close>, with the locale
    \<open>installer\<close> for all-or-nothing installation. \<open>Loading\<close>: \<open>mod_init\<close> and \<open>mod_exit\<close>.
    \<open>Device\<close>: the device file and its ioctl dispatcher, the hook on \<open>exit_group\<close> in both variants,
    and the client library. The kernel version and the configuration that the preprocessor tests
    are parameters (\<open>LINUX_VERSION_CODE\<close>, \<open>CONFIG_X86_64\<close> of the kernel record).

  Functions keep their C names. A record field keeps the name of the C field, except where HOL
  or another record has taken it.

  \<^bold>\<open>The interfaces.\<close> \<open>task_registry\<close> is interpreted as \<open>reg\<close> by \<open>get_task_data\<close>,
  \<open>ensure_task_data\<close> and \<open>remove_task_data\<close>; \<open>page_store\<close> as \<open>pages\<close> by \<open>get_snapshot_page\<close>,
  \<open>hash_add\<close> and the updates through a page pointer; \<open>simulation\<close> as \<open>module\<close> by the entry
  points and the phases; \<open>installer\<close> as \<open>fh\<close> by \<open>fh_install_hook\<close> and \<open>fh_remove_hook\<close>.

  \<^bold>\<open>Hypotheses.\<close> \<open>memory_laws\<close> and \<open>restore_laws\<close>
  collect what the kernel's fault handlers, \<open>copy_to_user\<close>,
  \<open>zap_page_range\<close> and \<open>do_munmap\<close> do to one page;
  \<open>vma_walker_law\<close> says that the page walker visits the pages of an area in ascending
  order and obeys the action a callback chose, in private memory, and \<open>any_walker_law\<close> the same
  for any memory whose entries sit at page boundaries; \<open>area_laws\<close> and
  \<open>trim_succeeds\<close> say what \<open>munmap\<close> and \<open>mmap\<close> do to the
  list of areas, and \<open>mmap_room\<close> that there is room for missing memory. The law of
  \<open>mmap\<close> speaks of a range that does not touch the area above it, and
  \<open>restore_vmas_restores\<close> supposes that (\<open>after_missing\<close>): otherwise the
  kernel may free an area the loop still uses; \<open>restore_vmas_merge_dangles\<close> shows what follows
  when it does.
  \<open>munmap_areas_law\<close>, \<open>dup_fd_law\<close>, \<open>llseek_law\<close>,
  \<open>ftrace_laws\<close> and \<open>ioc_law\<close> are the documented behaviour of the
  functions they name; \<open>hash_bits\<close> says that \<open>hash_min\<close> stays below the size of the
  table, and \<open>device_node_law\<close> that opening the node of a registered device that anyone may
  read gives a descriptor of it. \<open>ref_kernel\<close>, \<open>ref_files_kernel\<close>,
  \<open>ref_ftrace\<close> and \<open>uapi_ioc\<close> satisfy them. Some theorems also suppose
  that no allocation fails (\<open>no_oom\<close>) or that no page is in swap
  (\<open>no_swap\<close>): the source does not handle these cases. \<open>debug_build_agrees\<close> supposes that the
  page tables are well typed, which \<open>page_table_stays_typed\<close> shows for every snapshot. What survives a failed
  allocation is the shape of the page table (\<open>page_table_stays_typed\<close>); what does not
  is stated by \<open>unsaved_page_is_lost\<close> and
  \<open>anon_hook_crashes_without_memory\<close>.

  \<^bold>\<open>What the theorems show.\<close> A process that takes a snapshot, runs and
  restores it sees its covered pages, registers, file positions and descriptors as they were, once
  and over any number of rounds, and with the option MMAP its address space, too; the hooks keep
  the invariant of every process under any interleaving of memory events; the decisions of the
  page walk agree with the lists when these are aligned and disjoint; sessions of any length
  behave as the phases say; dropping a snapshot leaves no pointer to it and changes nothing else;
  a process gets to exit; loading and unloading are each other's inverse; installation of hooks is all or nothing;
  the client library reaches the entry point it names; a debug build behaves as any other, its
  dump shows every page that has changed, and a dump of bytes can be read back. A group of theorems states where the
  code falls short: ranges replace each other on their lists, the replaced ones are never
  freed, overlapping lists decide by the route of the walk, \<open>restore_vmas\<close> and \<open>restore_brk\<close> fail on areas over
  a hole and on unaligned breaks, a restore without a snapshot unmaps memory, excluded pages may
  be wiped, an included range brings in all of its shared area, a page whose bytes could not be saved is lost, and a failed load leaves hooks behind.

  \<^bold>\<open>Not modelled.\<close> Single messages of \<open>DBG_PRINT\<close>, \<open>SAYF\<close> and \<open>FATAL\<close> at their places
  of use, which print their arguments and nothing else (the macros and all loops that print are
  modelled); declarations without code, such as the types of the symbols that are looked up, and
  \<open>struct snapshot_thread\<close>, which is only used by code that is commented out;
  \<open>lookup_symbols.py\<close> (a build-time script), the example programs under \<open>test/\<close> and the build
  files. Page faults in shared mappings are outside the model: \<open>mem_wf\<close> lets a page be writable
  only when it is anonymous and has one owner, so the theorems on running and restoring speak of
  private memory; \<open>shared_page_tracked_iff\<close>, on taking a snapshot, does not. The original
  \<open>do_exit\<close> is a logged call; that it does not return, so that the \<open>BUG()\<close> after it is not
  reached, is not expressed. Outside the model are also weak memory and the interleaving of two
  operations of the module inside their bodies, apart from the one case above.
\<close>

end
